(* ===== verification/Prelude.thy ===== *)
theory Prelude
  imports Main "HOL-Library.Word"
begin

text \<open>
  Shared material of the development: the machine integer types of
  \<^verbatim>\<open>src/src/stx/storage/types.h\<close>, the byte buffers every encoder writes, the collections of
  rewrite rules the component theories extend, and generic lemmas on lists, maps and words.
\<close>

unbundle bit_operations_syntax

section \<open>Machine integers\<close>

text \<open>
  The typedefs of \<^verbatim>\<open>stx::storage\<close>.  Signed and unsigned integers of one width share a word type:
  \<^const>\<open>unat\<close> and \<^const>\<open>uint\<close> read it as unsigned, \<^const>\<open>sint\<close> as two's complement.
\<close>

type_synonym u8 = "8 word"
type_synonym u16 = "16 word"
type_synonym u32 = "32 word"
type_synonym u64 = "64 word"
type_synonym i32 = "32 word"
type_synonym i64 = "64 word"

text \<open>A \<^verbatim>\<open>buffer_type\<close> is a vector of bytes; a reading iterator is the bytes that remain.\<close>

type_synonym buffer = "u8 list"

text \<open>
  A decoder that dereferences its iterator without a bounds test has no defined result at the end
  of the buffer.  Decoders therefore return an option: \<^const>\<open>None\<close> is undefined behaviour of the
  source, \<^const>\<open>Some\<close> carries the value and the iterator left behind.
\<close>

type_synonym 'a decoded = "('a \<times> buffer) option"

section \<open>Rule collections\<close>

named_theorems codec_simps \<open>unfolding rules of the encoders and decoders\<close>
named_theorems page_simps \<open>rules of the page operations\<close>
named_theorems store_simps \<open>rules of the block and version stores\<close>

section \<open>Words\<close>

text \<open>
  The bits of the constants the codecs mask with.  The simplifier reads the bits of a word numeral
  off the integer numeral, so the rules are about integers.
\<close>

lemma bit_0x7F [codec_simps]: "bit (0x7F :: int) n \<longleftrightarrow> n < 7"
proof -
  have m: "(0x7F :: int) = mask 7" by (simp add: mask_eq_exp_minus_1)
  show ?thesis unfolding m by (simp only: bit_mask_iff) (auto simp: possible_bit_def)
qed

lemma bit_0x80 [codec_simps]: "bit (0x80 :: int) n \<longleftrightarrow> n = 7"
proof -
  have m: "(0x80 :: int) = 2 ^ 7" by simp
  show ?thesis by (simp only: m bit_exp_iff) (auto simp: possible_bit_def)
qed

lemma bit_0x40 [codec_simps]: "bit (0x40 :: int) n \<longleftrightarrow> n = 6"
proof -
  have m: "(0x40 :: int) = 2 ^ 6" by simp
  show ?thesis by (simp only: m bit_exp_iff) (auto simp: possible_bit_def)
qed

lemma and_0x80_eq_0 [codec_simps]: "b AND 0x80 = 0 \<longleftrightarrow> \<not> bit b 7" for b :: u8
proof
  assume "b AND 0x80 = 0"
  then have "\<not> bit (b AND 0x80) 7" by simp
  then show "\<not> bit b 7" by (simp add: bit_and_iff bit_0x80)
next
  assume "\<not> bit b 7"
  then show "b AND 0x80 = 0" by (intro bit_word_eqI) (auto simp: bit_simps bit_0x80)
qed

lemma and_0x40_eq_0 [codec_simps]: "b AND 0x40 = 0 \<longleftrightarrow> \<not> bit b 6" for b :: u8
proof
  assume "b AND 0x40 = 0"
  then have "\<not> bit (b AND 0x40) 6" by simp
  then show "\<not> bit b 6" by (simp add: bit_and_iff bit_0x40)
next
  assume "\<not> bit b 6"
  then show "b AND 0x40 = 0" by (intro bit_word_eqI) (auto simp: bit_simps bit_0x40)
qed

lemma bit_byte_oob [simp]: "8 \<le> n \<Longrightarrow> \<not> bit (b :: u8) n"
  using bit_imp_le_length [of b n] by auto

lemma bit_u32_oob [simp]: "32 \<le> n \<Longrightarrow> \<not> bit (b :: u32) n"
  using bit_imp_le_length [of b n] by auto

lemma bit_u64_oob [simp]: "64 \<le> n \<Longrightarrow> \<not> bit (b :: u64) n"
  using bit_imp_le_length [of b n] by auto

section \<open>Lists\<close>

text \<open>Insertion and removal at a position: what the page arrays implement by shifting.\<close>

definition insert_at :: "nat \<Rightarrow> 'a \<Rightarrow> 'a list \<Rightarrow> 'a list" where
  "insert_at i x xs = take i xs @ x # drop i xs"

definition remove_at :: "nat \<Rightarrow> 'a list \<Rightarrow> 'a list" where
  "remove_at i xs = take i xs @ drop (Suc i) xs"

lemma length_insert_at [simp]: "i \<le> length xs \<Longrightarrow> length (insert_at i x xs) = Suc (length xs)"
  by (simp add: insert_at_def)

lemma length_remove_at [simp]: "i < length xs \<Longrightarrow> length (remove_at i xs) = length xs - 1"
  by (simp add: remove_at_def)

lemma nth_insert_at:
  "i \<le> length xs \<Longrightarrow> j \<le> length xs \<Longrightarrow>
   insert_at i x xs ! j = (if j < i then xs ! j else if j = i then x else xs ! (j - 1))"
  by (auto simp: insert_at_def nth_append min_def nth_Cons')

lemma nth_remove_at:
  "i < length xs \<Longrightarrow> j < length xs - 1 \<Longrightarrow>
   remove_at i xs ! j = (if j < i then xs ! j else xs ! Suc j)"
  by (auto simp: remove_at_def nth_append min_def)

lemma map_insert_at: "map f (insert_at i x xs) = insert_at i (f x) (map f xs)"
  by (simp add: insert_at_def take_map drop_map)

lemma map_remove_at: "map f (remove_at i xs) = remove_at i (map f xs)"
  by (simp add: remove_at_def take_map drop_map)

lemma remove_insert_at [simp]: "i \<le> length xs \<Longrightarrow> remove_at i (insert_at i x xs) = xs"
  by (simp add: insert_at_def remove_at_def)

lemma insert_remove_at [simp]: "i < length xs \<Longrightarrow> insert_at i (xs ! i) (remove_at i xs) = xs"
  by (simp add: insert_at_def remove_at_def id_take_nth_drop [symmetric])

lemma set_insert_at [simp]: "i \<le> length xs \<Longrightarrow> set (insert_at i x xs) = insert x (set xs)"
  by (auto simp: insert_at_def dest: in_set_takeD in_set_dropD)
     (metis append_take_drop_id set_append UnE)

lemma insert_at_append_left: "i \<le> length xs \<Longrightarrow> insert_at i x (xs @ ys) = insert_at i x xs @ ys"
  by (simp add: insert_at_def)

lemma insert_at_append_right:
  "length xs \<le> i \<Longrightarrow> insert_at i x (xs @ ys) = xs @ insert_at (i - length xs) x ys"
  by (simp add: insert_at_def)

section \<open>Codecs\<close>

text \<open>
  The contract of an encoder and its decoder.  Every on-disk format of the system is a sequence of
  such encodings, so the contract asks that the decoder leaves the bytes behind the encoding alone.
  \<open>valid\<close> limits it to the values the format can represent.
\<close>

primrec decode_many :: "(buffer \<Rightarrow> 'a decoded) \<Rightarrow> nat \<Rightarrow> buffer \<Rightarrow> 'a list decoded" where
  "decode_many dec 0 p = Some ([], p)"
| "decode_many dec (Suc n) p =
     Option.bind (dec p) (\<lambda>(v, p1).
       Option.bind (decode_many dec n p1) (\<lambda>(vs, p2). Some (v # vs, p2)))"

locale codec =
  fixes valid :: "'a \<Rightarrow> bool"
    and encode :: "'a \<Rightarrow> buffer"
    and decode :: "buffer \<Rightarrow> 'a decoded"
  assumes decode_encode: "valid v \<Longrightarrow> decode (encode v @ rest) = Some (v, rest)"
begin

lemma encode_prefix_free:
  assumes "valid v" "valid w" "encode v @ r = encode w @ r'"
  shows "v = w \<and> r = r'"
  using decode_encode [OF assms(1), of r] decode_encode [OF assms(2), of r'] unfolding assms(3) by simp

lemma encode_inject: "valid v \<Longrightarrow> valid w \<Longrightarrow> encode v = encode w \<longleftrightarrow> v = w"
  using encode_prefix_free [of v w "[]" "[]"] by auto

lemma decode_many_encode:
  "list_all valid vs \<Longrightarrow>
   decode_many decode (length vs) (concat (map encode vs) @ rest) = Some (vs, rest)"
  by (induction vs) (auto simp: decode_encode)

end

section \<open>Operations that may throw\<close>

text \<open>
  An operation that may throw returns a sum: \<^const>\<open>Inl\<close> an exception, \<^const>\<open>Inr\<close> the result.
  \<open>bindE\<close> sequences two of them, \<open>foldE\<close> runs a loop over a list.
\<close>

definition bindE :: "'e + 'a \<Rightarrow> ('a \<Rightarrow> 'e + 'b) \<Rightarrow> 'e + 'b" where
  "bindE r f = (case r of Inl e \<Rightarrow> Inl e | Inr a \<Rightarrow> f a)"

lemma bindE_simps [simp]: "bindE (Inl e) f = Inl e" "bindE (Inr a) f = f a"
  by (simp_all add: bindE_def)

lemma bindE_Inr_iff: "bindE r f = Inr b \<longleftrightarrow> (\<exists>a. r = Inr a \<and> f a = Inr b)"
  by (cases r) auto

lemma bindE_assoc: "bindE (bindE r f) g = bindE r (\<lambda>a. bindE (f a) g)"
  by (cases r) auto

lemma bindE_cong [fundef_cong]:
  "r = r' \<Longrightarrow> (\<And>a. r' = Inr a \<Longrightarrow> f a = f' a) \<Longrightarrow> bindE r f = bindE r' f'"
  by (cases r') auto

primrec foldE :: "('a \<Rightarrow> 's \<Rightarrow> 'e + 's) \<Rightarrow> 'a list \<Rightarrow> 's \<Rightarrow> 'e + 's" where
  "foldE f [] s = Inr s"
| "foldE f (x # xs) s = bindE (f x s) (foldE f xs)"

lemma foldE_append: "foldE f (xs @ ys) s = bindE (foldE f xs s) (foldE f ys)"
  by (induction xs arbitrary: s) (simp_all add: bindE_assoc cong: bindE_cong)

lemma foldE_inv:
  assumes "\<And>x s. x \<in> set xs \<Longrightarrow> P s \<Longrightarrow> \<exists>s'. f x s = Inr s' \<and> P s'" and "P s"
  shows "\<exists>s'. foldE f xs s = Inr s' \<and> P s'"
  using assms
proof (induction xs arbitrary: s)
  case (Cons x xs)
  obtain s1 where "f x s = Inr s1" "P s1" using Cons.prems(1) [of x s] Cons.prems(2) by auto
  then show ?case using Cons.IH [of s1] Cons.prems(1) by auto
qed simp

section \<open>Simulation\<close>

text \<open>
  The contract of a component whose operations implement an abstract data type: under the invariant
  no operation throws, and it does what the specification does to the abstraction of the state.  A
  sequence of operations is then a sequence of abstract ones, with the same results.
\<close>

primrec runE :: "('op \<Rightarrow> 's \<Rightarrow> 'e + 'r \<times> 's) \<Rightarrow> 'op list \<Rightarrow> 's \<Rightarrow> 'e + 'r list \<times> 's" where
  "runE step [] s = Inr ([], s)"
| "runE step (op # ops) s =
     bindE (step op s) (\<lambda>(r, s1). bindE (runE step ops s1) (\<lambda>(rs, s2). Inr (r # rs, s2)))"

primrec run_spec :: "('op \<Rightarrow> 'a \<Rightarrow> 'r \<times> 'a) \<Rightarrow> 'op list \<Rightarrow> 'a \<Rightarrow> 'r list \<times> 'a" where
  "run_spec spec [] m = ([], m)"
| "run_spec spec (op # ops) m =
     (let (r, m1) = spec op m; (rs, m2) = run_spec spec ops m1 in (r # rs, m2))"

text \<open>
  An execution of a system: its operations with their results, each performed in a state where it is
  valid.  \<open>behaves\<close> is the same for a specification that relates the results to the states.
\<close>

inductive execution :: "('op \<Rightarrow> 's \<Rightarrow> bool) \<Rightarrow> ('op \<Rightarrow> 's \<Rightarrow> 'e + 'r \<times> 's) \<Rightarrow> 's \<Rightarrow> ('op \<times> 'r) list \<Rightarrow> 's \<Rightarrow> bool"
  for valid step s where
  execution_start: "execution valid step s [] s"
| execution_step:
    "execution valid step s tr s1 \<Longrightarrow> valid op s1 \<Longrightarrow> step op s1 = Inr (r, s2) \<Longrightarrow> execution valid step s (tr @ [(op, r)]) s2"

inductive behaves :: "('op \<Rightarrow> 'a \<Rightarrow> 'r \<Rightarrow> 'a \<Rightarrow> bool) \<Rightarrow> 'a \<Rightarrow> ('op \<times> 'r) list \<Rightarrow> 'a \<Rightarrow> bool" for spec a where
  behaves_start: "behaves spec a [] a"
| behaves_step: "behaves spec a tr a1 \<Longrightarrow> spec op a1 r a2 \<Longrightarrow> behaves spec a (tr @ [(op, r)]) a2"

inductive_simps behaves_Nil [simp]: "behaves spec a [] a'"

lemma behaves_snoc: "behaves spec a (tr @ [(op, r)]) a' \<longleftrightarrow> (\<exists>a1. behaves spec a tr a1 \<and> spec op a1 r a')"
  by (auto intro: behaves_step elim: behaves.cases)

lemma behaves_Cons [simp]: "behaves spec a ((op, r) # tr) a' \<longleftrightarrow> (\<exists>a1. spec op a r a1 \<and> behaves spec a1 tr a')"
proof (induction tr arbitrary: a' rule: rev_induct)
  case Nil
  then show ?case using behaves_snoc [of spec a "[]" op r a'] by simp
next
  case (snoc p tr)
  obtain op' r' where p: "p = (op', r')" by force
  show ?case using snoc.IH behaves_snoc [of spec a "(op, r) # tr"] behaves_snoc [of spec _ tr] by (auto simp: p)
qed

lemma execution_first:
  assumes "valid op s" "step op s = Inr (r, s1)" shows "execution valid step s1 tr s2 \<Longrightarrow> execution valid step s ((op, r) # tr) s2"
proof (induction rule: execution.induct)
  case execution_start
  show ?case using execution.execution_step [of valid step s "[]" s op r s1] assms by (simp add: execution.execution_start)
next
  case (execution_step tr s2 op' r' s3)
  show ?case using execution.execution_step [of valid step s "(op, r) # tr" s2 op' r' s3] execution_step by simp
qed

text \<open>Performing operations one by one, as long as they are valid.\<close>

primrec attempt ::
    "('op \<Rightarrow> 's \<Rightarrow> bool) \<Rightarrow> ('op \<Rightarrow> 's \<Rightarrow> 'e + 'r \<times> 's) \<Rightarrow> 'op list \<Rightarrow> 's \<Rightarrow> (('op \<times> 'r) list \<times> 's) option" where
  "attempt valid step [] s = Some ([], s)"
| "attempt valid step (op # ops) s =
     (if valid op s
      then case step op s of
             Inl e \<Rightarrow> None
           | Inr (r, s1) \<Rightarrow> map_option (\<lambda>(tr, s2). ((op, r) # tr, s2)) (attempt valid step ops s1)
      else None)"

lemma attempt_execution: "attempt valid step ops s = Some (tr, s') \<Longrightarrow> execution valid step s tr s'"
  by (induction ops arbitrary: s tr) (auto intro: execution_start execution_first split: if_splits sum.splits)

text \<open>The contract of a system whose operations are valid in some states only.\<close>

locale refinement =
  fixes inv :: "'s \<Rightarrow> bool"
    and abs :: "'s \<Rightarrow> 'a"
    and valid :: "'op \<Rightarrow> 's \<Rightarrow> bool"
    and step :: "'op \<Rightarrow> 's \<Rightarrow> 'e + 'r \<times> 's"
    and spec :: "'op \<Rightarrow> 'a \<Rightarrow> 'r \<Rightarrow> 'a \<Rightarrow> bool"
  assumes step_ok: "inv s \<Longrightarrow> valid op s \<Longrightarrow> \<exists>r s'. step op s = Inr (r, s') \<and> inv s' \<and> spec op (abs s) r (abs s')"
begin

lemma execution_ok: "execution valid step s tr s' \<Longrightarrow> inv s \<Longrightarrow> inv s' \<and> behaves spec (abs s) tr (abs s')"
proof (induction rule: execution.induct)
  case (execution_step tr s1 op r s2)
  then have 1: "inv s1" "behaves spec (abs s) tr (abs s1)" by simp_all
  then obtain r' s' where "step op s1 = Inr (r', s')" "inv s'" "spec op (abs s1) r' (abs s')"
    using step_ok [of s1 op] execution_step.hyps(2) by blast
  then show ?case using 1(2) execution_step.hyps(3) by (auto intro: behaves_step)
qed (simp add: behaves_start)

lemma progress: "execution valid step s tr s' \<Longrightarrow> inv s \<Longrightarrow> valid op s' \<Longrightarrow> \<exists>r s''. step op s' = Inr (r, s'')"
  using execution_ok step_ok by blast

end

locale simulation =
  fixes inv :: "'s \<Rightarrow> bool"
    and abs :: "'s \<Rightarrow> 'a"
    and valid :: "'op \<Rightarrow> bool"
    and step :: "'op \<Rightarrow> 's \<Rightarrow> 'e + 'r \<times> 's"
    and spec :: "'op \<Rightarrow> 'a \<Rightarrow> 'r \<times> 'a"
  assumes step_refines: "inv s \<Longrightarrow> valid op \<Longrightarrow> \<exists>r s'. step op s = Inr (r, s') \<and> inv s' \<and> spec op (abs s) = (r, abs s')"
begin

lemma run_refines:
  "inv s \<Longrightarrow> list_all valid ops \<Longrightarrow>
   \<exists>rs s'. runE step ops s = Inr (rs, s') \<and> inv s' \<and> run_spec spec ops (abs s) = (rs, abs s')"
proof (induction ops arbitrary: s)
  case (Cons op ops)
  then obtain r s1 where s1: "step op s = Inr (r, s1)" "inv s1" "spec op (abs s) = (r, abs s1)"
    using step_refines [of s op] by auto
  then show ?case using Cons.IH [of s1] Cons.prems(2) by auto
qed simp

end

sublocale simulation \<subseteq> refinement inv abs "\<lambda>op s. valid op" step "\<lambda>op a r a'. spec op a = (r, a')"
  by unfold_locales (use step_refines in blast)

end
