(* ===== verification/Leb128.thy ===== *)
theory Leb128
  imports Prelude
begin

text \<open>
  The variable length integer codec of \<^verbatim>\<open>src/src/stx/storage/leb128.h\<close>: the writers, the four
  readers, the size functions and \<^verbatim>\<open>bit_size\<close>.  A writer returns the bytes it stores through its
  iterator, a reader consumes bytes from the front of the buffer.
\<close>

section \<open>Definitions\<close>

text \<open>\<^verbatim>\<open>*ptr++\<close>: the byte under the iterator, and the iterator behind it.\<close>

definition next_byte :: "buffer \<Rightarrow> u8 decoded" where
  "next_byte p = (case p of [] \<Rightarrow> None | b # bs \<Rightarrow> Some (b, bs))"

lemma next_byte_simps [simp]:
  "next_byte [] = None" "next_byte (b # bs) = Some (b, bs)"
  by (simp_all add: next_byte_def)

text \<open>
  \<^verbatim>\<open>read_unsigned\<close>: at most five bytes, the fifth taken whole.  The byte is widened to an
  \<^verbatim>\<open>i32\<close>, so the comparisons with \<open>0x7f\<close> are between non-negative numbers.
\<close>

definition read_unsigned :: "buffer \<Rightarrow> i32 decoded" where
  "read_unsigned input =
     Option.bind (next_byte input) (\<lambda>(b0, p1).
       let result0 = ucast b0 :: i32 in
       if result0 \<le> 0x7F then Some (result0, p1)
       else Option.bind (next_byte p1) (\<lambda>(b1, p2).
         let cur1 = ucast b1 :: i32;
             result1 = (result0 AND 0x7F) OR push_bit 7 (cur1 AND 0x7F) in
         if cur1 \<le> 0x7F then Some (result1, p2)
         else Option.bind (next_byte p2) (\<lambda>(b2, p3).
           let cur2 = ucast b2 :: i32;
               result2 = result1 OR push_bit 14 (cur2 AND 0x7F) in
           if cur2 \<le> 0x7F then Some (result2, p3)
           else Option.bind (next_byte p3) (\<lambda>(b3, p4).
             let cur3 = ucast b3 :: i32;
                 result3 = result2 OR push_bit 21 (cur3 AND 0x7F) in
             if cur3 \<le> 0x7F then Some (result3, p4)
             else Option.bind (next_byte p4) (\<lambda>(b4, p5).
               let cur4 = ucast b4 :: i32 in
               Some (result3 OR push_bit 28 cur4, p5))))))"

text \<open>\<^verbatim>\<open>read_signed\<close>: the same shape, each exit sign extending the bits read so far.\<close>

definition sign_fill :: "nat \<Rightarrow> i32 \<Rightarrow> i32" where
  "sign_fill k w = signed_drop_bit k (push_bit k w)"

definition read_signed :: "buffer \<Rightarrow> i32 decoded" where
  "read_signed input =
     Option.bind (next_byte input) (\<lambda>(b0, p1).
       let result0 = ucast b0 :: i32 in
       if result0 \<le> 0x7F then Some (sign_fill 25 result0, p1)
       else Option.bind (next_byte p1) (\<lambda>(b1, p2).
         let cur1 = ucast b1 :: i32;
             result1 = (result0 AND 0x7F) OR push_bit 7 (cur1 AND 0x7F) in
         if cur1 \<le> 0x7F then Some (sign_fill 18 result1, p2)
         else Option.bind (next_byte p2) (\<lambda>(b2, p3).
           let cur2 = ucast b2 :: i32;
               result2 = result1 OR push_bit 14 (cur2 AND 0x7F) in
           if cur2 \<le> 0x7F then Some (sign_fill 11 result2, p3)
           else Option.bind (next_byte p3) (\<lambda>(b3, p4).
             let cur3 = ucast b3 :: i32;
                 result3 = result2 OR push_bit 21 (cur3 AND 0x7F) in
             if cur3 \<le> 0x7F then Some (sign_fill 4 result3, p4)
             else Option.bind (next_byte p4) (\<lambda>(b4, p5).
               let cur4 = ucast b4 :: i32 in
               Some (result3 OR push_bit 28 cur4, p5))))))"

text \<open>\<^verbatim>\<open>bit_size\<close>: smear the highest bit down, multiply, look the product's top bits up.\<close>

definition de_bruijn_positions :: "nat list" where
  "de_bruijn_positions =
     [0, 9, 1, 10, 13, 21, 2, 29, 11, 14, 16, 18, 22, 25, 3, 30,
      8, 12, 20, 28, 15, 17, 24, 7, 19, 27, 23, 6, 26, 5, 4, 31]"

definition smear :: "u32 \<Rightarrow> u32" where
  "smear v0 =
     (let v1 = v0 OR drop_bit 1 v0; v2 = v1 OR drop_bit 2 v1; v4 = v2 OR drop_bit 4 v2;
          v8 = v4 OR drop_bit 8 v4 in v8 OR drop_bit 16 v8)"

definition bit_size :: "u32 \<Rightarrow> nat" where
  "bit_size v = de_bruijn_positions ! unat (drop_bit 27 (smear v * 0x07C4ACDD))"

text \<open>\<^verbatim>\<open>write_unsigned\<close>: seven bits per byte while anything is left above them.\<close>

function write_unsigned :: "u64 \<Rightarrow> buffer" where
  "write_unsigned data =
     (let out = ucast (data AND 0x7F) :: u8 in
      if ucast out \<noteq> data then (out OR 0x80) # write_unsigned (drop_bit 7 data) else [out])"
  by pat_completeness auto

text \<open>\<^verbatim>\<open>write_signed\<close> and \<^verbatim>\<open>signed_size\<close>: the same loop, storing or counting.\<close>

function write_signed :: "i64 \<Rightarrow> buffer" where
  "write_signed value =
     (let byte = ucast (value AND 0x7F) :: u8; value' = signed_drop_bit 7 value;
          sbit = byte AND 0x40 in
      if value' = 0 \<and> sbit = 0 \<or> value' = -1 \<and> sbit \<noteq> 0 then [byte]
      else (byte OR 0x80) # write_signed value')"
  by pat_completeness auto

function signed_size :: "i64 \<Rightarrow> nat" where
  "signed_size value =
     (let byte = ucast (value AND 0x7F) :: u8; value' = signed_drop_bit 7 value;
          sbit = byte AND 0x40 in
      if value' = 0 \<and> sbit = 0 \<or> value' = -1 \<and> sbit \<noteq> 0 then 1
      else Suc (signed_size value'))"
  by pat_completeness auto

text \<open>\<^verbatim>\<open>unsigned_size\<close> takes a 32-bit argument.\<close>

function unsigned_size :: "u32 \<Rightarrow> nat" where
  "unsigned_size data =
     (let data' = drop_bit 7 data in if data' \<noteq> 0 then Suc (unsigned_size data') else 1)"
  by pat_completeness auto

text \<open>
  \<^verbatim>\<open>read_verify_unsigned\<close> and \<^verbatim>\<open>read_verify_signed\<close> decode, then test the end position against
  \<open>limit\<close> and the fifth byte's high bits.  \<open>limit\<close> is the number of bytes that may be consumed;
  the flag is only ever cleared.
\<close>

definition verify_flag :: "buffer \<Rightarrow> buffer \<Rightarrow> nat \<Rightarrow> bool \<Rightarrow> bool" where
  "verify_flag ptr p limit okay =
     (let consumed = length ptr - length p in
      if limit \<le> consumed \<or> consumed = 5 \<and> 0x0F < ptr ! 4 then False else okay)"

definition read_verify_unsigned :: "buffer \<Rightarrow> nat \<Rightarrow> bool \<Rightarrow> (i32 \<times> buffer \<times> bool) option" where
  "read_verify_unsigned ptr limit okay =
     map_option (\<lambda>(r, p). (r, p, verify_flag ptr p limit okay)) (read_unsigned ptr)"

definition read_verify_signed :: "buffer \<Rightarrow> nat \<Rightarrow> bool \<Rightarrow> (i32 \<times> buffer \<times> bool) option" where
  "read_verify_signed ptr limit okay =
     map_option (\<lambda>(r, p). (r, p, verify_flag ptr p limit okay)) (read_signed ptr)"

text \<open>
  \<^verbatim>\<open>read_unsigned64\<close> tests the end of the buffer before each byte: a truncated encoding gives 0 and
  leaves the iterator where it was.  A shift by 64 or more has no defined result (\<^const>\<open>None\<close>).
\<close>

fun read_unsigned64_loop :: "buffer \<Rightarrow> buffer \<Rightarrow> nat \<Rightarrow> u64 \<Rightarrow> u64 decoded" where
  "read_unsigned64_loop start [] shift result = Some (0, start)"
| "read_unsigned64_loop start (byte # p) shift result =
     (if 64 \<le> shift then None
      else let result' = result OR push_bit shift (ucast (byte AND 0x7F)) in
        if byte AND 0x80 = 0 then Some (result', p)
        else read_unsigned64_loop start p (shift + 7) result')"

definition read_unsigned64 :: "buffer \<Rightarrow> u64 decoded" where
  "read_unsigned64 start = read_unsigned64_loop start start 0 0"

fun read_signed64_loop :: "buffer \<Rightarrow> buffer \<Rightarrow> nat \<Rightarrow> i64 \<Rightarrow> i64 decoded" where
  "read_signed64_loop start [] shift result = Some (0, start)"
| "read_signed64_loop start (byte # p) shift result =
     (if 64 \<le> shift then None
      else let result' = result OR push_bit shift (ucast (byte AND 0x7F)); shift' = shift + 7 in
        if byte AND 0x80 = 0
        then Some (if shift' < 64 \<and> byte AND 0x40 \<noteq> 0
                   then result' OR (- push_bit shift' 1) else result', p)
        else read_signed64_loop start p shift' result')"

definition read_signed64 :: "buffer \<Rightarrow> i64 decoded" where
  "read_signed64 start = read_signed64_loop start start 0 0"

section \<open>Termination\<close>

lemma ucast_low7: "ucast (ucast (data AND 0x7F :: 'a::len word) :: u8) = data AND 0x7F"
  if "8 \<le> LENGTH('a)"
  by (rule bit_word_eqI) (use that in \<open>auto simp: bit_simps bit_0x7F\<close>)

lemma drop7_less: "data AND 0x7F \<noteq> data \<Longrightarrow> unat (drop_bit 7 data) < unat data" for data :: u64
proof -
  assume ne: "data AND 0x7F \<noteq> data"
  have "0 < unat data" using ne by (cases "data = 0") (auto simp: unat_gt_0)
  then show ?thesis by (simp only: unat_drop_bit_eq) (simp add: drop_bit_eq_div)
qed

termination write_unsigned
  by (relation "measure unat") (auto simp: ucast_low7 drop7_less)

lemma sint_asr7: "sint (signed_drop_bit 7 (v :: i64)) = sint v div 128"
  by (simp add: sint_signed_drop_bit_eq drop_bit_eq_div)

lemma abs_div128_less: "v \<noteq> 0 \<Longrightarrow> v \<noteq> -1 \<Longrightarrow> nat \<bar>v div 128\<bar> < nat \<bar>v\<bar>" for v :: int
  by (simp add: abs_if) linarith

lemma write_signed_continues:
  assumes "\<not> (signed_drop_bit 7 v = 0 \<and> (ucast (v AND 0x7F) :: u8) AND 0x40 = 0 \<or>
               signed_drop_bit 7 v = -1 \<and> (ucast (v AND 0x7F) :: u8) AND 0x40 \<noteq> 0)"
  shows "nat \<bar>sint (signed_drop_bit 7 v)\<bar> < nat \<bar>sint (v :: i64)\<bar>"
proof -
  have "v \<noteq> 0" using assms by auto
  moreover have "v \<noteq> -1" using assms by auto
  ultimately have "sint v \<noteq> 0" "sint v \<noteq> -1"
    by (metis signed_eq_0_iff, metis signed_minus_1 signed_word_eqI)
  then show ?thesis unfolding sint_asr7 by (rule abs_div128_less)
qed

termination write_signed
  by (relation "measure (\<lambda>v. nat \<bar>sint v\<bar>)", simp)
     (simp only: in_measure, rule write_signed_continues, simp)

termination signed_size
  by (relation "measure (\<lambda>v. nat \<bar>sint v\<bar>)", simp)
     (simp only: in_measure, rule write_signed_continues, simp)

termination unsigned_size
proof (relation "measure unat", simp)
  fix data x :: u32
  assume x: "x = drop_bit 7 data" and ne: "x \<noteq> 0"
  then have "0 < unat data" by (cases "data = 0") (auto simp: unat_gt_0)
  then show "(x, data) \<in> measure unat" unfolding x
    by (simp only: in_measure unat_drop_bit_eq) (simp add: drop_bit_eq_div)
qed

declare write_unsigned.simps [simp del] write_signed.simps [simp del]
  signed_size.simps [simp del] unsigned_size.simps [simp del]

section \<open>The 64-bit unsigned loop\<close>

lemma take_bit_step7:
  "take_bit s d OR push_bit s (ucast (ucast (drop_bit s d AND 0x7F) :: u8)) = take_bit (s + 7) (d :: u64)"
  by (rule bit_word_eqI) (auto simp: bit_simps codec_simps)

lemma cont_flag [simp]: "\<not> ((b :: u8) OR 0x80) AND 0x80 = 0"
  by (simp add: codec_simps bit_or_iff)

lemma last_flag [simp]: "(ucast (x AND 0x7F :: u64) :: u8) AND 0x80 = 0"
  by (simp add: codec_simps bit_simps)

lemma cont_payload [simp]: "((ucast (x AND 0x7F :: u64) :: u8) OR 0x80) AND 0x7F = ucast (x AND 0x7F)"
  by (rule bit_word_eqI) (auto simp: bit_simps codec_simps)

lemma last_payload [simp]: "(ucast (x AND 0x7F :: u64) :: u8) AND 0x7F = ucast (x AND 0x7F)"
  by (rule bit_word_eqI) (auto simp: bit_simps codec_simps)

lemma drop_bit_add: "drop_bit 7 (drop_bit s d) = drop_bit (s + 7) (d :: u64)"
  by (simp add: drop_bit_drop_bit add.commute)

lemma low7_last:
  assumes "drop_bit s (d :: u64) AND 0x7F = drop_bit s d"
  shows "take_bit (s + 7) d = d"
proof (rule bit_word_eqI)
  fix n assume n: "n < LENGTH(64)"
  show "bit (take_bit (s + 7) d) n = bit d n"
  proof (cases "n < s + 7")
    case False
    have "bit (drop_bit s d AND 0x7F) (n - s) = bit (drop_bit s d) (n - s)" using assms by simp
    with False show ?thesis by (auto simp: bit_simps codec_simps)
  qed (auto simp: bit_simps)
qed

lemma low7_continues:
  assumes "drop_bit s (d :: u64) AND 0x7F \<noteq> drop_bit s d" shows "s + 7 < 64"
proof (rule ccontr)
  assume s: "\<not> s + 7 < 64"
  have "drop_bit s d AND 0x7F = drop_bit s d"
  proof (rule bit_word_eqI)
    fix n show "bit (drop_bit s d AND 0x7F) n = bit (drop_bit s d) n"
      by (cases "n < 7") (use s in \<open>auto simp: bit_simps codec_simps\<close>)
  qed
  with assms show False by simp
qed

lemma write_unsigned_last: "d AND 0x7F = d \<Longrightarrow> write_unsigned d = [ucast (d AND 0x7F)]"
  using ucast_low7 [of d] by (subst write_unsigned.simps) simp

lemma write_unsigned_more:
  "d AND 0x7F \<noteq> d \<Longrightarrow> write_unsigned d = (ucast (d AND 0x7F) OR 0x80) # write_unsigned (drop_bit 7 d)"
  by (subst write_unsigned.simps) (simp add: ucast_low7 Let_def)

lemma read_write_unsigned_loop:
  "s < 64 \<Longrightarrow>
   read_unsigned64_loop start (write_unsigned (drop_bit s d) @ rest) s (take_bit s d) = Some (d, rest)"
proof (induction "64 - s" arbitrary: s rule: less_induct)
  case less
  show ?case
  proof (cases "drop_bit s d AND 0x7F = drop_bit s d")
    case True
    show ?thesis using less.prems
      by (simp add: write_unsigned_last [OF True] take_bit_step7 low7_last [OF True] del: last_payload)
         (simp add: low7_last [OF True] take_bit_step7)
  next
    case False
    then have s: "s + 7 < 64" by (rule low7_continues)
    show ?thesis using less.prems s less.hyps [of "s + 7"]
      by (simp add: write_unsigned_more [OF False] take_bit_step7 drop_bit_add del: drop_bit_drop_bit)
  qed
qed

section \<open>The 64-bit signed loop\<close>

lemma asr_asr: "signed_drop_bit 7 (signed_drop_bit s v) = signed_drop_bit (s + 7) (v :: i64)"
  by (rule bit_word_eqI) (auto simp: bit_simps ac_simps)

lemma take_bit_step7s:
  "s < 64 \<Longrightarrow> take_bit s d OR push_bit s (ucast (ucast (signed_drop_bit s d AND 0x7F) :: u8)) 
     = take_bit (s + 7) (d :: i64)"
  by (rule bit_word_eqI) (auto simp: bit_simps codec_simps)

lemma write_signed_last:
  "signed_drop_bit 7 v = 0 \<and> \<not> bit v 6 \<or> signed_drop_bit 7 v = -1 \<and> bit v 6 \<Longrightarrow>
   write_signed v = [ucast (v AND 0x7F)]"
  by (subst write_signed.simps) (auto simp: codec_simps Let_def bit_simps)

lemma write_signed_more:
  "\<not> (signed_drop_bit 7 v = 0 \<and> \<not> bit v 6 \<or> signed_drop_bit 7 v = -1 \<and> bit v 6) \<Longrightarrow>
   write_signed v = (ucast (v AND 0x7F) OR 0x80) # write_signed (signed_drop_bit 7 v)"
  by (subst write_signed.simps) (auto simp: codec_simps Let_def bit_simps)

lemma sign_extend_last:
  assumes "s < 64"
    and "signed_drop_bit 7 (signed_drop_bit s v) = 0 \<and> \<not> bit (signed_drop_bit s v) 6 \<or>
         signed_drop_bit 7 (signed_drop_bit s v) = -1 \<and> bit (signed_drop_bit s v) 6"
  shows "(if s + 7 < 64 \<and> bit (signed_drop_bit s v) 6
          then take_bit (s + 7) v OR (- push_bit (s + 7) 1) else take_bit (s + 7) v) = (v :: i64)"
proof -
  have h: "bit (signed_drop_bit (s + 7) v) n = bit (signed_drop_bit s v) 6" if "n < 64" for n
    using assms(2) that by (auto simp: add.commute)
  have h': "bit v n = bit (signed_drop_bit s v) 6" if "s + 7 \<le> n" "n < 64" for n
  proof -
    have "bit (signed_drop_bit (s + 7) v) (n - (s + 7)) = bit v n"
      using that by (subst bit_signed_drop_bit_iff) auto
    with h [of "n - (s + 7)"] that show ?thesis by simp
  qed
  have m: "- push_bit (s + 7) 1 = (NOT (mask (s + 7)) :: i64)"
    by (simp add: minus_exp_eq_not_mask push_bit_eq_mult)
  show ?thesis
  proof (rule bit_word_eqI)
    fix n assume n: "n < LENGTH(64)"
    show "bit (if s + 7 < 64 \<and> bit (signed_drop_bit s v) 6
          then take_bit (s + 7) v OR (- push_bit (s + 7) 1) else take_bit (s + 7) v) n = bit v n"
      using h' [of n] n unfolding m
      by (cases "n < s + 7"; cases "bit (signed_drop_bit s v) 6")
         (auto simp: bit_take_bit_iff bit_or_iff bit_not_iff bit_mask_iff possible_bit_def not_less)
  qed
qed

lemma signed_continues:
  fixes v :: i64
  assumes "\<not> (signed_drop_bit 7 (signed_drop_bit s v) = 0 \<and> \<not> bit (signed_drop_bit s v) 6 \<or>
         signed_drop_bit 7 (signed_drop_bit s v) = -1 \<and> bit (signed_drop_bit s v) 6)"
  shows "s + 7 < 64"
proof (rule ccontr)
  assume s: "\<not> s + 7 < 64"
  have "signed_drop_bit 7 (signed_drop_bit s v) = (if bit v 63 then -1 else 0)"
    by (rule bit_word_eqI) (use s in \<open>auto simp: bit_simps\<close>)
  moreover have "bit (signed_drop_bit s v) 6 = bit v 63"
  proof (cases "s = 57")
    case False
    with s have "64 - s \<le> 6" by simp
    then show ?thesis by (simp add: bit_signed_drop_bit_iff)
  qed (simp add: bit_signed_drop_bit_iff)
  ultimately show False using assms by auto
qed

lemma read_write_signed_loop:
  "s < 64 \<Longrightarrow>
   read_signed64_loop start (write_signed (signed_drop_bit s v) @ rest) s (take_bit s v) = Some (v, rest)"
proof (induction "64 - s" arbitrary: s rule: less_induct)
  case less
  let ?w = "signed_drop_bit s v"
  show ?case
  proof (cases "signed_drop_bit 7 ?w = 0 \<and> \<not> bit ?w 6 \<or> signed_drop_bit 7 ?w = -1 \<and> bit ?w 6")
    case True
    have b: "bit (ucast (?w AND 0x7F) :: u8) 6 = bit ?w 6" by (simp add: bit_simps codec_simps)
    show ?thesis using less.prems sign_extend_last [OF less.prems True]
      by (simp add: write_signed_last [OF True] take_bit_step7s Let_def and_0x40_eq_0 b
               del: signed_drop_bit_signed_drop_bit)
  next
    case False
    then have s: "s + 7 < 64" by (rule signed_continues)
    show ?thesis using less.prems s less.hyps [of "s + 7"]
      by (simp add: write_signed_more [OF False] take_bit_step7s asr_asr Let_def
               del: signed_drop_bit_signed_drop_bit)
  qed
qed

section \<open>Sizes\<close>

lemma and_0x7F: "w AND 0x7F = take_bit 7 (w :: 'a::len word)"
proof -
  have m: "(0x7F :: 'a word) = mask 7" by (simp add: mask_eq_exp_minus_1)
  show ?thesis by (simp only: m take_bit_eq_mask)
qed

lemma low7_eq_iff: "w AND 0x7F = w \<longleftrightarrow> drop_bit 7 w = 0" for w :: "'a::len word"
  by (simp only: and_0x7F take_bit_eq_self_iff_drop_bit_eq_0)

lemma unsigned_size_le_if: "unat d < 2 ^ (7 * Suc k) \<Longrightarrow> unsigned_size d \<le> Suc k"
proof (induction k arbitrary: d)
  case 0
  then have "unat (drop_bit 7 d) = 0" by (simp only: unat_drop_bit_eq) (simp add: drop_bit_eq_div)
  then have "drop_bit 7 d = 0" by (simp only: unat_eq_0)
  then show ?case by (subst unsigned_size.simps) simp
next
  case (Suc k)
  have "(2::nat) ^ (7 * Suc (Suc k)) = 2 ^ (7 * Suc k) * 128" by (simp add: power_add)
  with Suc.prems have "unat (drop_bit 7 d) < 2 ^ (7 * Suc k)"
    by (simp only: unat_drop_bit_eq) (simp only: drop_bit_eq_div, simp add: less_mult_imp_div_less)
  from Suc.IH [OF this] show ?case by (subst unsigned_size.simps) (simp add: Let_def)
qed

lemma unsigned_size_le: "unsigned_size d \<le> 5"
proof -
  have "unat d < 2 ^ LENGTH(32)" by (rule unsigned_less)
  then show ?thesis using unsigned_size_le_if [of d 4] by simp
qed

lemma ucast_eq_0_u64 [simp]: "(ucast w :: u64) = 0 \<longleftrightarrow> w = 0" for w :: u32
proof
  assume "(ucast w :: u64) = 0"
  then have "\<not> bit (ucast w :: u64) n" for n by simp
  then have "\<not> bit w n" if "n < 32" for n using that by (auto simp: bit_ucast_iff)
  then show "w = 0" by (intro bit_word_eqI) auto
qed simp

section \<open>The position of the highest bit\<close>

lemma smear_step:
  "(\<And>n. bit w n \<longleftrightarrow> (\<exists>j<p. bit v (n + j))) \<Longrightarrow>
   bit (w OR drop_bit p w) n \<longleftrightarrow> (\<exists>j<p + p. bit (v :: u32) (n + j))"
proof -
  assume h: "\<And>n. bit w n \<longleftrightarrow> (\<exists>j<p. bit v (n + j))"
  have "(\<exists>j<p. bit v (n + j)) \<or> (\<exists>j<p. bit v (p + n + j)) \<longleftrightarrow> (\<exists>j<p + p. bit v (n + j))"
  proof
    assume "(\<exists>j<p. bit v (n + j)) \<or> (\<exists>j<p. bit v (p + n + j))"
    then show "\<exists>j<p + p. bit v (n + j)"
    proof
      assume "\<exists>j<p. bit v (p + n + j)"
      then obtain j where "j < p" "bit v (p + n + j)" by blast
      then show ?thesis by (intro exI [of _ "p + j"]) (auto simp: ac_simps)
    qed (meson trans_less_add1)
  next
    assume "\<exists>j<p + p. bit v (n + j)"
    then obtain j where j: "j < p + p" "bit v (n + j)" by blast
    show "(\<exists>j<p. bit v (n + j)) \<or> (\<exists>j<p. bit v (p + n + j))"
    proof (cases "j < p")
      case False
      then have "j - p < p" "bit v (p + n + (j - p))" using j by (auto simp: ac_simps)
      then show ?thesis by blast
    qed (use j in blast)
  qed
  then show ?thesis by (simp add: bit_or_iff bit_drop_bit_eq h)
qed

lemma bit_smear: "bit (smear v) n \<longleftrightarrow> (\<exists>j<32. bit v (n + j))"
proof -
  define v1 where "v1 = v OR drop_bit 1 v"
  define v2 where "v2 = v1 OR drop_bit 2 v1"
  define v4 where "v4 = v2 OR drop_bit 4 v2"
  define v8 where "v8 = v4 OR drop_bit 8 v4"
  have "bit v n \<longleftrightarrow> (\<exists>j<1. bit v (n + j))" for n by simp
  from smear_step [of v 1 v, OF this] have s1: "bit v1 n \<longleftrightarrow> (\<exists>j<2. bit v (n + j))" for n
    by (simp add: v1_def numeral_2_eq_2)
  from smear_step [of v1 2 v, OF s1] have s2: "bit v2 n \<longleftrightarrow> (\<exists>j<4. bit v (n + j))" for n
    by (simp add: v2_def)
  from smear_step [of v2 4 v, OF s2] have s4: "bit v4 n \<longleftrightarrow> (\<exists>j<8. bit v (n + j))" for n
    by (simp add: v4_def)
  from smear_step [of v4 8 v, OF s4] have s8: "bit v8 n \<longleftrightarrow> (\<exists>j<16. bit v (n + j))" for n
    by (simp add: v8_def)
  from smear_step [of v8 16 v, OF s8] show ?thesis
    by (simp add: smear_def Let_def v1_def v2_def v4_def v8_def)
qed

lemma smear_mask:
  assumes "bit v k" and "\<And>m. k < m \<Longrightarrow> \<not> bit (v :: u32) m"
  shows "smear v = mask (Suc k)"
proof (rule bit_word_eqI)
  fix n assume n: "n < LENGTH(32)"
  have k: "k < 32" using assms(1) bit_imp_le_length by force
  have "(\<exists>j<32. bit v (n + j)) \<longleftrightarrow> n \<le> k"
  proof
    assume "n \<le> k"
    then show "\<exists>j<32. bit v (n + j)" using assms(1) k by (intro exI [of _ "k - n"]) auto
  qed (meson assms(2) leI trans_less_add1)
  then show "bit (smear v) n = bit (mask (Suc k) :: u32) n"
    using n by (auto simp: bit_smear bit_mask_iff possible_bit_def)
qed

lemma de_bruijn_table:
  "\<forall>k\<in>set [0..<32]. de_bruijn_positions ! unat (drop_bit 27 ((mask (Suc k) :: u32) * 0x07C4ACDD)) = k"
  by code_simp

lemma bit_size_highest:
  assumes "bit v k" and "\<And>m. k < m \<Longrightarrow> \<not> bit (v :: u32) m"
  shows "bit_size v = k"
proof -
  have "k < 32" using assms(1) bit_imp_le_length by force
  then show ?thesis using de_bruijn_table by (simp add: bit_size_def smear_mask [OF assms])
qed

lemma highest_bit:
  assumes "(v :: u32) \<noteq> 0"
  obtains k where "bit v k" "\<And>m. k < m \<Longrightarrow> \<not> bit v m"
proof -
  have "{n. bit v n} \<noteq> {}" using assms bit_eqI [of v 0] by auto
  moreover have "finite {n. bit v n}"
    by (rule finite_subset [of _ "{..<32}"]) (auto dest: bit_imp_le_length)
  ultimately show thesis using that [of "Max {n. bit v n}"] Max_in Max_ge
    by (metis leD mem_Collect_eq)
qed

section \<open>The unrolled 32-bit readers\<close>


lemma byte_le [codec_simps]: "(ucast (b :: u8) :: i32) \<le> 0x7F \<longleftrightarrow> \<not> bit b 7"
proof -
  have u: "unat (ucast b :: i32) = unat b" 
    by (simp add: unsigned_ucast_eq take_bit_nat_eq_self_iff)
       (rule order.strict_trans [OF unsigned_less], simp)
  have "unat b < 2 ^ LENGTH(8)" by (rule unsigned_less)
  then have "unat b div 128 = (if 128 \<le> unat b then 1 else 0)"
    using div_nat_eqI [of 128 1 "unat b"] by auto
  then have "bit (unat b) 7 \<longleftrightarrow> 128 \<le> unat b" by (simp add: bit_iff_odd)
  then show ?thesis by (auto simp: word_le_nat_alt u bit_unsigned_iff)
qed

definition payload :: "u8 \<Rightarrow> i32" where
  "payload b = ucast b AND 0x7F"

lemma bit_payload [simp]: "bit (payload b) n \<longleftrightarrow> n < 7 \<and> bit b n"
  by (auto simp: payload_def bit_simps codec_simps)

lemma payload_and [simp]: "payload b AND 0x7F = payload b"
  by (rule bit_word_eqI) (auto simp: bit_and_iff codec_simps)

lemma payload_last [simp]: "\<not> bit b 7 \<Longrightarrow> ucast b = payload b"
proof (rule bit_word_eqI)
  fix n assume "\<not> bit b 7"
  then show "bit (ucast b :: i32) n = bit (payload b) n"
    by (cases "n < 7"; cases "n = 7") (auto simp: bit_ucast_iff dest: bit_imp_le_length)
qed

definition low_byte :: "u64 \<Rightarrow> u8" where "low_byte x = ucast (x AND 0x7F)"
lemma low_byte_simps [simp]: "\<not> bit (low_byte x) 7" "bit (low_byte x OR 0x80) 7"
   "payload (low_byte x) = take_bit 7 (ucast x)" "payload (low_byte x OR 0x80) = take_bit 7 (ucast x)"
     apply (auto simp: low_byte_def bit_simps codec_simps)
   by (rule bit_word_eqI, auto simp: low_byte_def bit_simps codec_simps)+

lemma read_unsigned_bytes:
  "\<not> bit b0 7 \<Longrightarrow> read_unsigned (b0 # p) = Some (payload b0, p)"
  "bit b0 7 \<Longrightarrow> \<not> bit b1 7 \<Longrightarrow>
   read_unsigned (b0 # b1 # p) = Some (payload b0 OR push_bit 7 (payload b1), p)"
  "bit b0 7 \<Longrightarrow> bit b1 7 \<Longrightarrow> \<not> bit b2 7 \<Longrightarrow>
   read_unsigned (b0 # b1 # b2 # p) =
     Some ((payload b0 OR push_bit 7 (payload b1)) OR push_bit 14 (payload b2), p)"
  "bit b0 7 \<Longrightarrow> bit b1 7 \<Longrightarrow> bit b2 7 \<Longrightarrow> \<not> bit b3 7 \<Longrightarrow>
   read_unsigned (b0 # b1 # b2 # b3 # p) =
     Some (((payload b0 OR push_bit 7 (payload b1)) OR push_bit 14 (payload b2)) OR
           push_bit 21 (payload b3), p)"
  "bit b0 7 \<Longrightarrow> bit b1 7 \<Longrightarrow> bit b2 7 \<Longrightarrow> bit b3 7 \<Longrightarrow> 
   read_unsigned (b0 # b1 # b2 # b3 # b4 # p) =
     Some ((((payload b0 OR push_bit 7 (payload b1)) OR push_bit 14 (payload b2)) OR
           push_bit 21 (payload b3)) OR push_bit 28 (ucast b4), p)"
  by (simp_all add: read_unsigned_def byte_le payload_def [symmetric] Let_def del: push_bit_and)

lemma drop_bit_ucast: "drop_bit n (ucast (d :: u32) :: u64) = ucast (drop_bit n d)"
  by (rule bit_word_eqI) (auto simp: bit_simps dest: bit_imp_le_length)

lemma take_bit_take7:
  "take_bit 7 d OR push_bit 7 (take_bit 7 (drop_bit 7 d)) = take_bit 14 (d :: u32)"
  "take_bit 14 d OR push_bit 14 (take_bit 7 (drop_bit 14 d)) = take_bit 21 (d :: u32)"
  "take_bit 21 d OR push_bit 21 (take_bit 7 (drop_bit 21 d)) = take_bit 28 (d :: u32)"
  "take_bit 28 d OR push_bit 28 (take_bit 7 (drop_bit 28 d)) = (d :: u32)"
  by (rule bit_word_eqI, auto simp: bit_simps)+

lemma write_unsigned_last32:
  "drop_bit 7 d = 0 \<Longrightarrow> write_unsigned (ucast (d :: u32)) = [low_byte (ucast d)]"
  using write_unsigned_last [of "ucast d"] by (simp add: low7_eq_iff drop_bit_ucast low_byte_def)

lemma write_unsigned_more32:
  "drop_bit 7 d \<noteq> 0 \<Longrightarrow> write_unsigned (ucast (d :: u32)) =
     (low_byte (ucast d) OR 0x80) # write_unsigned (ucast (drop_bit 7 d))"
  using write_unsigned_more [of "ucast d"] by (simp add: low7_eq_iff drop_bit_ucast low_byte_def)

lemma ucast_id32 [simp]: "ucast (ucast (d :: u32) :: u64) = d"
  by (rule bit_word_eqI) (auto simp: bit_simps)

lemma drop_zero_take: "drop_bit n (d :: u32) = 0 \<Longrightarrow> take_bit n d = d"
  by (simp add: take_bit_eq_self_iff_drop_bit_eq_0)

lemma read_signed_bytes:
  "\<not> bit b0 7 \<Longrightarrow> read_signed (b0 # p) = Some (sign_fill 25 (payload b0), p)"
  "bit b0 7 \<Longrightarrow> \<not> bit b1 7 \<Longrightarrow>
   read_signed (b0 # b1 # p) = Some (sign_fill 18 (payload b0 OR push_bit 7 (payload b1)), p)"
  "bit b0 7 \<Longrightarrow> bit b1 7 \<Longrightarrow> \<not> bit b2 7 \<Longrightarrow>
   read_signed (b0 # b1 # b2 # p) =
     Some (sign_fill 11 ((payload b0 OR push_bit 7 (payload b1)) OR push_bit 14 (payload b2)), p)"
  "bit b0 7 \<Longrightarrow> bit b1 7 \<Longrightarrow> bit b2 7 \<Longrightarrow> \<not> bit b3 7 \<Longrightarrow>
   read_signed (b0 # b1 # b2 # b3 # p) =
     Some (sign_fill 4 (((payload b0 OR push_bit 7 (payload b1)) OR push_bit 14 (payload b2)) OR
           push_bit 21 (payload b3)), p)"
  "bit b0 7 \<Longrightarrow> bit b1 7 \<Longrightarrow> bit b2 7 \<Longrightarrow> bit b3 7 \<Longrightarrow>
   read_signed (b0 # b1 # b2 # b3 # b4 # p) =
     Some ((((payload b0 OR push_bit 7 (payload b1)) OR push_bit 14 (payload b2)) OR
           push_bit 21 (payload b3)) OR push_bit 28 (ucast b4), p)"
  by (simp_all add: read_signed_def byte_le payload_def [symmetric] Let_def del: push_bit_and)

text \<open>The loop exit of the signed writer: every bit from bit 6 up is the sign.\<close>

definition sign_only :: "nat \<Rightarrow> 'a::len word \<Rightarrow> bool" where
  "sign_only s v \<longleftrightarrow> (\<forall>n<LENGTH('a). s \<le> n \<longrightarrow> bit v n = bit v (LENGTH('a) - 1))"

lemma sign_onlyD:
  "sign_only s v \<Longrightarrow> s \<le> n \<Longrightarrow> n < LENGTH('a) \<Longrightarrow> s \<le> m \<Longrightarrow> m < LENGTH('a) \<Longrightarrow> bit v n = bit v m"
  for v :: "'a::len word"
  by (metis sign_only_def)

lemma sign_onlyI:
  "(\<And>n. s \<le> n \<Longrightarrow> n < LENGTH('a) \<Longrightarrow> bit v n = bit v (LENGTH('a) - 1)) \<Longrightarrow> sign_only s v"
  for v :: "'a::len word"
  unfolding sign_only_def by blast

lemma bit_asr:
  "n < LENGTH('a) \<Longrightarrow> bit (signed_drop_bit m w) n = bit w (min (m + n) (LENGTH('a) - 1))"
  for w :: "'a::len word"
proof -
  assume n: "n < LENGTH('a)"
  have "(if LENGTH('a) - m \<le> n \<and> n < LENGTH('a) then LENGTH('a) - 1 else m + n) =
        min (m + n) (LENGTH('a) - 1)"
    using n by (auto simp: min_def)
  then show ?thesis by (simp only: bit_signed_drop_bit_iff)
qed

lemma bit_scast: "n < 64 \<Longrightarrow> bit (scast v :: i64) n = bit v (min n 31)" for v :: i32
  by (simp add: bit_signed_iff min.commute)

lemma sign_only_iff:
  "sign_only 6 v \<longleftrightarrow> signed_drop_bit 7 v = 0 \<and> \<not> bit v 6 \<or> signed_drop_bit 7 v = -1 \<and> bit v 6"
  for v :: i64
proof
  assume h: "sign_only 6 v"
  have "signed_drop_bit 7 v = (if bit v 6 then -1 else 0)"
  proof (rule bit_word_eqI)
    fix n assume n: "n < LENGTH(64)"
    show "bit (signed_drop_bit 7 v) n = bit (if bit v 6 then -1 else 0 :: i64) n"
      using n sign_onlyD [OF h, of "min (7 + n) 63" 6] by (simp add: bit_asr)
  qed
  then show "signed_drop_bit 7 v = 0 \<and> \<not> bit v 6 \<or> signed_drop_bit 7 v = -1 \<and> bit v 6"
    by auto
next
  assume a: "signed_drop_bit 7 v = 0 \<and> \<not> bit v 6 \<or> signed_drop_bit 7 v = -1 \<and> bit v 6"
  have e: "bit (signed_drop_bit 7 v) m = bit v 6" if "m < 64" for m using that a by auto
  have f: "bit v n = bit v 6" if "6 \<le> n" "n < 64" for n
  proof (cases "n = 6")
    case False
    with that have "bit (signed_drop_bit 7 v) (n - 7) = bit v n" by (simp add: bit_asr)
    with e [of "n - 7"] that show ?thesis by simp
  qed simp
  show "sign_only 6 v"
  proof (rule sign_onlyI)
    fix n assume "6 \<le> n" "n < LENGTH(64)"
    then show "bit v n = bit v (LENGTH(64) - 1)" using f [of n] f [of 63] by simp
  qed
qed

lemma sign_only_scast: "sign_only s (scast v :: i64) \<longleftrightarrow> sign_only s v" if "s < 32" for v :: i32
proof
  assume h: "sign_only s (scast v :: i64)"
  show "sign_only s v"
  proof (rule sign_onlyI)
    fix n assume "s \<le> n" "n < LENGTH(32)"
    then show "bit v n = bit v (LENGTH(32) - 1)"
      using that sign_onlyD [OF h, of n 63] by (simp add: bit_scast)
  qed
next
  assume h: "sign_only s v"
  show "sign_only s (scast v :: i64)"
  proof (rule sign_onlyI)
    fix n assume "s \<le> n" "n < LENGTH(64)"
    then show "bit (scast v :: i64) n = bit (scast v :: i64) (LENGTH(64) - 1)"
      using that sign_onlyD [OF h, of "min n 31" 31] by (simp add: bit_scast)
  qed
qed

lemma sign_only_asr: "sign_only s (signed_drop_bit k v) \<longleftrightarrow> sign_only (s + k) v"
  if "s + k < 32" for v :: i32
proof
  assume h: "sign_only s (signed_drop_bit k v)"
  show "sign_only (s + k) v"
  proof (rule sign_onlyI)
    fix n assume "s + k \<le> n" "n < LENGTH(32)"
    then show "bit v n = bit v (LENGTH(32) - 1)"
      using sign_onlyD [OF h, of "n - k" 31] by (simp add: bit_asr)
  qed
next
  assume h: "sign_only (s + k) v"
  show "sign_only s (signed_drop_bit k v)"
  proof (rule sign_onlyI)
    fix n assume "s \<le> n" "n < LENGTH(32)"
    then show "bit (signed_drop_bit k v) n = bit (signed_drop_bit k v) (LENGTH(32) - 1)"
      using that sign_onlyD [OF h, of "min (k + n) 31" 31] by (simp add: bit_asr)
  qed
qed

lemma sign_fill_take:
  assumes "0 < k" "k < 32" "sign_only (31 - k) v" shows "sign_fill k (take_bit (32 - k) v) = v"
proof (rule bit_word_eqI)
  fix n assume n: "n < LENGTH(32)"
  have "bit (sign_fill k (take_bit (32 - k) v)) n = bit v (min (k + n) 31 - k)"
    using n assms(1,2) by (simp add: sign_fill_def bit_asr bit_push_bit_iff bit_take_bit_iff)
       (auto simp: min_def)
  also have "\<dots> = bit v n"
  proof (cases "k + n < 32")
    case False
    then have "min (k + n) 31 - k = 31 - k" "31 - k \<le> n" by auto
    then show ?thesis using sign_onlyD [OF assms(3), of "31 - k" n] n assms(1) by simp
  qed simp
  finally show "bit (sign_fill k (take_bit (32 - k) v)) n = bit v n" .
qed

lemma write_signed_last32:
  "sign_only 6 v \<Longrightarrow> write_signed (scast (v :: i32)) = [low_byte (scast v)]"
  using write_signed_last [of "scast v"] sign_only_scast [of 6 v] sign_only_iff [of "scast v"]
  by (simp add: low_byte_def)

lemma asr_scast: "signed_drop_bit 7 (scast (v :: i32) :: i64) = scast (signed_drop_bit 7 v)"
  by (rule bit_word_eqI) (simp add: bit_asr bit_scast min_def)

lemma write_signed_more32:
  "\<not> sign_only 6 v \<Longrightarrow> write_signed (scast (v :: i32)) =
     (low_byte (scast v) OR 0x80) # write_signed (scast (signed_drop_bit 7 v))"
  using write_signed_more [of "scast v"] sign_only_scast [of 6 v] sign_only_iff [of "scast v"]
  by (simp add: low_byte_def asr_scast)

lemma ucast_scast32 [simp]: "ucast (scast (v :: i32) :: i64) = v"
  by (rule bit_word_eqI) (simp add: bit_ucast_iff bit_scast)

lemma take_bit_asr:
  "k < 32 \<Longrightarrow> take_bit k d OR push_bit k (take_bit 7 (signed_drop_bit k d)) = take_bit (k + 7) d" for d :: i32
  by (rule bit_word_eqI) (auto simp: bit_or_iff bit_take_bit_iff bit_push_bit_iff bit_asr)

lemmas take_bit_asr7 = take_bit_asr [of 7, simplified] take_bit_asr [of 14, simplified]
  take_bit_asr [of 21, simplified] take_bit_asr [of 28, simplified]

section \<open>The four codecs\<close>

lemma unsigned32_roundtrip:
  "read_unsigned (write_unsigned (ucast (d :: u32)) @ rest) = Some (d, rest)"
proof -
  have z: "drop_bit 35 d = 0" by (rule bit_word_eqI) (auto simp: bit_simps)
  consider "drop_bit 7 d = 0" | "drop_bit 7 d \<noteq> 0" "drop_bit 14 d = 0"
    | "drop_bit 7 d \<noteq> 0" "drop_bit 14 d \<noteq> 0" "drop_bit 21 d = 0"
    | "drop_bit 7 d \<noteq> 0" "drop_bit 14 d \<noteq> 0" "drop_bit 21 d \<noteq> 0" "drop_bit 28 d = 0"
    | "drop_bit 7 d \<noteq> 0" "drop_bit 14 d \<noteq> 0" "drop_bit 21 d \<noteq> 0" "drop_bit 28 d \<noteq> 0" by blast
  then show ?thesis
  proof cases
    case 1
    then show ?thesis by (simp add: write_unsigned_last32 read_unsigned_bytes drop_zero_take)
  next
    case 2
    then show ?thesis
      by (simp add: write_unsigned_more32 write_unsigned_last32 read_unsigned_bytes take_bit_take7 drop_zero_take [of 14 d])
  next
    case 3
    then show ?thesis
      by (simp add: write_unsigned_more32 write_unsigned_last32 read_unsigned_bytes take_bit_take7 drop_zero_take [of 21 d])
  next
    case 4
    then show ?thesis
      by (simp add: write_unsigned_more32 write_unsigned_last32 read_unsigned_bytes take_bit_take7 drop_zero_take [of 28 d])
  next
    case 5
    then show ?thesis
      by (simp add: write_unsigned_more32 write_unsigned_last32 read_unsigned_bytes take_bit_take7 z)
  qed
qed


lemma signed32_roundtrip:
  "read_signed (write_signed (scast (v :: i32)) @ rest) = Some (v, rest)"
proof -
  have z: "sign_only 6 (signed_drop_bit 28 v)"
    by (rule sign_onlyI) (simp add: bit_asr)
  note asr = sign_only_asr [of 6 7 v] sign_only_asr [of 6 14 v] sign_only_asr [of 6 21 v]
  note w = write_signed_more32 write_signed_last32 read_signed_bytes take_bit_asr7 asr
  consider "sign_only 6 v" | "\<not> sign_only 6 v" "sign_only 13 v"
    | "\<not> sign_only 6 v" "\<not> sign_only 13 v" "sign_only 20 v"
    | "\<not> sign_only 6 v" "\<not> sign_only 13 v" "\<not> sign_only 20 v" "sign_only 27 v"
    | "\<not> sign_only 6 v" "\<not> sign_only 13 v" "\<not> sign_only 20 v" "\<not> sign_only 27 v" by blast
  then show ?thesis
  proof cases
    case 1
    then show ?thesis using sign_fill_take [of 25 v] by (simp add: w)
  next
    case 2
    then show ?thesis using sign_fill_take [of 18 v] by (simp add: w)
  next
    case 3
    then show ?thesis using sign_fill_take [of 11 v] by (simp add: w)
  next
    case 4
    then show ?thesis using sign_fill_take [of 4 v] by (simp add: w)
  next
    case 5
    then show ?thesis by (simp add: w z take_bit_word_eq_self)
  qed
qed

text \<open>
  Each reader with its writer meets the codec contract; the 32-bit readers on the values that were
  widened from 32 bits.
\<close>

interpretation unsigned64: codec "\<lambda>_. True" write_unsigned read_unsigned64
proof
  fix d rest show "read_unsigned64 (write_unsigned d @ rest) = Some (d, rest)"
    using read_write_unsigned_loop [of 0 "write_unsigned d @ rest" d rest]
    by (simp add: read_unsigned64_def)
qed

interpretation signed64: codec "\<lambda>_. True" write_signed read_signed64
proof
  fix v rest show "read_signed64 (write_signed v @ rest) = Some (v, rest)"
    using read_write_signed_loop [of 0 "write_signed v @ rest" v rest]
    by (simp add: read_signed64_def)
qed

interpretation unsigned32: codec "\<lambda>_. True" "\<lambda>d :: u32. write_unsigned (ucast d)" read_unsigned
  by unfold_locales (rule unsigned32_roundtrip)

interpretation signed32: codec "\<lambda>_. True" "\<lambda>v :: i32. write_signed (scast v)" read_signed
  by unfold_locales (rule signed32_roundtrip)

section \<open>Correctness of the codec\<close>

text \<open>
  C16.  Every 64-bit value survives \<^verbatim>\<open>write_unsigned\<close> followed by \<^verbatim>\<open>read_unsigned64\<close>, whatever bytes
  follow it in the buffer, and the reader stops exactly behind the encoding.
\<close>

theorem read_unsigned64_write_unsigned: "read_unsigned64 (write_unsigned d @ rest) = Some (d, rest)"
  by (rule unsigned64.decode_encode) simp

text \<open>
  C17.  Every 64-bit two's complement value survives \<^verbatim>\<open>write_signed\<close> followed by
  \<^verbatim>\<open>read_signed64\<close>; the final sign extension restores the bits the writer dropped.
\<close>

theorem read_signed64_write_signed: "read_signed64 (write_signed v @ rest) = Some (v, rest)"
  by (rule signed64.decode_encode) simp

text \<open>
  C21.  The unrolled 32-bit \<^verbatim>\<open>read_unsigned\<close> inverts \<^verbatim>\<open>write_unsigned\<close> on every value that fits in
  32 bits.
\<close>

theorem read_unsigned_write_unsigned:
  "read_unsigned (write_unsigned (ucast (d :: u32)) @ rest) = Some (d, rest)"
  by (rule unsigned32.decode_encode) simp

text \<open>
  C20.  The unrolled 32-bit \<^verbatim>\<open>read_signed\<close> inverts \<^verbatim>\<open>write_signed\<close> on every value that fits in
  32 bits.
\<close>

theorem read_signed_write_signed:
  "read_signed (write_signed (scast (v :: i32)) @ rest) = Some (v, rest)"
  by (rule signed32.decode_encode) simp

text \<open>C23.  \<^verbatim>\<open>signed_size\<close> is the number of bytes \<^verbatim>\<open>write_signed\<close> stores.\<close>

theorem length_write_signed: "length (write_signed v) = signed_size v"
  by (induction v rule: write_signed.induct)
     (subst write_signed.simps, subst signed_size.simps, simp add: Let_def)

lemma length_write_unsigned32: "length (write_unsigned (ucast d)) = unsigned_size d"
proof (induction d rule: unsigned_size.induct)
  case (1 d)
  have f: "drop_bit 7 (ucast d :: u64) = ucast (drop_bit 7 d)"
    by (rule bit_word_eqI) (auto simp: bit_simps dest: bit_imp_le_length)
  have e: "ucast d AND 0x7F = (ucast d :: u64) \<longleftrightarrow> drop_bit 7 d = 0"
    by (simp only: low7_eq_iff f) simp
  show ?case
  proof (cases "drop_bit 7 d = 0")
    case True
    then show ?thesis using e by (subst unsigned_size.simps) (simp add: write_unsigned_last)
  next
    case False
    then show ?thesis using e f 1 by (subst unsigned_size.simps) (simp add: write_unsigned_more)
  qed
qed


text \<open>
  On a 32-bit value \<^verbatim>\<open>unsigned_size\<close> is the number of bytes \<^verbatim>\<open>write_unsigned\<close> stores, at most
  five.
\<close>

theorem length_write_unsigned:
  "length (write_unsigned (ucast d)) = unsigned_size d \<and> unsigned_size d \<le> 5"
  by (simp add: length_write_unsigned32 unsigned_size_le)

text \<open>
  \<^verbatim>\<open>bit_size\<close> is the position of the highest set bit: the integer logarithm to base 2 of a
  non-zero word.
\<close>

theorem bit_size_log2:
  assumes "v \<noteq> 0"
  shows "2 ^ bit_size v \<le> unat v \<and> unat v < 2 ^ Suc (bit_size v)"
proof -
  obtain k where k: "bit v k" "\<And>m. k < m \<Longrightarrow> \<not> bit v m" using highest_bit [OF assms] by metis
  have d: "bit_size v = k" by (rule bit_size_highest [OF k])
  have "bit (unat v) k" using k(1) bit_imp_le_length [OF k(1)] by (simp add: bit_unsigned_iff)
  then have "odd (unat v div 2 ^ k)" by (simp add: bit_iff_odd)
  then have "unat v div 2 ^ k \<noteq> 0" by (metis even_zero)
  then have lo: "2 ^ k \<le> unat v" by (metis div_less not_le)
  have "take_bit (Suc k) (unat v) = unat v"
    by (rule bit_eqI) (use k(2) in \<open>auto simp: bit_take_bit_iff bit_unsigned_iff\<close>, use k(2) not_less_eq in blast)
  then have "unat v < 2 ^ Suc k" by (metis take_bit_nat_less_exp)
  with lo d show ?thesis by simp
qed


theorem bit_size_log2_witness:
  "(0xC8 :: u32) \<noteq> 0 \<and> 2 ^ bit_size 0xC8 \<le> unat (0xC8 :: u32) \<and> unat (0xC8 :: u32) < 2 ^ Suc (bit_size 0xC8)"
  using bit_size_log2 [of "0xC8"] by simp

end
