(* ===== verification/NodeSearch.thy ===== *)
theory NodeSearch
  imports Prelude
begin

text \<open>
  What every page of \<^verbatim>\<open>src/src/stx/btree.h\<close> shares: the exceptions, the slot limits, the key
  comparisons built from \<^verbatim>\<open>key_less\<close>, and the searches inside one page, \<^verbatim>\<open>find_lower\<close> with its
  cached last position, \<^verbatim>\<open>min_find_lower\<close> and \<^verbatim>\<open>find_upper\<close>.  A page is seen through its accessor
  \<^verbatim>\<open>get_key\<close>, which may throw.  The searches are shown to compute \<open>lower_pos\<close> and \<open>upper_pos\<close>,
  the number of leading keys below (not above) the sought key.
\<close>

section \<open>Errors\<close>

text \<open>The exceptions of \<^verbatim>\<open>btree.h\<close>; an operation that may throw returns a sum.\<close>

datatype btree_error = Bad_format | Bad_access | Bad_pointer | Bad_transaction

type_synonym 'a result = "btree_error + 'a"

section \<open>Pages as lists\<close>

text \<open>
  The contract of a page: it holds a list of bounded length, insertion and removal at a position act
  on that list and keep the page's invariant, and insertion below the capacity does not throw.
\<close>

datatype 'e page_op = Insert_op nat 'e | Erase_op nat

fun list_run :: "nat \<Rightarrow> 'e page_op list \<Rightarrow> 'e list \<Rightarrow> 'e list option" where
  "list_run cap [] xs = Some xs"
| "list_run cap (Insert_op i e # ops) xs =
     (if length xs < cap \<and> i \<le> length xs then list_run cap ops (insert_at i e xs) else None)"
| "list_run cap (Erase_op i # ops) xs =
     (if i < length xs then list_run cap ops (remove_at i xs) else None)"

fun page_run ::
    "(nat \<Rightarrow> 'e \<Rightarrow> 'p \<Rightarrow> 'err + 'p) \<Rightarrow> (nat \<Rightarrow> 'p \<Rightarrow> 'p) \<Rightarrow> 'e page_op list \<Rightarrow> 'p \<Rightarrow> 'err + 'p" where
  "page_run ins del [] p = Inr p"
| "page_run ins del (Insert_op i e # ops) p = bindE (ins i e p) (page_run ins del ops)"
| "page_run ins del (Erase_op i # ops) p = page_run ins del ops (del i p)"

locale list_page =
  fixes inv :: "'p \<Rightarrow> bool"
    and content :: "'p \<Rightarrow> 'e list"
    and capacity :: nat
    and ins :: "nat \<Rightarrow> 'e \<Rightarrow> 'p \<Rightarrow> 'err + 'p"
    and del :: "nat \<Rightarrow> 'p \<Rightarrow> 'p"
  assumes content_le: "inv p \<Longrightarrow> length (content p) \<le> capacity"
    and ins_ok: "inv p \<Longrightarrow> length (content p) < capacity \<Longrightarrow> i \<le> length (content p) \<Longrightarrow>
      \<exists>p'. ins i e p = Inr p' \<and> inv p' \<and> content p' = insert_at i e (content p)"
    and del_ok: "inv p \<Longrightarrow> i < length (content p) \<Longrightarrow>
      inv (del i p) \<and> content (del i p) = remove_at i (content p)"
begin

lemma del_after_ins:
  assumes "inv p" "length (content p) < capacity" "i \<le> length (content p)"
  shows "\<exists>p'. ins i e p = Inr p' \<and> content (del i p') = content p"
proof -
  obtain p' where "ins i e p = Inr p'" "inv p'" "content p' = insert_at i e (content p)"
    using ins_ok [OF assms] by blast
  then show ?thesis using del_ok [of p' i] assms(3) by auto
qed

lemma run_ok:
  assumes "inv p" "list_run capacity ops (content p) = Some xs"
  shows "\<exists>p'. page_run ins del ops p = Inr p' \<and> inv p' \<and> content p' = xs"
  using assms
proof (induction ops arbitrary: p)
  case (Cons op ops)
  show ?case
  proof (cases op)
    case (Insert_op i e)
    with Cons.prems have c: "length (content p) < capacity" "i \<le> length (content p)"
      by (auto split: if_splits)
    obtain p1 where "ins i e p = Inr p1" "inv p1" "content p1 = insert_at i e (content p)"
      using ins_ok [OF Cons.prems(1) c] by blast
    with Cons c Insert_op show ?thesis by simp
  next
    case (Erase_op i)
    with Cons.prems have "i < length (content p)" by (auto split: if_splits)
    with Cons Erase_op del_ok [OF Cons.prems(1), of i] show ?thesis by simp
  qed
qed simp

end

section \<open>Stores as maps\<close>

text \<open>
  The contract the spaces rely on: a store holds a finite map, insertion adds a key that is not there
  and leaves the value of one that is, a lookup returns the value.
\<close>

primrec insert_each :: "('k \<Rightarrow> 'v \<Rightarrow> 's \<Rightarrow> 'err + 's) \<Rightarrow> ('k \<times> 'v) list \<Rightarrow> 's \<Rightarrow> 'err + 's" where
  "insert_each ins [] s = Inr s"
| "insert_each ins (x # xs) s = bindE (ins (fst x) (snd x) s) (insert_each ins xs)"

locale map_store =
  fixes inv :: "'s \<Rightarrow> bool"
    and abs :: "'s \<Rightarrow> 'k \<rightharpoonup> 'v"
    and ins :: "'k \<Rightarrow> 'v \<Rightarrow> 's \<Rightarrow> 'err + 's"
    and look :: "'k \<Rightarrow> 's \<Rightarrow> 'err + 'v option"
  assumes ins_ok: "inv s \<Longrightarrow>
      \<exists>s'. ins k v s = Inr s' \<and> inv s' \<and> abs s' = (if k \<in> dom (abs s) then abs s else (abs s)(k \<mapsto> v))"
    and look_ok: "inv s \<Longrightarrow> look k s = Inr (abs s k)"
begin

lemma insert_each_ok:
  "inv s \<Longrightarrow> \<exists>s'. insert_each ins xs s = Inr s' \<and> inv s' \<and> abs s' = map_of xs ++ abs s"
proof (induction xs arbitrary: s)
  case (Cons x xs)
  obtain s1 where s1: "ins (fst x) (snd x) s = Inr s1" "inv s1"
    "abs s1 = (if fst x \<in> dom (abs s) then abs s else (abs s)(fst x \<mapsto> snd x))"
    using ins_ok [OF Cons.prems] by blast
  obtain s' where s': "insert_each ins xs s1 = Inr s'" "inv s'" "abs s' = map_of xs ++ abs s1"
    using Cons.IH [OF s1(2)] by blast
  have "abs s' = map_of (x # xs) ++ abs s"
    unfolding s'(3) s1(3) by (cases x) (auto simp: fun_eq_iff map_add_def split: option.splits)
  then show ?case using s1(1) s'(1,2) by (auto simp del: map_of.simps)
qed simp

lemma lookup_after_insert:
  assumes "inv s" shows "\<exists>s'. ins k v s = Inr s' \<and> inv s' \<and>
    look k' s' = Inr (if k' = k \<and> abs s k = None then Some v else abs s k')"
  using ins_ok [OF assms, of k v] look_ok by auto

end

section \<open>Limits and comparisons\<close>

text \<open>\<^verbatim>\<open>btree_traits::keys_per_page\<close> and the limits computed from it.\<close>

definition keys_per_page :: nat where "keys_per_page = 128"
definition surfaceslotmax :: nat where "surfaceslotmax = keys_per_page"
definition interiorslotmax :: nat where "interiorslotmax = keys_per_page"
definition minsurfaces :: nat where "minsurfaces = surfaceslotmax div 2"
definition mininteriorslots :: nat where "mininteriorslots = interiorslotmax div 2"
definition max_scan :: nat where "max_scan = 0"

lemmas limits = keys_per_page_def surfaceslotmax_def interiorslotmax_def minsurfaces_def
  mininteriorslots_def max_scan_def

text \<open>The comparator \<^verbatim>\<open>key_less\<close> is the order of the key type.\<close>

definition key_lessequal :: "'k::linorder \<Rightarrow> 'k \<Rightarrow> bool" where
  "key_lessequal a b \<longleftrightarrow> \<not> b < a"

definition key_equal :: "'k::linorder \<Rightarrow> 'k \<Rightarrow> bool" where
  "key_equal a b \<longleftrightarrow> \<not> a < b \<and> \<not> b < a"

lemma key_compare_simps [simp]: "key_lessequal a b \<longleftrightarrow> a \<le> b" "key_equal a b \<longleftrightarrow> a = b"
  by (auto simp: key_lessequal_def key_equal_def)

section \<open>Searching a page\<close>

text \<open>\<^verbatim>\<open>node::find_lower\<close>: the binary search, and the position remembered from the last call.\<close>

function lower_loop :: "(nat \<Rightarrow> 'k::linorder result) \<Rightarrow> 'k \<Rightarrow> nat \<Rightarrow> nat \<Rightarrow> nat result" where
  "lower_loop get key l h =
     (if l < h then
        let m = (l + h) div 2 in
        bindE (get m) (\<lambda>km.
          if key_lessequal key km then lower_loop get key l m else lower_loop get key (m + 1) h)
      else Inr l)"
  by pat_completeness auto
termination by (relation "measure (\<lambda>(get, key, l, h). h - l)") auto

declare lower_loop.simps [simp del]

definition cached_hit :: "(nat \<Rightarrow> 'k::linorder result) \<Rightarrow> nat \<Rightarrow> nat \<Rightarrow> 'k \<Rightarrow> bool result" where
  "cached_hit get occ lastf key =
     (if 0 < lastf \<and> lastf < occ then
        bindE (get lastf) (\<lambda>k. if \<not> k < key then bindE (get (lastf - 1)) (\<lambda>k'. Inr (k' < key))
                              else Inr False)
      else Inr False)"

text \<open>The result is the position and the value \<^verbatim>\<open>last_found\<close> has afterwards.\<close>

definition find_lower :: "(nat \<Rightarrow> 'k::linorder result) \<Rightarrow> nat \<Rightarrow> nat \<Rightarrow> 'k \<Rightarrow> (nat \<times> nat) result" where
  "find_lower get occ lastf key =
     (if occ = 0 then Inr (0, lastf)
      else bindE (cached_hit get occ lastf key) (\<lambda>hit.
        if hit then Inr (lastf, lastf)
        else bindE (lower_loop get key 0 occ) (\<lambda>l. Inr (l, l))))"

text \<open>\<^verbatim>\<open>node::min_find_lower\<close>: the search cut short, then a linear scan.\<close>

function trunc_loop :: "(nat \<Rightarrow> 'k::linorder result) \<Rightarrow> 'k \<Rightarrow> nat \<Rightarrow> nat \<Rightarrow> (nat \<times> nat) result" where
  "trunc_loop get key l h =
     (if max_scan < h - l then
        let m = (l + h) div 2 in
        bindE (get m) (\<lambda>km.
          if key_lessequal key km then trunc_loop get key l m else trunc_loop get key (m + 1) h)
      else Inr (l, h))"
  by pat_completeness auto
termination by (relation "measure (\<lambda>(get, key, l, h). h - l)") auto

function scan_loop :: "(nat \<Rightarrow> 'k::linorder result) \<Rightarrow> 'k \<Rightarrow> nat \<Rightarrow> nat \<Rightarrow> nat result" where
  "scan_loop get key l h =
     (if l < h then bindE (get l) (\<lambda>kl. if kl < key then scan_loop get key (Suc l) h else Inr l)
      else Inr l)"
  by pat_completeness auto
termination by (relation "measure (\<lambda>(get, key, l, h). h - l)") auto

declare trunc_loop.simps [simp del] scan_loop.simps [simp del]

definition min_find_lower :: "(nat \<Rightarrow> 'k::linorder result) \<Rightarrow> nat \<Rightarrow> 'k \<Rightarrow> nat result" where
  "min_find_lower get occ key =
     (if occ = 0 then Inr 0
      else bindE (trunc_loop get key 0 occ) (\<lambda>(l, h). scan_loop get key l h))"

text \<open>\<^verbatim>\<open>_find_upper\<close>: \<^verbatim>\<open>lo\<close> and \<^verbatim>\<open>hi\<close> are ints, and \<^verbatim>\<open>hi\<close> can end below zero.\<close>

function upper_loop :: "(nat \<Rightarrow> 'k::linorder result) \<Rightarrow> 'k \<Rightarrow> int \<Rightarrow> int \<Rightarrow> int result" where
  "upper_loop get key lo hi =
     (if lo < hi then
        let mid = (lo + hi) div 2 in
        bindE (get (nat mid)) (\<lambda>km.
          if key < km then upper_loop get key lo (mid - 1) else upper_loop get key (mid + 1) hi)
      else Inr hi)"
  by pat_completeness auto
termination by (relation "measure (\<lambda>(get, key, lo, hi). nat (hi - lo))") auto

declare upper_loop.simps [simp del]

definition find_upper :: "(nat \<Rightarrow> 'k::linorder result) \<Rightarrow> nat \<Rightarrow> 'k \<Rightarrow> nat result" where
  "find_upper get occ key =
     (if occ = 0 then Inr 0
      else bindE (upper_loop get key 0 (int occ - 1)) (\<lambda>hi.
        if hi < 0 then Inr (nat (hi + 1))
        else bindE (get (nat hi)) (\<lambda>k.
          if key_lessequal k key then Inr (nat (hi + 1)) else Inr (nat hi))))"

section \<open>Reference positions\<close>

definition lower_pos :: "'k::linorder \<Rightarrow> 'k list \<Rightarrow> nat" where
  "lower_pos key ks = length (takeWhile (\<lambda>k. k < key) ks)"

definition upper_pos :: "'k::linorder \<Rightarrow> 'k list \<Rightarrow> nat" where
  "upper_pos key ks = length (takeWhile (\<lambda>k. k \<le> key) ks)"

text \<open>A monotone predicate splits a sorted list at one place.\<close>

lemma takeWhile_length_unique:
  assumes "p \<le> length xs" "\<And>i. i < p \<Longrightarrow> P (xs ! i)" "p < length xs \<Longrightarrow> \<not> P (xs ! p)"
  shows "length (takeWhile P xs) = p"
  using assms
proof (induction xs arbitrary: p)
  case (Cons x xs)
  show ?case
  proof (cases p)
    case 0
    then show ?thesis using Cons.prems(3) by simp
  next
    case (Suc q)
    then have "P x" using Cons.prems(2) [of 0] by simp
    moreover have "length (takeWhile P xs) = q"
    proof (rule Cons.IH)
      fix i assume "i < q"
      then show "P (xs ! i)" using Cons.prems(2) [of "Suc i"] Suc by simp
    qed (use Cons.prems Suc in auto)
    ultimately show ?thesis using Suc by simp
  qed
qed simp

lemma lower_pos_unique:
  assumes "sorted ks" "p \<le> length ks" "0 < p \<Longrightarrow> ks ! (p - 1) < key" "p < length ks \<Longrightarrow> key \<le> ks ! p"
  shows "lower_pos key ks = p"
  unfolding lower_pos_def
proof (rule takeWhile_length_unique [OF assms(2)])
  fix i assume "i < p"
  then have "ks ! i \<le> ks ! (p - 1)" using assms(1,2) by (intro sorted_nth_mono) auto
  then show "ks ! i < key" using assms(3) \<open>i < p\<close> by auto
qed (use assms(4) in auto)

lemma upper_pos_unique:
  assumes "sorted ks" "p \<le> length ks" "0 < p \<Longrightarrow> ks ! (p - 1) \<le> key" "p < length ks \<Longrightarrow> key < ks ! p"
  shows "upper_pos key ks = p"
  unfolding upper_pos_def
proof (rule takeWhile_length_unique [OF assms(2)])
  fix i assume "i < p"
  then have "ks ! i \<le> ks ! (p - 1)" using assms(1,2) by (intro sorted_nth_mono) auto
  then show "ks ! i \<le> key" using assms(3) \<open>i < p\<close> by auto
qed (use assms(4) in auto)

text \<open>An accessor that reads a key list.\<close>

definition reads :: "(nat \<Rightarrow> 'k result) \<Rightarrow> 'k list \<Rightarrow> bool" where
  "reads get ks \<longleftrightarrow> (\<forall>i<length ks. get i = Inr (ks ! i))"

lemma readsD: "reads get ks \<Longrightarrow> i < length ks \<Longrightarrow> get i = Inr (ks ! i)"
  by (simp add: reads_def numeral_3_eq_3)

lemma lower_loop_correct:
  assumes "reads get ks" "sorted ks" "l \<le> h" "h \<le> length ks"
    "0 < l \<Longrightarrow> ks ! (l - 1) < key" "h < length ks \<Longrightarrow> key \<le> ks ! h"
  shows "lower_loop get key l h = Inr (lower_pos key ks)"
  using assms(3-)
proof (induction "h - l" arbitrary: l h rule: less_induct)
  case less
  show ?case
  proof (cases "l < h")
    case True
    let ?m = "(l + h) div 2"
    have m: "l \<le> ?m" "?m < h" using True by auto
    then have g: "get ?m = Inr (ks ! ?m)" using less.prems(2) readsD [OF assms(1)] by auto
    show ?thesis
    proof (cases "key \<le> ks ! ?m")
      case k: True
      then have "lower_loop get key l ?m = Inr (lower_pos key ks)"
        using m less.prems by (intro less.hyps) auto
      then show ?thesis using True g k by (subst lower_loop.simps) (simp add: Let_def)
    next
      case k: False
      then have "lower_loop get key (?m + 1) h = Inr (lower_pos key ks)"
        using m less.prems by (intro less.hyps) auto
      then show ?thesis using True g k by (subst lower_loop.simps) (simp add: Let_def)
    qed
  next
    case False
    then have "l = h" using less.prems(1) by simp
    then have "lower_pos key ks = l"
      using less.prems by (intro lower_pos_unique [OF assms(2)]) auto
    then show ?thesis using False by (subst lower_loop.simps) simp
  qed
qed

lemma cached_hit_correct:
  assumes "reads get ks"
  shows "cached_hit get (length ks) lastf key =
    Inr (0 < lastf \<and> lastf < length ks \<and> key \<le> ks ! lastf \<and> ks ! (lastf - 1) < key)"
  using readsD [OF assms, of lastf] readsD [OF assms, of "lastf - 1"]
  by (auto simp: cached_hit_def)

lemma find_lower_correct:
  assumes "reads get ks" "sorted ks"
  shows "\<exists>lastf'. find_lower get (length ks) lastf key = Inr (lower_pos key ks, lastf')"
proof (cases "ks = []")
  case False
  have "lower_loop get key 0 (length ks) = Inr (lower_pos key ks)"
    by (rule lower_loop_correct [OF assms]) auto
  moreover have "0 < lastf \<Longrightarrow> lastf < length ks \<Longrightarrow> key \<le> ks ! lastf \<Longrightarrow> ks ! (lastf - 1) < key \<Longrightarrow>
      lower_pos key ks = lastf"
    by (rule lower_pos_unique [OF assms(2)]) auto
  ultimately show ?thesis using False
    by (auto simp: find_lower_def cached_hit_correct [OF assms(1)])
qed (simp add: find_lower_def lower_pos_def)

lemma trunc_loop_eq:
  "l \<le> h \<Longrightarrow> trunc_loop get key l h = bindE (lower_loop get key l h) (\<lambda>p. Inr (p, p))"
proof (induction "h - l" arbitrary: l h rule: less_induct)
  case less
  show ?case
  proof (cases "l < h")
    case True
    let ?m = "(l + h) div 2"
    have m: "l \<le> ?m" "?m < h" using True by auto
    show ?thesis using True m less.hyps [of ?m l] less.hyps [of h "Suc ?m"]
      by (cases "get ?m"; subst trunc_loop.simps, subst lower_loop.simps)
         (auto simp: max_scan_def Let_def)
  qed (use less.prems in \<open>subst trunc_loop.simps, subst lower_loop.simps, simp add: max_scan_def\<close>)
qed

lemma min_find_lower_correct:
  assumes "reads get ks" "sorted ks"
  shows "min_find_lower get (length ks) key = Inr (lower_pos key ks)"
proof (cases "ks = []")
  case False
  have "lower_loop get key 0 (length ks) = Inr (lower_pos key ks)"
    by (rule lower_loop_correct [OF assms]) auto
  then show ?thesis using False
    by (simp add: min_find_lower_def trunc_loop_eq scan_loop.simps)
qed (simp add: min_find_lower_def lower_pos_def)

text \<open>The window of the upper search: what lies before \<open>lo\<close> is at most the key, what lies behind
  \<open>hi\<close> is greater.\<close>

lemma upper_loop_correct:
  assumes "reads get ks" "sorted ks" "0 \<le> lo" "lo \<le> hi + 1" "hi < int (length ks)"
    "0 < lo \<Longrightarrow> ks ! nat (lo - 1) \<le> key" "hi + 1 < int (length ks) \<Longrightarrow> key < ks ! nat (hi + 1)"
  shows "\<exists>hi'. upper_loop get key lo hi = Inr hi' \<and> -1 \<le> hi' \<and> hi' < int (length ks) \<and>
    (hi' + 1 < int (length ks) \<longrightarrow> key < ks ! nat (hi' + 1)) \<and>
    (0 < hi' \<longrightarrow> ks ! nat (hi' - 1) \<le> key)"
  using assms(3-)
proof (induction "nat (hi - lo + 1)" arbitrary: lo hi rule: less_induct)
  case less
  show ?case
  proof (cases "lo < hi")
    case True
    let ?m = "(lo + hi) div 2"
    have m: "lo \<le> ?m" "?m < hi" using True by auto
    then have g: "get (nat ?m) = Inr (ks ! nat ?m)" using less.prems readsD [OF assms(1)] by auto
    show ?thesis
    proof (cases "key < ks ! nat ?m")
      case k: True
      then show ?thesis using True g m less.prems less.hyps [of "?m - 1" lo]
        by (subst upper_loop.simps) (simp add: Let_def)
    next
      case k: False
      then show ?thesis using True g m less.prems less.hyps [of hi "?m + 1"]
        by (subst upper_loop.simps) (simp add: Let_def)
    qed
  next
    case False
    then have e: "lo = hi \<or> lo = hi + 1" using less.prems by auto
    then have "0 < hi \<longrightarrow> ks ! nat (hi - 1) \<le> key"
    proof
      assume l: "lo = hi + 1"
      show ?thesis
      proof
        assume "0 < hi"
        then have "ks ! nat (hi - 1) \<le> ks ! nat hi" using less.prems(3) assms(2)
          by (intro sorted_nth_mono) auto
        also have "\<dots> \<le> key" using l less.prems(4) \<open>0 < hi\<close> by simp
        finally show "ks ! nat (hi - 1) \<le> key" .
      qed
    qed (use less.prems in auto)
    then show ?thesis using False less.prems by (subst upper_loop.simps) auto
  qed
qed

lemma find_upper_correct:
  assumes "reads get ks" "sorted ks"
  shows "find_upper get (length ks) key = Inr (upper_pos key ks)"
proof (cases "ks = []")
  case False
  obtain hi where hi: "upper_loop get key 0 (int (length ks) - 1) = Inr hi" "-1 \<le> hi"
    "hi < int (length ks)" "hi + 1 < int (length ks) \<longrightarrow> key < ks ! nat (hi + 1)"
    "0 < hi \<longrightarrow> ks ! nat (hi - 1) \<le> key"
    using upper_loop_correct [OF assms, of 0 "int (length ks) - 1" key] by auto
  show ?thesis
  proof (cases "0 \<le> hi \<and> key < ks ! nat hi")
    case True
    then have "upper_pos key ks = nat hi"
      using hi by (intro upper_pos_unique [OF assms(2)]) (auto simp: nat_diff_distrib')
    moreover have "nat hi < length ks" using True hi by auto
    ultimately show ?thesis using True hi False readsD [OF assms(1), of "nat hi"]
      by (auto simp: find_upper_def)
  next
    case f: False
    then have "upper_pos key ks = nat (hi + 1)"
      using hi by (intro upper_pos_unique [OF assms(2)]) (auto simp: nat_add_distrib)
    then show ?thesis using f hi False readsD [OF assms(1), of "nat hi"] by (auto simp: find_upper_def)
  qed
qed (simp add: find_upper_def upper_pos_def)

section \<open>Correctness of the searches\<close>

lemma lower_pos_props:
  assumes "sorted ks"
  shows "lower_pos key ks \<le> length ks" "i < lower_pos key ks \<Longrightarrow> ks ! i < key"
    "lower_pos key ks \<le> i \<Longrightarrow> i < length ks \<Longrightarrow> key \<le> ks ! i"
proof -
  let ?p = "lower_pos key ks"
  show "?p \<le> length ks" by (simp add: lower_pos_def length_takeWhile_le)
  show "ks ! i < key" if "i < ?p" for i
    using that unfolding lower_pos_def by (metis nth_mem set_takeWhileD takeWhile_nth)
  show "key \<le> ks ! i" if "?p \<le> i" "i < length ks" for i
  proof -
    have "\<not> ks ! ?p < key" unfolding lower_pos_def
      by (rule nth_length_takeWhile) (use that in \<open>simp add: lower_pos_def\<close>)
    moreover have "ks ! ?p \<le> ks ! i" by (rule sorted_nth_mono [OF assms that])
    ultimately show ?thesis by simp
  qed
qed

lemma upper_pos_props:
  assumes "sorted ks"
  shows "upper_pos key ks \<le> length ks" "i < upper_pos key ks \<Longrightarrow> ks ! i \<le> key"
    "upper_pos key ks \<le> i \<Longrightarrow> i < length ks \<Longrightarrow> key < ks ! i"
proof -
  let ?p = "upper_pos key ks"
  show "?p \<le> length ks" by (simp add: upper_pos_def length_takeWhile_le)
  show "ks ! i \<le> key" if "i < ?p" for i
    using that unfolding upper_pos_def by (metis nth_mem set_takeWhileD takeWhile_nth)
  show "key < ks ! i" if "?p \<le> i" "i < length ks" for i
  proof -
    have "\<not> ks ! ?p \<le> key" unfolding upper_pos_def
      by (rule nth_length_takeWhile) (use that in \<open>simp add: upper_pos_def\<close>)
    moreover have "ks ! ?p \<le> ks ! i" by (rule sorted_nth_mono [OF assms that])
    ultimately show ?thesis by simp
  qed
qed

text \<open>
  C18.  On a page with sorted keys \<^verbatim>\<open>find_lower\<close> returns the lower bound, whatever position the page
  remembered from an earlier search: every key before the result is less than the sought key, every
  key from the result on is not.
\<close>

theorem find_lower_is_lower_bound:
  assumes "reads get ks" "sorted ks"
  shows "\<exists>p lastf'. find_lower get (length ks) lastf key = Inr (p, lastf') \<and> p \<le> length ks \<and>
    (\<forall>i<p. ks ! i < key) \<and> (\<forall>i. p \<le> i \<longrightarrow> i < length ks \<longrightarrow> key \<le> ks ! i)"
  using find_lower_correct [OF assms, of lastf key] lower_pos_props [OF assms(2), where key = key] by blast

theorem find_lower_is_lower_bound_witness:
  "\<exists>p lastf'. find_lower (\<lambda>i. Inr ([10, 20, 30 :: nat] ! i)) 3 2 25 = Inr (p, lastf') \<and> p \<le> 3 \<and>
    (\<forall>i<p. [10, 20, 30] ! i < (25 :: nat)) \<and> (\<forall>i. p \<le> i \<longrightarrow> i < 3 \<longrightarrow> 25 \<le> [10, 20, 30 :: nat] ! i)"
  using find_lower_is_lower_bound [of "\<lambda>i. Inr ([10, 20, 30 :: nat] ! i)" "[10, 20, 30]" 2 25]
  by (simp add: reads_def numeral_3_eq_3)

text \<open>
  C19.  On a page with sorted keys \<^verbatim>\<open>find_upper\<close> returns the upper bound: every key before the result is
  at most the sought key, every key from the result on is greater.  The search may leave \<^verbatim>\<open>hi\<close> one
  below \<^verbatim>\<open>lo\<close>, which the final comparison repairs.
\<close>

theorem find_upper_is_upper_bound:
  assumes "reads get ks" "sorted ks"
  shows "\<exists>p. find_upper get (length ks) key = Inr p \<and> p \<le> length ks \<and>
    (\<forall>i<p. ks ! i \<le> key) \<and> (\<forall>i. p \<le> i \<longrightarrow> i < length ks \<longrightarrow> key < ks ! i)"
  using find_upper_correct [OF assms, of key] upper_pos_props [OF assms(2), where key = key] by blast

theorem find_upper_is_upper_bound_witness:
  "\<exists>p. find_upper (\<lambda>i. Inr ([10, 20, 30 :: nat] ! i)) 3 20 = Inr p \<and> p \<le> 3 \<and>
    (\<forall>i<p. [10, 20, 30] ! i \<le> (20 :: nat)) \<and> (\<forall>i. p \<le> i \<longrightarrow> i < 3 \<longrightarrow> 20 < [10, 20, 30 :: nat] ! i)"
  using find_upper_is_upper_bound [of "\<lambda>i. Inr ([10, 20, 30 :: nat] ! i)" "[10, 20, 30]" 20]
  by (simp add: reads_def numeral_3_eq_3)

end
