(* ===== verification/SurfacePage.thy ===== *)
theory SurfacePage
  imports NodeSearch "HOL-Library.Multiset"
begin

text \<open>
  The surface (leaf) page of \<^verbatim>\<open>src/src/stx/btree.h\<close>, struct \<^verbatim>\<open>surface_node\<close>.  Keys and values stay
  where they were first written; the order of the page is kept in the array \<^verbatim>\<open>permutations\<close>, whose
  entries index the key and value arrays and whose unused entries hold \<^verbatim>\<open>surfaceslotmax\<close>.  The
  theory models the accessors, \<^verbatim>\<open>insert_\<close>, \<^verbatim>\<open>erase_d\<close>, \<^verbatim>\<open>set_kv\<close> and \<^verbatim>\<open>initialize\<close> on these
  arrays and shows that they implement insertion and removal on the plain list \<^term>\<open>page_list\<close>.
  The counter \<^verbatim>\<open>hashed\<close> is only ever assigned 0 and has no field here.
\<close>

section \<open>The page\<close>

record ('k, 'v) surface_node =
  permutations :: "nat list"
  allocated :: nat
  skeys :: "'k list"
  svalues :: "'v list"
  occupants :: nat
  last_found :: nat
  changes :: nat

text \<open>
  \<^verbatim>\<open>initialize\<close> on a constructed page: the arrays hold default constructed keys and values.
\<close>

definition initialize :: "'k \<Rightarrow> 'v \<Rightarrow> ('k, 'v) surface_node" where
  "initialize k0 v0 =
     \<lparr>permutations = replicate surfaceslotmax surfaceslotmax, allocated = 0,
      skeys = replicate surfaceslotmax k0, svalues = replicate surfaceslotmax v0,
      occupants = 0, last_found = 0, changes = 0\<rparr>"

definition change :: "('k, 'v) surface_node \<Rightarrow> ('k, 'v) surface_node" where
  "change n = n\<lparr>changes := Suc (changes n)\<rparr>"

definition set_occupants :: "nat \<Rightarrow> ('k, 'v) surface_node \<Rightarrow> ('k, 'v) surface_node" where
  "set_occupants c n = n\<lparr>occupants := c\<rparr>"

text \<open>\<^verbatim>\<open>inc_occupants\<close> increments and then lets \<^verbatim>\<open>check_node\<close> throw.\<close>

definition inc_occupants :: "('k, 'v) surface_node \<Rightarrow> ('k, 'v) surface_node result" where
  "inc_occupants n =
     (let c = Suc (occupants n) in
      if interiorslotmax + 1 < c then Inl Bad_format else Inr (n\<lparr>occupants := c\<rparr>))"

definition dec_occupants :: "('k, 'v) surface_node \<Rightarrow> ('k, 'v) surface_node" where
  "dec_occupants n = (if 0 < occupants n then n\<lparr>occupants := occupants n - 1\<rparr> else n)"

definition surface_isfull :: "('k, 'v) surface_node \<Rightarrow> bool" where
  "surface_isfull n \<longleftrightarrow> occupants n = surfaceslotmax"

definition surface_isfew :: "('k, 'v) surface_node \<Rightarrow> bool" where
  "surface_isfew n \<longleftrightarrow> occupants n \<le> minsurfaces"

definition surface_isunderflow :: "('k, 'v) surface_node \<Rightarrow> bool" where
  "surface_isunderflow n \<longleftrightarrow> occupants n < minsurfaces"

section \<open>Accessors\<close>

definition reset_allocation :: "('k, 'v) surface_node \<Rightarrow> ('k, 'v) surface_node" where
  "reset_allocation n =
     n\<lparr>permutations := take (occupants n) (permutations n) @
                       replicate (surfaceslotmax - occupants n) surfaceslotmax,
       allocated := occupants n\<rparr>"

definition init_key_allocation ::
    "nat \<Rightarrow> ('k, 'v) surface_node \<Rightarrow> ('k, 'v) surface_node result" where
  "init_key_allocation at n =
     (if permutations n ! at = surfaceslotmax then
        bindE (if allocated n = surfaceslotmax
               then if occupants n < allocated n then Inr (reset_allocation n) else Inl Bad_format
               else Inr n)
          (\<lambda>n. Inr (n\<lparr>permutations := (permutations n)[at := allocated n],
                      allocated := Suc (allocated n)\<rparr>))
      else Inr n)"

text \<open>The const accessors throw on an unused slot.\<close>

definition get_key :: "nat \<Rightarrow> ('k, 'v) surface_node \<Rightarrow> 'k result" where
  "get_key at n =
     (if permutations n ! at = surfaceslotmax then Inl Bad_access
      else Inr (skeys n ! (permutations n ! at)))"

definition get_value :: "nat \<Rightarrow> ('k, 'v) surface_node \<Rightarrow> 'v result" where
  "get_value at n =
     (if permutations n ! at = surfaceslotmax then Inl Bad_access
      else Inr (svalues n ! (permutations n ! at)))"

text \<open>
  The non-const accessors allocate the slot, count a change and return a reference; a reference is
  the page behind it, read by \<open>key_of\<close> and \<open>value_of\<close>, written by \<open>put_key\<close> and \<open>put_value\<close>.
\<close>

definition slot_ref :: "nat \<Rightarrow> ('k, 'v) surface_node \<Rightarrow> ('k, 'v) surface_node result" where
  "slot_ref at n = bindE (init_key_allocation at n) (\<lambda>n. Inr (change n))"

definition key_of :: "nat \<Rightarrow> ('k, 'v) surface_node \<Rightarrow> 'k" where
  "key_of at n = skeys n ! (permutations n ! at)"

definition value_of :: "nat \<Rightarrow> ('k, 'v) surface_node \<Rightarrow> 'v" where
  "value_of at n = svalues n ! (permutations n ! at)"

definition put_key :: "nat \<Rightarrow> 'k \<Rightarrow> ('k, 'v) surface_node \<Rightarrow> ('k, 'v) surface_node result" where
  "put_key at key n =
     bindE (slot_ref at n) (\<lambda>n. Inr (n\<lparr>skeys := (skeys n)[permutations n ! at := key]\<rparr>))"

definition put_value :: "nat \<Rightarrow> 'v \<Rightarrow> ('k, 'v) surface_node \<Rightarrow> ('k, 'v) surface_node result" where
  "put_value at val n =
     bindE (slot_ref at n) (\<lambda>n. Inr (n\<lparr>svalues := (svalues n)[permutations n ! at := val]\<rparr>))"

text \<open>\<^verbatim>\<open>update\<close> and \<^verbatim>\<open>set_kv\<close>.\<close>

definition update :: "nat \<Rightarrow> 'k \<Rightarrow> 'v \<Rightarrow> ('k, 'v) surface_node \<Rightarrow> ('k, 'v) surface_node result" where
  "update at key val n = bindE (put_key at key n) (put_value at val)"

definition set_kv :: "nat \<Rightarrow> 'k \<Rightarrow> 'v \<Rightarrow> ('k, 'v) surface_node \<Rightarrow> ('k, 'v) surface_node result" where
  "set_kv at k v n =
     bindE (if permutations n ! at = surfaceslotmax then
              if allocated n = surfaceslotmax then Inl Bad_format
              else Inr (n\<lparr>permutations := (permutations n)[at := allocated n],
                          allocated := Suc (allocated n)\<rparr>)
            else Inr n)
       (\<lambda>n. let p = permutations n ! at; n = change n in
          Inr (n\<lparr>skeys := (skeys n)[p := k], svalues := (svalues n)[p := v]\<rparr>))"

section \<open>Insertion and removal\<close>

text \<open>The loop of \<^verbatim>\<open>insert_\<close> moves the permutation entries behind \<open>at\<close> one place up.\<close>

fun shift_up :: "nat \<Rightarrow> nat \<Rightarrow> 'a list \<Rightarrow> 'a list" where
  "shift_up at 0 xs = xs"
| "shift_up at (Suc j) xs =
     (if at < Suc j then shift_up at j (xs[Suc j := xs ! j]) else xs)"

definition insert_kv :: "nat \<Rightarrow> 'k \<Rightarrow> 'v \<Rightarrow> ('k, 'v) surface_node \<Rightarrow> ('k, 'v) surface_node result" where
  "insert_kv at key val n =
     (let j = occupants n; t = permutations n ! j;
          n1 = n\<lparr>permutations := (shift_up at j (permutations n))[at := t]\<rparr> in
      bindE (put_key at key n1) (\<lambda>n2. bindE (put_value at val n2) inc_occupants))"

text \<open>The loop of \<^verbatim>\<open>erase_d\<close> moves the entries behind \<open>slot\<close> one place down.\<close>

function shift_down :: "nat \<Rightarrow> nat \<Rightarrow> 'a list \<Rightarrow> 'a list" where
  "shift_down i e xs = (if i < e then shift_down (Suc i) e (xs[i := xs ! Suc i]) else xs)"
  by pat_completeness auto
termination by (relation "measure (\<lambda>(i, e, xs). e - i)") auto

declare shift_down.simps [simp del]

definition erase_d :: "nat \<Rightarrow> ('k, 'v) surface_node \<Rightarrow> ('k, 'v) surface_node" where
  "erase_d slot n =
     (if 0 < occupants n then
        let e = occupants n - 1; saved = permutations n ! slot in
        dec_occupants
          (change (n\<lparr>permutations := (shift_down slot e (permutations n))[e := saved]\<rparr>))
      else n)"

section \<open>Invariant and abstraction\<close>

text \<open>
  The used entries of the permutation are exactly the first \<^term>\<open>allocated n\<close> array positions, each
  once, and every occupied slot is used.
\<close>

definition used :: "nat list \<Rightarrow> nat multiset" where
  "used ps = filter_mset (\<lambda>p. p \<noteq> surfaceslotmax) (mset ps)"

definition surface_inv :: "('k, 'v) surface_node \<Rightarrow> bool" where
  "surface_inv n \<longleftrightarrow>
     length (permutations n) = surfaceslotmax \<and> length (skeys n) = surfaceslotmax \<and>
     length (svalues n) = surfaceslotmax \<and> occupants n \<le> surfaceslotmax \<and>
     used (permutations n) = mset [0..<allocated n] \<and>
     list_all (\<lambda>p. p \<noteq> surfaceslotmax) (take (occupants n) (permutations n))"

text \<open>The contents of the page in key order.\<close>

definition page_list :: "('k, 'v) surface_node \<Rightarrow> ('k \<times> 'v) list" where
  "page_list n = map (\<lambda>p. (skeys n ! p, svalues n ! p)) (take (occupants n) (permutations n))"

section \<open>Shifting is insertion and removal at a position\<close>

lemma length_shift_up [simp]: "length (shift_up at j xs) = length xs"
  by (induction at j xs rule: shift_up.induct) auto

lemma nth_shift_up:
  "at \<le> j \<Longrightarrow> j < length xs \<Longrightarrow> i < length xs \<Longrightarrow>
   shift_up at j xs ! i = (if at < i \<and> i \<le> j then xs ! (i - 1) else xs ! i)"
  by (induction at j xs arbitrary: i rule: shift_up.induct) (auto simp: nth_list_update le_Suc_eq)

lemma shift_up_insert_at:
  assumes "at \<le> j" "j < length xs"
  shows "(shift_up at j xs)[at := xs ! j] = insert_at at (xs ! j) (remove_at j xs)"
proof (rule nth_equalityI)
  fix i assume "i < length ((shift_up at j xs)[at := xs ! j])"
  then show "(shift_up at j xs)[at := xs ! j] ! i = insert_at at (xs ! j) (remove_at j xs) ! i"
    using assms by (auto simp: nth_list_update nth_shift_up nth_insert_at nth_remove_at)
qed (use assms in auto)

lemma length_shift_down [simp]: "length (shift_down i e xs) = length xs"
  by (induction i e xs rule: shift_down.induct) (simp add: shift_down.simps)

lemma nth_shift_down:
  "e < length xs \<Longrightarrow> k < length xs \<Longrightarrow>
   shift_down i e xs ! k = (if i \<le> k \<and> k < e then xs ! Suc k else xs ! k)"
proof (induction i e xs rule: shift_down.induct)
  case (1 i e xs)
  then show ?case
    by (subst shift_down.simps) (auto simp: nth_list_update not_less_eq_eq le_antisym)
qed

lemma shift_down_insert_at:
  assumes "slot \<le> e" "e < length xs"
  shows "(shift_down slot e xs)[e := xs ! slot] = insert_at e (xs ! slot) (remove_at slot xs)"
proof (rule nth_equalityI)
  fix i assume "i < length ((shift_down slot e xs)[e := xs ! slot])"
  then show "(shift_down slot e xs)[e := xs ! slot] ! i = insert_at e (xs ! slot) (remove_at slot xs) ! i"
    using assms by (auto simp: nth_list_update nth_shift_down nth_insert_at nth_remove_at)
qed (use assms in auto)

lemma mset_insert_at: "mset (insert_at i x xs) = add_mset x (mset xs)"
  by (simp add: insert_at_def) (metis append_take_drop_id mset_append)

lemma mset_remove_at: "j < length xs \<Longrightarrow> mset xs = add_mset (xs ! j) (mset (remove_at j xs))"
  by (metis insert_remove_at mset_insert_at)

lemma mset_insert_remove:
  "j < length xs \<Longrightarrow> mset (insert_at i (xs ! j) (remove_at j xs)) = mset xs"
  by (simp add: mset_insert_at mset_remove_at [symmetric])

lemma nth_in_remove_at:
  assumes "i < length xs" "j < length xs" "i \<noteq> j" shows "xs ! i \<in> set (remove_at j xs)"
proof (cases "i < j")
  case True
  then have "xs ! i = take j xs ! i" "i < length (take j xs)" using assms by auto
  then show ?thesis unfolding remove_at_def by (metis nth_mem Un_iff set_append)
next
  case False
  then have "xs ! i = drop (Suc j) xs ! (i - Suc j)" "i - Suc j < length (drop (Suc j) xs)"
    using assms by auto
  then show ?thesis unfolding remove_at_def by (metis nth_mem Un_iff set_append)
qed

lemma take_insert_at: "at \<le> k \<Longrightarrow> k \<le> length xs \<Longrightarrow> take (Suc k) (insert_at at x xs) = insert_at at x (take k xs)"
  by (simp add: insert_at_def take_Cons' min_def take_drop) 

lemma take_remove_at_ge: "k \<le> j \<Longrightarrow> take k (remove_at j xs) = take k xs"
  by (simp add: remove_at_def min_def) 

lemma take_remove_at: "slot < k \<Longrightarrow> k \<le> length xs \<Longrightarrow> take (k - 1) (remove_at slot xs) = remove_at slot (take k xs)"
  by (cases "slot = k - 1") (auto simp: remove_at_def min_def take_drop)

lemma take_insert_at_ge: "k \<le> e \<Longrightarrow> e \<le> length xs \<Longrightarrow> take k (insert_at e x xs) = take k xs"
  by (simp add: insert_at_def min_def)


lemma surface_invD:
  assumes "surface_inv n"
  shows "length (permutations n) = surfaceslotmax" "length (skeys n) = surfaceslotmax"
    "length (svalues n) = surfaceslotmax" "occupants n \<le> surfaceslotmax"
    "used (permutations n) = mset [0..<allocated n]"
    "i < occupants n \<Longrightarrow> permutations n ! i \<noteq> surfaceslotmax"
  using assms by (auto simp: surface_inv_def list_all_length)

lemma used_nth_less:
  assumes "used ps = mset [0..<a]" "i < length ps" "ps ! i \<noteq> surfaceslotmax"
  shows "ps ! i < a"
proof -
  have "ps ! i \<in># used ps" using assms(2,3) by (simp add: used_def)
  then show ?thesis by (simp add: assms(1))
qed

lemma used_distinct:
  assumes "used ps = mset [0..<a]" "i < length ps" "j < length ps" "i \<noteq> j" "ps ! i \<noteq> surfaceslotmax"
  shows "ps ! i \<noteq> ps ! j"
proof
  assume e: "ps ! i = ps ! j"
  have "used ps = add_mset (ps ! j) (used (remove_at j ps))"
    using assms(3,5) e mset_remove_at [of j ps] by (simp add: used_def)
  moreover have "ps ! j \<in># used (remove_at j ps)"
    using nth_in_remove_at [OF assms(2-4)] assms(5) e by (simp add: used_def)
  ultimately have "\<not> (\<forall>x. count (mset [0..<a]) x \<le> 1)"
    unfolding assms(1) [symmetric] by (metis count_add_mset count_greater_eq_one_iff not_less_eq_eq One_nat_def)
  moreover have "count (mset [0..<a]) x \<le> 1" for x
    by (cases "x < a") (simp_all add: count_mset_set')
  ultimately show False by blast
qed

lemma used_bound: "used ps = mset [0..<a] \<Longrightarrow> a \<le> length ps"
  unfolding used_def by (metis length_upt minus_nat.diff_0 size_filter_mset_lesseq size_mset)

lemma used_free:
  assumes "used ps = mset [0..<a]" "i < length ps" "ps ! i = surfaceslotmax"
  shows "a < length ps"
proof -
  have "used (remove_at i ps) = mset [0..<a]"
    using assms mset_remove_at [of i ps] by (simp add: used_def)
  from used_bound [OF this] show ?thesis using assms(2) by simp
qed

text \<open>Allocating an unused slot.\<close>

lemma init_key_allocation_used [simp]:
  "permutations n ! at \<noteq> surfaceslotmax \<Longrightarrow> init_key_allocation at n = Inr n"
  by (simp add: init_key_allocation_def)

lemma init_key_allocation_free:
  assumes "used (permutations n) = mset [0..<allocated n]" "length (permutations n) = surfaceslotmax"
    "at < surfaceslotmax" "permutations n ! at = surfaceslotmax"
  shows "init_key_allocation at n =
    Inr (n\<lparr>permutations := (permutations n)[at := allocated n], allocated := Suc (allocated n)\<rparr>)"
  using used_free [OF assms(1), of at] assms by (simp add: init_key_allocation_def)

lemma used_alloc:
  assumes "used ps = mset [0..<a]" "at < length ps" "ps ! at = surfaceslotmax" "length ps = surfaceslotmax"
  shows "used (ps[at := a]) = mset [0..<Suc a]"
proof -
  have "a < surfaceslotmax" using used_free [OF assms(1-3)] assms(4) by simp
  then show ?thesis
    using assms mset_remove_at [of at ps] by (auto simp: used_def mset_update)
qed

text \<open>The part of the invariant that does not speak of the occupied slots.\<close>

definition arrays_inv :: "('k, 'v) surface_node \<Rightarrow> bool" where
  "arrays_inv n \<longleftrightarrow>
     length (permutations n) = surfaceslotmax \<and> length (skeys n) = surfaceslotmax \<and>
     length (svalues n) = surfaceslotmax \<and> used (permutations n) = mset [0..<allocated n]"

lemma surface_inv_arrays:
  "surface_inv n \<longleftrightarrow> arrays_inv n \<and> occupants n \<le> surfaceslotmax \<and>
     list_all (\<lambda>p. p \<noteq> surfaceslotmax) (take (occupants n) (permutations n))"
  by (auto simp: surface_inv_def arrays_inv_def)

text \<open>The array position a slot has once it is allocated.\<close>

definition alloc_pos :: "nat \<Rightarrow> ('k, 'v) surface_node \<Rightarrow> nat" where
  "alloc_pos at n = (if permutations n ! at = surfaceslotmax then allocated n else permutations n ! at)"

lemma alloc_pos_less: "arrays_inv n \<Longrightarrow> at < surfaceslotmax \<Longrightarrow> alloc_pos at n < surfaceslotmax"
  using used_free [of "permutations n" "allocated n" at] used_nth_less [of "permutations n" "allocated n" at]
    used_bound [of "permutations n" "allocated n"]
  by (auto simp: arrays_inv_def alloc_pos_def)

lemma alloc_pos_fresh:
  assumes "arrays_inv n" "at < surfaceslotmax" "i < surfaceslotmax" "i \<noteq> at"
    "permutations n ! i \<noteq> surfaceslotmax"
  shows "permutations n ! i \<noteq> alloc_pos at n"
  using assms used_nth_less [of "permutations n" "allocated n" i]
    used_distinct [of "permutations n" "allocated n" i at]
  by (auto simp: arrays_inv_def alloc_pos_def)

lemma slot_ref_ok:
  assumes "arrays_inv n" "at < surfaceslotmax"
  shows "\<exists>n'. slot_ref at n = Inr n' \<and> arrays_inv n' \<and>
    permutations n' = (permutations n)[at := alloc_pos at n] \<and> skeys n' = skeys n \<and>
    svalues n' = svalues n \<and> occupants n' = occupants n \<and> last_found n' = last_found n"
proof (cases "permutations n ! at = surfaceslotmax")
  case True
  have "used (permutations n) = mset [0..<allocated n]" "length (permutations n) = surfaceslotmax"
    using assms(1) by (simp_all add: arrays_inv_def)
  from init_key_allocation_free [OF this assms(2) True] used_alloc [OF this(1) _ True this(2)] True assms
  show ?thesis
    by (simp add: slot_ref_def change_def arrays_inv_def alloc_pos_def atLeast0_lessThan_Suc)
next
  case False
  then show ?thesis using assms
    by (simp add: slot_ref_def change_def arrays_inv_def alloc_pos_def)
qed

lemma update_ok:
  assumes "arrays_inv n" "at < surfaceslotmax"
  shows "\<exists>n'. bindE (put_key at k n) (put_value at v) = Inr n' \<and> arrays_inv n' \<and>
    permutations n' = (permutations n)[at := alloc_pos at n] \<and>
    skeys n' = (skeys n)[alloc_pos at n := k] \<and> svalues n' = (svalues n)[alloc_pos at n := v] \<and>
    occupants n' = occupants n \<and> last_found n' = last_found n"
proof -
  have len: "length (permutations n) = surfaceslotmax" using assms(1) by (simp add: arrays_inv_def)
  obtain n1 where n1: "slot_ref at n = Inr n1" "arrays_inv n1"
    "permutations n1 = (permutations n)[at := alloc_pos at n]" "skeys n1 = skeys n"
    "svalues n1 = svalues n" "occupants n1 = occupants n" "last_found n1 = last_found n"
    using slot_ref_ok [OF assms] by blast
  define n2 where "n2 = n1\<lparr>skeys := (skeys n)[alloc_pos at n := k]\<rparr>"
  have p: "put_key at k n = Inr n2"
    using n1 len assms(2) by (simp add: put_key_def n2_def)
  have "arrays_inv n2" using n1(2,4) by (simp add: n2_def arrays_inv_def)
  moreover have "alloc_pos at n2 = alloc_pos at n"
    using n1(3) len assms alloc_pos_less [OF assms] by (simp add: alloc_pos_def n2_def)
  ultimately show ?thesis
    using slot_ref_ok [of n2 at] n1 p len assms(2)
    by (auto simp: put_value_def n2_def arrays_inv_def)
qed

lemma surface_inv_bounds: "surface_inv n \<Longrightarrow> arrays_inv n" "surface_inv n \<Longrightarrow> occupants n \<le> surfaceslotmax"
  by (simp_all add: surface_inv_arrays)

lemma length_page_list [simp]: "surface_inv n \<Longrightarrow> length (page_list n) = occupants n"
  by (simp add: page_list_def surface_inv_def)

lemma page_entries_fresh:
  assumes inv: "surface_inv n" and j: "occupants n \<le> j" "j < surfaceslotmax" and p: "p \<in> set (take (occupants n) (permutations n))"
  shows "p \<noteq> alloc_pos j n" "p \<noteq> surfaceslotmax"
proof -
  from p obtain i where i: "i < occupants n" "i < surfaceslotmax" "p = permutations n ! i"
    using surface_invD(1,4) [OF inv] by (auto simp: in_set_conv_nth)
  then show "p \<noteq> surfaceslotmax" using surface_invD(6) [OF inv i(1)] by simp
  then show "p \<noteq> alloc_pos j n"
    using alloc_pos_fresh [OF surface_inv_bounds(1) [OF inv] j(2) i(2)] i j by auto
qed

lemma insert_kv_ok:
  assumes inv: "surface_inv n" and occ: "occupants n < surfaceslotmax" and at: "at \<le> occupants n"
  shows "\<exists>n'. insert_kv at k v n = Inr n' \<and> surface_inv n' \<and>
    page_list n' = insert_at at (k, v) (page_list n) \<and> occupants n' = Suc (occupants n) \<and>
    last_found n' = last_found n"
proof -
  let ?j = "occupants n" and ?ps = "permutations n"
  define n1 where "n1 = n\<lparr>permutations := (shift_up at ?j ?ps)[at := ?ps ! ?j]\<rparr>"
  define q where "q = alloc_pos ?j n"
  have len: "length ?ps = surfaceslotmax" by (rule surface_invD(1) [OF inv])
  have j: "?j < length ?ps" using occ len by simp
  have ps1: "permutations n1 = insert_at at (?ps ! ?j) (remove_at ?j ?ps)"
    using shift_up_insert_at [OF at j] by (simp add: n1_def)
  have a1: "arrays_inv n1"
    using surface_inv_bounds(1) [OF inv] ps1 mset_insert_remove [OF j, of at] at j
    by (simp add: arrays_inv_def n1_def used_def)
  have q1: "alloc_pos at n1 = q"
    using at j by (simp add: alloc_pos_def ps1 nth_insert_at q_def n1_def)
  have ps2: "(permutations n1)[at := q] = insert_at at q (remove_at ?j ?ps)"
    using at j by (simp add: ps1 insert_at_def list_update_append min_def)
  have q: "q < surfaceslotmax" unfolding q_def by (rule alloc_pos_less [OF surface_inv_bounds(1) [OF inv] occ])
  have tk: "take (Suc ?j) (insert_at at q (remove_at ?j ?ps)) = insert_at at q (take ?j ?ps)"
    using at j by (simp add: take_insert_at take_remove_at_ge)
  obtain n2 where n2: "bindE (put_key at k n1) (put_value at v) = Inr n2" "arrays_inv n2"
    "permutations n2 = insert_at at q (remove_at ?j ?ps)"
    "skeys n2 = (skeys n)[q := k]" "svalues n2 = (svalues n)[q := v]"
    "occupants n2 = ?j" "last_found n2 = last_found n"
    using update_ok [OF a1, of at k v] at occ q1 ps2 by (auto simp: n1_def)
  define n3 where "n3 = n2\<lparr>occupants := Suc ?j\<rparr>"
  have "insert_kv at k v n = Inr n3"
    using n2(1,6) occ
    by (simp add: insert_kv_def Let_def n1_def [symmetric] bindE_assoc [symmetric] inc_occupants_def
             n3_def limits)
  moreover have "surface_inv n3"
    using n2(2,3) occ q tk at j page_entries_fresh(2) [OF inv order.refl occ]
    by (auto simp: surface_inv_arrays n3_def arrays_inv_def list_all_iff)
  moreover have "page_list n3 = insert_at at (k, v) (page_list n)"
  proof -
    have "page_list n3 = map (\<lambda>p. ((skeys n)[q := k] ! p, (svalues n)[q := v] ! p)) (insert_at at q (take ?j ?ps))"
      by (simp add: page_list_def n3_def n2 tk)
    also have "\<dots> = insert_at at (k, v) (map (\<lambda>p. ((skeys n)[q := k] ! p, (svalues n)[q := v] ! p)) (take ?j ?ps))"
      using q surface_invD(2,3) [OF inv] by (simp add: map_insert_at)
    also have "map (\<lambda>p. ((skeys n)[q := k] ! p, (svalues n)[q := v] ! p)) (take ?j ?ps) = page_list n"
      using page_entries_fresh(1) [OF inv order.refl occ]
      by (auto simp: page_list_def q_def intro!: nth_list_update_neq)
    finally show ?thesis .
  qed
  ultimately show ?thesis using n2(7) by (auto simp: n3_def)
qed

lemma erase_d_ok:
  assumes inv: "surface_inv n" and slot: "slot < occupants n"
  shows "surface_inv (erase_d slot n)" "page_list (erase_d slot n) = remove_at slot (page_list n)"
    "occupants (erase_d slot n) = occupants n - 1"
proof -
  let ?e = "occupants n - 1" and ?ps = "permutations n"
  have len: "length ?ps = surfaceslotmax" "occupants n \<le> surfaceslotmax" using inv by (simp_all add: surface_inv_def)
  have s: "slot \<le> ?e" "?e < length ?ps" "slot < length ?ps" using slot len by auto
  have ps: "(shift_down slot ?e ?ps)[?e := ?ps ! slot] = insert_at ?e (?ps ! slot) (remove_at slot ?ps)"
    by (rule shift_down_insert_at [OF s(1,2)])
  have tk: "take ?e (insert_at ?e (?ps ! slot) (remove_at slot ?ps)) = remove_at slot (take (occupants n) ?ps)"
    using s slot len take_remove_at [of slot "occupants n" ?ps] by (simp add: take_insert_at_ge)
  have e: "erase_d slot n = n\<lparr>permutations := insert_at ?e (?ps ! slot) (remove_at slot ?ps),
      changes := Suc (changes n), occupants := ?e\<rparr>"
    using slot ps by (simp add: erase_d_def Let_def dec_occupants_def change_def)
  show "page_list (erase_d slot n) = remove_at slot (page_list n)"
    using tk by (simp add: page_list_def e map_remove_at)
  have "set (remove_at slot xs) \<subseteq> set xs" for xs :: "nat list"
    by (auto simp: remove_at_def dest: in_set_takeD in_set_dropD)
  then show "surface_inv (erase_d slot n)"
    using inv len s mset_insert_remove [OF s(3), of ?e] tk
    by (auto simp: surface_inv_def e used_def list_all_iff)
  show "occupants (erase_d slot n) = ?e" by (simp add: e)
qed

section \<open>Filling a fresh page\<close>

text \<open>\<^verbatim>\<open>split_surface_node\<close> and \<^verbatim>\<open>load\<close> write a fresh page slot by slot.\<close>

primrec set_kvs :: "nat \<Rightarrow> ('k \<times> 'v) list \<Rightarrow> ('k, 'v) surface_node \<Rightarrow> ('k, 'v) surface_node result" where
  "set_kvs at [] n = Inr n"
| "set_kvs at (kv # kvs) n = bindE (set_kv at (fst kv) (snd kv) n) (set_kvs (Suc at) kvs)"

definition filled :: "nat \<Rightarrow> ('k, 'v) surface_node \<Rightarrow> bool" where
  "filled c n \<longleftrightarrow> c \<le> surfaceslotmax \<and> allocated n = c \<and>
     permutations n = [0..<c] @ replicate (surfaceslotmax - c) surfaceslotmax \<and>
     length (skeys n) = surfaceslotmax \<and> length (svalues n) = surfaceslotmax"

lemma filled_initialize: "filled 0 (initialize k v)"
  by (simp add: filled_def initialize_def)

lemma filled_inv:
  assumes "filled c n" shows "surface_inv (set_occupants c n)"
    "page_list (set_occupants c n) = zip (take c (skeys n)) (take c (svalues n))"
proof -
  have "mset [p\<leftarrow>[0..<c] . p \<noteq> surfaceslotmax] = mset [0..<c]"
    using assms by (intro arg_cong [where f = mset] filter_True) (auto simp: filled_def)
  then show "surface_inv (set_occupants c n)"
    using assms by (auto simp: filled_def surface_inv_def set_occupants_def used_def list_all_iff
                     mset_filter [symmetric] filter_replicate simp del: mset_filter mset_upt)
  show "page_list (set_occupants c n) = zip (take c (skeys n)) (take c (svalues n))"
    using assms by (intro nth_equalityI) (auto simp: filled_def page_list_def set_occupants_def)
qed

lemma set_kv_filled:
  assumes "filled c n" "c < surfaceslotmax"
  shows "\<exists>n'. set_kv c k v n = Inr n' \<and> filled (Suc c) n' \<and> skeys n' = (skeys n)[c := k] \<and>
    svalues n' = (svalues n)[c := v] \<and> occupants n' = occupants n \<and> last_found n' = last_found n"
proof -
  have r: "replicate (surfaceslotmax - c) surfaceslotmax = surfaceslotmax # replicate (surfaceslotmax - Suc c) surfaceslotmax"
    using assms(2) by (metis Suc_diff_Suc replicate_Suc)
  show ?thesis using assms
    by (simp add: filled_def set_kv_def Let_def change_def nth_append list_update_append r)
qed

lemma set_kvs_filled:
  "filled c n \<Longrightarrow> c + length kvs \<le> surfaceslotmax \<Longrightarrow>
   \<exists>n'. set_kvs c kvs n = Inr n' \<and> filled (c + length kvs) n' \<and>
     take (c + length kvs) (skeys n') = take c (skeys n) @ map fst kvs \<and>
     take (c + length kvs) (svalues n') = take c (svalues n) @ map snd kvs \<and>
     occupants n' = occupants n \<and> last_found n' = last_found n"
proof (induction kvs arbitrary: c n)
  case (Cons kv kvs)
  then obtain n1 where n1: "set_kv c (fst kv) (snd kv) n = Inr n1" "filled (Suc c) n1"
    "skeys n1 = (skeys n)[c := fst kv]" "svalues n1 = (svalues n)[c := snd kv]"
    "occupants n1 = occupants n" "last_found n1 = last_found n"
    using set_kv_filled [of c n "fst kv" "snd kv"] by auto
  have t: "take (Suc c) (skeys n1) = take c (skeys n) @ [fst kv]"
    "take (Suc c) (svalues n1) = take c (svalues n) @ [snd kv]"
    using Cons.prems n1(3,4) by (auto simp: filled_def take_Suc_conv_app_nth)
  from Cons.IH [OF n1(2)] Cons.prems(2) show ?case using n1 t by auto
qed simp

lemma set_kvs_fresh:
  assumes "length kvs \<le> surfaceslotmax"
  shows "\<exists>n'. set_kvs 0 kvs (set_occupants (length kvs) (initialize k0 v0)) = Inr n' \<and> surface_inv n' \<and>
    page_list n' = kvs \<and> occupants n' = length kvs \<and> last_found n' = 0"
proof -
  have "filled 0 (set_occupants (length kvs) (initialize k0 v0))"
    using filled_initialize by (simp add: filled_def set_occupants_def)
  from set_kvs_filled [OF this, of kvs] assms obtain n' where
    n': "set_kvs 0 kvs (set_occupants (length kvs) (initialize k0 v0)) = Inr n'" "filled (length kvs) n'"
    "take (length kvs) (skeys n') = map fst kvs" "take (length kvs) (svalues n') = map snd kvs"
    "occupants n' = length kvs" "last_found n' = 0"
    by (auto simp: set_occupants_def initialize_def)
  moreover have "set_occupants (length kvs) n' = n'" using n'(5) by (simp add: set_occupants_def)
  ultimately show ?thesis using filled_inv [OF n'(2)] by (simp add: zip_map_fst_snd)
qed

lemma set_occupants_le:
  assumes "surface_inv n" "c \<le> occupants n"
  shows "surface_inv (set_occupants c n)" "page_list (set_occupants c n) = take c (page_list n)"
proof -
  have "take c (take (occupants n) (permutations n)) = take c (permutations n)" using assms(2) by simp
  then show "page_list (set_occupants c n) = take c (page_list n)"
    by (simp add: page_list_def set_occupants_def take_map)
  show "surface_inv (set_occupants c n)"
    using assms by (auto simp: surface_inv_def set_occupants_def list_all_length)
qed

section \<open>The surface page is a list page\<close>

interpretation surface_page: list_page surface_inv page_list surfaceslotmax
  "\<lambda>i kv. insert_kv i (fst kv) (snd kv)" erase_d
proof
  fix n :: "('k, 'v) surface_node" and i kv
  show "surface_inv n \<Longrightarrow> length (page_list n) \<le> surfaceslotmax"
    by (simp add: surface_inv_bounds)
  show "surface_inv n \<Longrightarrow> length (page_list n) < surfaceslotmax \<Longrightarrow> i \<le> length (page_list n) \<Longrightarrow>
      \<exists>n'. insert_kv i (fst kv) (snd kv) n = Inr n' \<and> surface_inv n' \<and>
        page_list n' = insert_at i kv (page_list n)"
    using insert_kv_ok [of n i "fst kv" "snd kv"] by auto
  show "surface_inv n \<Longrightarrow> i < length (page_list n) \<Longrightarrow>
      surface_inv (erase_d i n) \<and> page_list (erase_d i n) = remove_at i (page_list n)"
    by (simp add: erase_d_ok)
qed

lemma initialize_ok [simp]: "surface_inv (initialize k0 v0)" "page_list (initialize k0 v0) = []"
  "occupants (initialize k0 v0) = 0"
  by (auto simp: surface_inv_def initialize_def page_list_def used_def)

text \<open>The const accessor reads the page list, so the searches apply.\<close>

lemma reads_page: "surface_inv n \<Longrightarrow> reads (\<lambda>i. get_key i n) (map fst (page_list n))"
  using surface_invD(6) [of n] by (auto simp: reads_def get_key_def page_list_def surface_inv_def)

text \<open>
  C15.  Starting from \<^verbatim>\<open>initialize\<close>, every sequence of \<^verbatim>\<open>insert_\<close> and \<^verbatim>\<open>erase_d\<close> calls at positions
  inside the page runs without an exception and leaves in the page, read through the permutation
  array, exactly the list the same insertions and removals produce; the permutation stays a bijection
  onto the allocated slots, so \<^verbatim>\<open>init_key_allocation\<close> never reaches its reset or its throw.
\<close>

theorem surface_refines_list:
  assumes "list_run surfaceslotmax ops [] = Some xs"
  shows "\<exists>n. page_run (\<lambda>i kv. insert_kv i (fst kv) (snd kv)) erase_d ops (initialize k0 v0) = Inr n \<and>
    surface_inv n \<and> page_list n = xs"
  using surface_page.run_ok [of "initialize k0 v0" ops xs] assms by simp

theorem surface_refines_list_witness:
  "\<exists>n. page_run (\<lambda>i kv. insert_kv i (fst kv) (snd kv)) erase_d
      [Insert_op 0 (5 :: nat, ''e''), Insert_op 0 (3, ''c''), Insert_op 2 (7, ''g''), Erase_op 1,
       Insert_op 1 (6, ''f'')] (initialize 0 []) = Inr n \<and>
    surface_inv n \<and> page_list n = [(3, ''c''), (6, ''f''), (7, ''g'')]"
  by (rule surface_refines_list) (simp add: limits insert_at_def remove_at_def)

text \<open>
  C22.  Writing \<^verbatim>\<open>count\<close> entries into a fresh page with \<^verbatim>\<open>set_kv\<close>, slot by slot, as
  \<^verbatim>\<open>split_surface_node\<close> does, never throws and gives a page that holds exactly these entries in order.
\<close>

theorem set_kv_fills_page:
  assumes "length kvs \<le> surfaceslotmax"
  shows "\<exists>n. set_kvs 0 kvs (set_occupants (length kvs) (initialize k0 v0)) = Inr n \<and> surface_inv n \<and>
    page_list n = kvs"
  using set_kvs_fresh [OF assms] by blast

theorem set_kv_fills_page_witness:
  "\<exists>n. set_kvs 0 [(1 :: nat, True), (2, False)] (set_occupants 2 (initialize 0 False)) = Inr n \<and>
    surface_inv n \<and> page_list n = [(1, True), (2, False)]"
  using set_kv_fills_page [of "[(1 :: nat, True), (2, False)]" 0 False] by (simp add: limits numeral_2_eq_2)

end
