(* ===== verification/BTree.thy ===== *)
theory BTree
  imports SurfacePage
begin

text \<open>
  The B+-tree of \<^verbatim>\<open>src/src/stx/btree.h\<close> for unique keys (\<^verbatim>\<open>allow_duplicates = false\<close>, the map used
  by the spaces): nodes, allocation, page splits and \<^verbatim>\<open>insert_start\<close>.  A node carries the stream
  address its page was allocated at.  Children are held directly, the doubly linked list of the
  surfaces through the addresses in the tree's environment, so that a split updates the link of a
  neighbour that the descent never visits.  An interior page is modelled by its live slots: the list
  of its keys and the list of its children, one longer.  An insertion is shown to succeed,
  to insert into the sorted sequence of entries, and to keep the balance, the fill limits, the tight
  separators and the surface links.  \<^verbatim>\<open>BTreeInsert\<close> proves the insertion,
  \<^verbatim>\<open>BTreeFind\<close> the lookups.
\<close>

section \<open>Nodes and environment\<close>

datatype ('k, 'v) node =
  Surface nat "('k, 'v) surface_node"
| Interior nat nat nat "'k list" "('k, 'v) node list"

text \<open>
  \<open>Surface address page\<close> and \<open>Interior address level last_found keys children\<close>.  Address 0 is
  \<^verbatim>\<open>NULL_REF\<close>; \<open>fresh\<close> is the next address the storage hands out.  \<open>default_key\<close> and
  \<open>default_value\<close> are what \<^verbatim>\<open>key_type()\<close> and \<^verbatim>\<open>data_type()\<close> construct.
\<close>

record ('k, 'v) tree_env =
  default_key :: 'k
  default_value :: 'v
  next_of :: "nat \<Rightarrow> nat"
  preceding_of :: "nat \<Rightarrow> nat"
  headsurface :: nat
  last_surface :: nat
  fresh :: nat

record ('k, 'v) btree =
  root :: "('k, 'v) node option"
  env :: "('k, 'v) tree_env"
  tree_size :: nat

fun level :: "('k, 'v) node \<Rightarrow> nat" where
  "level (Surface a p) = 0"
| "level (Interior a l lf ks cs) = l"

section \<open>Allocation\<close>

definition allocate_surface ::
    "('k, 'v) tree_env \<Rightarrow> (nat \<times> ('k, 'v) surface_node \<times> ('k, 'v) tree_env) result" where
  "allocate_surface e =
     (let w = fresh e in
      if w = 0 then Inl Bad_pointer
      else Inr (w, initialize (default_key e) (default_value e),
                e\<lparr>fresh := Suc w, next_of := (next_of e)(w := 0),
                  preceding_of := (preceding_of e)(w := 0)\<rparr>))"

text \<open>\<^verbatim>\<open>allocate_interior\<close> registers the page when it got an address and returns it either way.\<close>

definition allocate_interior :: "('k, 'v) tree_env \<Rightarrow> nat \<times> ('k, 'v) tree_env" where
  "allocate_interior e = (fresh e, e\<lparr>fresh := Suc (fresh e)\<rparr>)"

section \<open>Splitting\<close>

text \<open>
  The loop of \<^verbatim>\<open>split_surface_node\<close> reads the upper slots through the non-const accessors and writes
  them to the new page.
\<close>

fun copy_slots :: "nat \<Rightarrow> nat \<Rightarrow> nat \<Rightarrow> ('k, 'v) surface_node \<Rightarrow> ('k, 'v) surface_node \<Rightarrow>
    (('k, 'v) surface_node \<times> ('k, 'v) surface_node) result" where
  "copy_slots mid slot 0 p q = Inr (p, q)"
| "copy_slots mid slot (Suc c) p q =
     bindE (slot_ref slot p) (\<lambda>p1. bindE (slot_ref slot p1) (\<lambda>p2.
       bindE (set_kv (slot - mid) (key_of slot p2) (value_of slot p2) q) (\<lambda>q1.
         copy_slots mid (Suc slot) c p2 q1)))"

text \<open>The new surface is linked in behind the one that is split.\<close>

definition link_after :: "nat \<Rightarrow> nat \<Rightarrow> ('k, 'v) tree_env \<Rightarrow> ('k, 'v) tree_env" where
  "link_after a b e =
     (let nx = next_of e a;
          e1 = e\<lparr>next_of := (next_of e)(b := nx)\<rparr>;
          e2 = (if nx = 0 then e1\<lparr>last_surface := b\<rparr>
                else e1\<lparr>preceding_of := (preceding_of e1)(nx := b)\<rparr>);
          e3 = e2\<lparr>next_of := (next_of e2)(a := b)\<rparr> in
      e3\<lparr>preceding_of := (preceding_of e3)(b := a)\<rparr>)"

definition split_surface_node ::
    "nat \<Rightarrow> ('k, 'v) surface_node \<Rightarrow> ('k, 'v) tree_env \<Rightarrow>
     (('k, 'v) surface_node \<times> 'k \<times> nat \<times> ('k, 'v) surface_node \<times> ('k, 'v) tree_env) result" where
  "split_surface_node a p e =
     (let mid = occupants p div 2 in
      bindE (allocate_surface e) (\<lambda>(b, q, e1).
        let q1 = set_occupants (occupants p - mid) q; e2 = link_after a b e1 in
        bindE (copy_slots mid mid (occupants p - mid) p q1) (\<lambda>(p1, q2).
          let p2 = set_occupants mid p1 in
          bindE (slot_ref (occupants p2 - 1) p2) (\<lambda>p3.
            Inr (p3, key_of (occupants p3 - 1) p3, b, q2, e2)))))"

text \<open>\<^verbatim>\<open>split_interior_node\<close>: the place of the cut depends on where the new child will go.\<close>

definition split_mid :: "nat \<Rightarrow> nat \<Rightarrow> nat" where
  "split_mid occ addslot =
     (let mid = occ div 2 in if addslot \<le> mid \<and> occ - (mid + 1) < mid then mid - 1 else mid)"

definition split_interior_node ::
    "nat \<Rightarrow> 'k list \<Rightarrow> ('k, 'v) node list \<Rightarrow>
     ('k list \<times> ('k, 'v) node list) \<times> 'k \<times> ('k list \<times> ('k, 'v) node list)" where
  "split_interior_node addslot ks cs =
     (let mid = split_mid (length ks) addslot in
      ((take mid ks, take (Suc mid) cs), ks ! mid, (drop (Suc mid) ks, drop (Suc mid) cs)))"

section \<open>Insertion\<close>

text \<open>The shift loop at the end of the interior case: key at \<open>at\<close>, child behind it.\<close>

definition put_child :: "nat \<Rightarrow> 'k \<Rightarrow> 'c \<Rightarrow> 'k list \<times> 'c list \<Rightarrow> 'k list \<times> 'c list" where
  "put_child at newkey newchild kc =
     (insert_at at newkey (fst kc), insert_at (Suc at) newchild (snd kc))"

text \<open>Placing a new child in a full interior page: split, then choose the half.\<close>

definition split_and_put ::
    "nat \<Rightarrow> 'k \<Rightarrow> ('k, 'v) node \<Rightarrow> 'k list \<Rightarrow> ('k, 'v) node list \<Rightarrow>
     ('k list \<times> ('k, 'v) node list) \<times> 'k \<times> ('k list \<times> ('k, 'v) node list)" where
  "split_and_put at newkey newchild ks cs =
     (let (left, splitkey, right) = split_interior_node at ks cs in
      if at = length (fst left) + 1 \<and> length (fst left) < length (fst right) then
        ((fst left @ [splitkey], snd left @ [hd (snd right)]), newkey,
         (fst right, newchild # tl (snd right)))
      else if length (fst left) + 1 \<le> at then
        (left, splitkey, put_child (at - (length (fst left) + 1)) newkey newchild right)
      else (put_child at newkey newchild left, splitkey, right))"

text \<open>
  The surface case of \<^verbatim>\<open>insert_descend\<close>: the test whether the key at the found position is the
  key (it reads through the non-const accessor), then the split of a full page and the insertion.
  The result is the page left at this address, the split (key and new node) if there was one, the
  iterator and whether the key was inserted.
\<close>

definition surface_has ::
    "'k::linorder \<Rightarrow> nat \<Rightarrow> ('k, 'v) surface_node \<Rightarrow> (bool \<times> ('k, 'v) surface_node) result" where
  "surface_has key at p =
     (if at < occupants p
      then bindE (slot_ref at p) (\<lambda>p'. Inr (key_equal key (key_of at p'), p'))
      else Inr (False, p))"

definition place_surface ::
    "'k::linorder \<Rightarrow> 'v \<Rightarrow> nat \<Rightarrow> nat \<Rightarrow> ('k, 'v) surface_node \<Rightarrow> ('k, 'v) tree_env \<Rightarrow>
     (('k, 'v) node \<times> ('k \<times> ('k, 'v) node) option \<times> (nat \<times> nat) \<times> bool \<times> ('k, 'v) tree_env)
     result" where
  "place_surface key val at a p e =
     (if surface_isfull p then
        bindE (split_surface_node a p e) (\<lambda>(p1, splitkey, b, q, e1).
          if occupants p1 \<le> at then
            bindE (insert_kv (at - occupants p1) key val q) (\<lambda>q1.
              Inr (Surface a p1, Some (splitkey, Surface b q1), (b, at - occupants p1), True, e1))
          else
            bindE (insert_kv at key val p1) (\<lambda>p2.
              Inr (Surface a p2,
                   Some (if at = occupants p2 - 1 then key else splitkey, Surface b q),
                   (a, at), True, e1)))
      else bindE (insert_kv at key val p) (\<lambda>p1. Inr (Surface a p1, None, (a, at), True, e)))"

definition insert_surface ::
    "'k::linorder \<Rightarrow> 'v \<Rightarrow> nat \<Rightarrow> ('k, 'v) surface_node \<Rightarrow> ('k, 'v) tree_env \<Rightarrow>
     (('k, 'v) node \<times> ('k \<times> ('k, 'v) node) option \<times> (nat \<times> nat) \<times> bool \<times> ('k, 'v) tree_env)
     result" where
  "insert_surface key val a p e =
     bindE (find_lower (\<lambda>i. get_key i p) (occupants p) (last_found p) key) (\<lambda>(at, lf).
       bindE (surface_has key at (p\<lparr>last_found := lf\<rparr>)) (\<lambda>(found, p1).
         if found then Inr (Surface a p1, None, (a, at), False, e)
         else place_surface key val at a p1 e))"

lemma nth_size [termination_simp]:
  "i < length cs \<Longrightarrow> size (cs ! i) < Suc (n + size_list size cs)"
  using size_list_estimation' [of "cs ! i" cs "size (cs ! i)" size] by fastforce

fun insert_descend ::
    "'k::linorder \<Rightarrow> 'v \<Rightarrow> ('k, 'v) node \<Rightarrow> ('k, 'v) tree_env \<Rightarrow>
     (('k, 'v) node \<times> ('k \<times> ('k, 'v) node) option \<times> (nat \<times> nat) \<times> bool \<times> ('k, 'v) tree_env)
     result" where
  "insert_descend key val (Surface a p) e = insert_surface key val a p e"
| "insert_descend key val (Interior a l lf ks cs) e =
     bindE (find_lower (\<lambda>i. Inr (ks ! i)) (length ks) lf key) (\<lambda>(at, lf').
       if at < length cs then
         bindE (insert_descend key val (cs ! at) e) (\<lambda>(c, split, it, inserted, e1).
           let cs1 = cs[at := c] in
           case split of
             None \<Rightarrow> Inr (Interior a l lf' ks cs1, None, it, inserted, e1)
           | Some (newkey, newchild) \<Rightarrow>
               if length ks = interiorslotmax then
                 let (b, e2) = allocate_interior e1;
                     ((lks, lcs), splitkey, (rks, rcs)) = split_and_put at newkey newchild ks cs1 in
                 Inr (Interior a l lf' lks lcs, Some (splitkey, Interior b l 0 rks rcs),
                      it, inserted, e2)
               else
                 let (ks', cs') = put_child at newkey newchild (ks, cs1) in
                 Inr (Interior a l lf' ks' cs', None, it, inserted, e1))
       else Inl Bad_access)"

definition insert_start ::
    "'k::linorder \<Rightarrow> 'v \<Rightarrow> ('k, 'v) btree \<Rightarrow> ((nat \<times> nat) \<times> bool \<times> ('k, 'v) btree) result" where
  "insert_start key val t =
     bindE (case root t of
              Some r \<Rightarrow> Inr (r, env t)
            | None \<Rightarrow> bindE (allocate_surface (env t)) (\<lambda>(w, p, e).
                Inr (Surface w p, e\<lparr>headsurface := w, last_surface := w\<rparr>))) (\<lambda>(r, e).
     bindE (insert_descend key val r e) (\<lambda>(r1, split, it, inserted, e1).
       let (r2, e2) =
             (case split of
                None \<Rightarrow> (r1, e1)
              | Some (newkey, newchild) \<Rightarrow>
                  let (w, e2) = allocate_interior e1 in
                  (Interior w (level r1 + 1) 0 [newkey] [r1, newchild], e2)) in
       Inr (it, inserted,
            t\<lparr>root := Some r2, env := e2,
              tree_size := if inserted then Suc (tree_size t) else tree_size t\<rparr>)))"

text \<open>\<^verbatim>\<open>insert(first, last)\<close> inserts a range one by one.\<close>

primrec insert_range :: "('k::linorder \<times> 'v) list \<Rightarrow> ('k, 'v) btree \<Rightarrow> ('k, 'v) btree result" where
  "insert_range [] t = Inr t"
| "insert_range (x # xs) t =
     bindE (insert_start (fst x) (snd x) t) (\<lambda>(it, inserted, t'). insert_range xs t')"

section \<open>Surfaces\<close>

text \<open>The surfaces of a subtree from left to right.\<close>

fun surfaces :: "('k, 'v) node \<Rightarrow> (nat \<times> ('k, 'v) surface_node) list" where
  "surfaces (Surface a p) = [(a, p)]"
| "surfaces (Interior a l lf ks cs) = concat (map surfaces cs)"

definition tree_surfaces :: "('k, 'v) btree \<Rightarrow> (nat \<times> ('k, 'v) surface_node) list" where
  "tree_surfaces t = (case root t of None \<Rightarrow> [] | Some r \<Rightarrow> surfaces r)"

section \<open>Lookups\<close>

text \<open>The descent of the lookups to the surface that can hold the key.\<close>

fun surface_lower :: "'k::linorder \<Rightarrow> ('k, 'v) node \<Rightarrow> (nat \<times> ('k, 'v) surface_node) result" where
  "surface_lower key (Surface a p) = Inr (a, p)"
| "surface_lower key (Interior a l lf ks cs) =
     bindE (find_lower (\<lambda>i. Inr (ks ! i)) (length ks) lf key) (\<lambda>(slot, lf').
       if slot < length cs then surface_lower key (cs ! slot) else Inl Bad_access)"

fun surface_upper :: "'k::linorder \<Rightarrow> ('k, 'v) node \<Rightarrow> (nat \<times> ('k, 'v) surface_node) result" where
  "surface_upper key (Surface a p) = Inr (a, p)"
| "surface_upper key (Interior a l lf ks cs) =
     bindE (find_upper (\<lambda>i. Inr (ks ! i)) (length ks) key) (\<lambda>slot.
       if slot < length cs then surface_upper key (cs ! slot) else Inl Bad_access)"

text \<open>\<^verbatim>\<open>end()\<close>: the slot behind the last entry of the last surface.\<close>

definition page_at :: "('k, 'v) btree \<Rightarrow> nat \<Rightarrow> ('k, 'v) surface_node option" where
  "page_at t a = map_of (tree_surfaces t) a"

definition end_it :: "('k, 'v) btree \<Rightarrow> nat \<times> nat" where
  "end_it t =
     (let w = last_surface (env t) in
      (w, if w = 0 then 0 else case page_at t w of None \<Rightarrow> 0 | Some p \<Rightarrow> occupants p))"

definition begin_it :: "('k, 'v) btree \<Rightarrow> nat \<times> nat" where
  "begin_it t = (headsurface (env t), 0)"

text \<open>
  The const \<^verbatim>\<open>direct\<close>: a pointer to the value, or \<^verbatim>\<open>nullptr\<close>.  The hash cache it asks first is empty:
  no code adds to it.
\<close>

definition direct :: "'k::linorder \<Rightarrow> ('k, 'v) btree \<Rightarrow> 'v option result" where
  "direct key t =
     (case root t of
        None \<Rightarrow> Inr None
      | Some r \<Rightarrow>
          bindE (surface_lower key r) (\<lambda>(a, p).
            bindE (find_lower (\<lambda>i. get_key i p) (occupants p) (last_found p) key) (\<lambda>(slot, lf).
              if slot < occupants p then
                bindE (get_key slot p) (\<lambda>k.
                  if key_equal key k then bindE (get_value slot p) (\<lambda>v. Inr (Some v)) else Inr None)
              else Inr None)))"

definition find :: "'k::linorder \<Rightarrow> ('k, 'v) btree \<Rightarrow> (nat \<times> nat) result" where
  "find key t =
     (case root t of
        None \<Rightarrow> Inr (end_it t)
      | Some r \<Rightarrow>
          bindE (surface_lower key r) (\<lambda>(a, p).
            bindE (find_lower (\<lambda>i. get_key i p) (occupants p) (last_found p) key) (\<lambda>(slot, lf).
              if slot < occupants p then
                bindE (slot_ref slot p) (\<lambda>p1.
                  if key_equal key (key_of slot p1) then Inr (a, slot) else Inr (end_it t))
              else Inr (end_it t))))"

definition lower_bound :: "'k::linorder \<Rightarrow> ('k, 'v) btree \<Rightarrow> (nat \<times> nat) result" where
  "lower_bound key t =
     (case root t of
        None \<Rightarrow> Inr (end_it t)
      | Some r \<Rightarrow>
          bindE (surface_lower key r) (\<lambda>(a, p).
            bindE (find_lower (\<lambda>i. get_key i p) (occupants p) (last_found p) key) (\<lambda>(slot, lf).
              Inr (a, slot))))"

definition upper_bound :: "'k::linorder \<Rightarrow> ('k, 'v) btree \<Rightarrow> (nat \<times> nat) result" where
  "upper_bound key t =
     (case root t of
        None \<Rightarrow> Inr (end_it t)
      | Some r \<Rightarrow>
          bindE (surface_upper key r) (\<lambda>(a, p).
            bindE (find_upper (\<lambda>i. get_key i p) (occupants p) key) (\<lambda>slot. Inr (a, slot))))"

section \<open>Abstraction\<close>

text \<open>The entries of the surfaces, and their addresses.\<close>

definition entries :: "('k, 'v) node \<Rightarrow> ('k \<times> 'v) list" where
  "entries n = concat (map (page_list \<circ> snd) (surfaces n))"

definition leaves :: "('k, 'v) node \<Rightarrow> nat list" where
  "leaves n = map fst (surfaces n)"

definition lastkey :: "('k, 'v) node \<Rightarrow> 'k" where
  "lastkey n = fst (last (entries n))"

definition contents :: "('k, 'v) btree \<Rightarrow> ('k \<times> 'v) list" where
  "contents t = (case root t of None \<Rightarrow> [] | Some r \<Rightarrow> entries r)"

text \<open>A node that is not the root is at least half full.\<close>

fun fill_ok :: "('k, 'v) node \<Rightarrow> bool" where
  "fill_ok (Surface a p) \<longleftrightarrow> minsurfaces \<le> occupants p"
| "fill_ok (Interior a l lf ks cs) \<longleftrightarrow> mininteriorslots \<le> length ks"

text \<open>
  The structural invariant of a subtree of level \<open>h\<close>: every page below is well formed, every child is
  at least half full, and each separator is the greatest key of the child before it.
\<close>

fun node_inv :: "nat \<Rightarrow> ('k, 'v) node \<Rightarrow> bool" where
  "node_inv h (Surface a p) \<longleftrightarrow> h = 0 \<and> surface_inv p"
| "node_inv h (Interior a l lf ks cs) \<longleftrightarrow>
     0 < h \<and> l = h \<and> ks \<noteq> [] \<and> length ks \<le> interiorslotmax \<and> cs \<noteq> [] \<and>
     ks = map lastkey (butlast cs) \<and> (\<forall>c\<in>set cs. node_inv (h - 1) c \<and> fill_ok c)"

text \<open>Insertion into the sorted sequence of entries; a key that is there keeps its value.\<close>

fun ins_list :: "'k::linorder \<Rightarrow> 'v \<Rightarrow> ('k \<times> 'v) list \<Rightarrow> ('k \<times> 'v) list" where
  "ins_list k v [] = [(k, v)]"
| "ins_list k v (x # xs) =
     (if fst x < k then x # ins_list k v xs else if fst x = k then x # xs else (k, v) # x # xs)"

abbreviation sorted_keys :: "('k::linorder \<times> 'v) list \<Rightarrow> bool" where
  "sorted_keys xs \<equiv> sorted_wrt (<) (map fst xs)"

subsection \<open>Sorted insertion\<close>

lemma entries_simps [simp]:
  "entries (Surface a p) = page_list p"
  "entries (Interior a l lf ks cs) = concat (map entries cs)"
proof -
  show "entries (Interior a l lf ks cs) = concat (map entries cs)"
    by (induction cs) (simp_all add: entries_def)
qed (simp add: entries_def)

lemma leaves_simps [simp]:
  "leaves (Surface a p) = [a]" "leaves (Interior a l lf ks cs) = concat (map leaves cs)"
  by (simp_all add: leaves_def) (induction cs, simp_all add: leaves_def)

lemma ins_list_append_right: "\<forall>x\<in>set xs. fst x < k \<Longrightarrow> ins_list k v (xs @ ys) = xs @ ins_list k v ys"
  by (induction xs) auto

lemma ins_list_append_left:
  "xs \<noteq> [] \<Longrightarrow> k \<le> fst (last xs) \<Longrightarrow> ins_list k v (xs @ ys) = ins_list k v xs @ ys"
  by (induction xs) (auto split: if_splits)

lemma ins_list_not_Nil [simp]: "ins_list k v xs \<noteq> []"
  by (cases xs) auto

lemma last_ins_list: "xs \<noteq> [] \<Longrightarrow> k \<le> fst (last xs) \<Longrightarrow> last (ins_list k v xs) = last xs"
  by (induction xs) (auto split: if_splits)

lemma set_ins_list_keys: "fst ` set (ins_list k v xs) = insert k (fst ` set xs)"
  by (induction xs) auto

lemma sorted_ins_list: "sorted_keys xs \<Longrightarrow> sorted_keys (ins_list k v xs)"
proof (induction xs)
  case (Cons x xs)
  then show ?case using set_ins_list_keys [of k v xs] by (auto simp: less_trans)
qed simp

lemma ins_list_present: "sorted_keys xs \<Longrightarrow> k \<in> fst ` set xs \<Longrightarrow> ins_list k v xs = xs"
  by (induction xs) (auto dest: order.strict_trans)

lemma ins_list_lower_pos:
  assumes "sorted_keys xs" "k \<notin> fst ` set xs"
  shows "ins_list k v xs = insert_at (lower_pos k (map fst xs)) (k, v) xs"
  using assms by (induction xs) (auto simp: insert_at_def lower_pos_def)

lemma map_of_ins_list:
  "sorted_keys xs \<Longrightarrow>
   map_of (ins_list k v xs) = (if k \<in> fst ` set xs then map_of xs else (map_of xs)(k \<mapsto> v))"
  by (induction xs) (auto simp: fun_eq_iff dest: order.strict_trans)

end
