(* ===== verification/BTreeInsert.thy ===== *)
theory BTreeInsert
  imports BTree
begin

text \<open>
  Correctness of \<^verbatim>\<open>insert_start\<close> of \<^verbatim>\<open>src/src/stx/btree.h\<close>: the page splits, the descent and the
  growth of the root.  \<open>insert_post\<close> is what an insertion into a subtree establishes, \<open>tree_inv\<close> the
  invariant of the whole tree.
\<close>

section \<open>Splitting a surface\<close>

lemma change_page [simp]:
  "surface_inv (change p) = surface_inv p" "page_list (change p) = page_list p"
  "occupants (change p) = occupants p" "last_found (change p) = last_found p"
  "key_of i (change p) = key_of i p" "value_of i (change p) = value_of i p"
  "permutations (change p) = permutations p"
  by (simp_all add: change_def surface_inv_def page_list_def key_of_def value_of_def)

lemma changes_page [simp]:
  "surface_inv ((change ^^ c) p) = surface_inv p" "page_list ((change ^^ c) p) = page_list p"
  "occupants ((change ^^ c) p) = occupants p" "last_found ((change ^^ c) p) = last_found p"
  by (induction c) simp_all

lemma slot_ref_used [simp]:
  "surface_inv p \<Longrightarrow> i < occupants p \<Longrightarrow> slot_ref i p = Inr (change p)"
  using surface_invD(6) [of p i] by (simp add: slot_ref_def)

lemma entry_of:
  "surface_inv p \<Longrightarrow> i < occupants p \<Longrightarrow> page_list p ! i = (key_of i p, value_of i p)"
  unfolding page_list_def key_of_def value_of_def
  using surface_invD(1,4) [of p] by simp

lemma copy_slots_eq:
  "surface_inv p \<Longrightarrow> mid \<le> slot \<Longrightarrow> slot + c \<le> occupants p \<Longrightarrow>
   copy_slots mid slot c p q =
     bindE (set_kvs (slot - mid) (take c (drop slot (page_list p))) q)
       (\<lambda>q'. Inr ((change ^^ (2 * c)) p, q'))"
proof (induction c arbitrary: slot p q)
  case (Suc c)
  have "slot < length (page_list p)" using Suc.prems by simp
  then have d: "take (Suc c) (drop slot (page_list p)) =
      (key_of slot p, value_of slot p) # take c (drop (Suc slot) (page_list p))"
    using Suc.prems entry_of [of p slot] Cons_nth_drop_Suc [of slot "page_list p"] by (metis length_page_list take_Suc_Cons)
  have f: "(change ^^ Suc (Suc (2 * c))) p = (change ^^ (2 * c)) (change (change p))"
    by (simp add: funpow_swap1)
  show ?case using Suc.prems Suc.IH [of "change (change p)" "Suc slot"]
    by (cases "set_kv (slot - mid) (key_of slot p) (value_of slot p) q")
       (simp_all add: d f Suc_diff_le del: funpow.simps)
qed simp

lemma split_surface_node_ok:
  assumes inv: "surface_inv p" and full: "occupants p = surfaceslotmax" and fresh: "0 < fresh e"
  shows "\<exists>p' q e1. split_surface_node a p e =
      Inr (p', fst (last (page_list p')), fresh e, q, link_after a (fresh e) e1) \<and>
    surface_inv p' \<and> surface_inv q \<and> occupants p' = minsurfaces \<and> occupants q = minsurfaces \<and>
    page_list p' = take minsurfaces (page_list p) \<and> page_list q = drop minsurfaces (page_list p) \<and>
    e1 = e\<lparr>fresh := Suc (fresh e), next_of := (next_of e)(fresh e := 0),
           preceding_of := (preceding_of e)(fresh e := 0)\<rparr>"
proof -
  have m: "occupants p div 2 = minsurfaces" "occupants p - minsurfaces = minsurfaces"
    "minsurfaces \<le> surfaceslotmax" "0 < minsurfaces" "minsurfaces + minsurfaces = occupants p"
    "minsurfaces \<le> occupants p"
    using full by (simp_all add: limits)
  let ?kvs = "drop minsurfaces (page_list p)"
  define p2 where "p2 = set_occupants minsurfaces ((change ^^ (2 * minsurfaces)) p)"
  have p2: "surface_inv p2" "page_list p2 = take minsurfaces (page_list p)" "occupants p2 = minsurfaces"
    using set_occupants_le [of "(change ^^ (2 * minsurfaces)) p" minsurfaces] inv m(6)
    by (simp_all add: p2_def set_occupants_def)
  have len: "length ?kvs = minsurfaces" "take minsurfaces ?kvs = ?kvs" using inv m by simp_all
  obtain q where q: "set_kvs 0 ?kvs (set_occupants minsurfaces (initialize (default_key e) (default_value e))) = Inr q"
    "surface_inv q" "page_list q = ?kvs" "occupants q = minsurfaces"
    using set_kvs_fresh [of ?kvs "default_key e" "default_value e"] len m by auto
  have k: "key_of (minsurfaces - 1) p2 = fst (last (page_list p2))"
  proof -
    have "page_list p2 \<noteq> []" using length_page_list [OF p2(1)] p2(3) m(4) by auto
    then have "last (page_list p2) = page_list p2 ! (minsurfaces - 1)"
      using length_page_list [OF p2(1)] p2(3) by (simp add: last_conv_nth)
    then show ?thesis using entry_of [OF p2(1), of "minsurfaces - 1"] p2(3) m(4) by simp
  qed
  have "split_surface_node a p e = Inr (change p2, fst (last (page_list p2)), fresh e, q,
      link_after a (fresh e) (e\<lparr>fresh := Suc (fresh e), next_of := (next_of e)(fresh e := 0),
           preceding_of := (preceding_of e)(fresh e := 0)\<rparr>))"
    using fresh inv m p2 q k len
    by (simp add: split_surface_node_def allocate_surface_def Let_def copy_slots_eq p2_def [symmetric])
  then show ?thesis using p2 q by (intro exI [of _ "change p2"] exI [of _ q] exI) auto
qed

section \<open>What an insertion into a subtree establishes\<close>

definition same_links :: "('k, 'v) tree_env \<Rightarrow> ('k, 'v) tree_env \<Rightarrow> bool" where
  "same_links e e' \<longleftrightarrow> next_of e' = next_of e \<and> preceding_of e' = preceding_of e \<and>
     headsurface e' = headsurface e \<and> last_surface e' = last_surface e"

text \<open>Either the surfaces stayed as they were, or one new surface was linked in behind another.\<close>

definition links_post :: "('k, 'v) tree_env \<Rightarrow> ('k, 'v) tree_env \<Rightarrow> nat list \<Rightarrow> nat list \<Rightarrow> bool" where
  "links_post e e' ls ls' \<longleftrightarrow> fresh e \<le> fresh e' \<and>
     (ls' = ls \<and> same_links e e' \<or>
      (\<exists>xs a b ys. ls = xs @ a # ys \<and> ls' = xs @ a # b # ys \<and> fresh e \<le> b \<and> b < fresh e' \<and>
         same_links (link_after a b e) e'))"

definition split_nodes :: "('k \<times> ('k, 'v) node) option \<Rightarrow> ('k, 'v) node list" where
  "split_nodes s = (case s of None \<Rightarrow> [] | Some (k, m) \<Rightarrow> [m])"

definition points_to :: "'k \<Rightarrow> nat \<times> nat \<Rightarrow> (nat \<times> ('k, 'v) surface_node) list \<Rightarrow> bool" where
  "points_to k it ps \<longleftrightarrow>
     (\<exists>p. (fst it, p) \<in> set ps \<and> snd it < length (page_list p) \<and> fst (page_list p ! snd it) = k)"

definition insert_post ::
    "nat \<Rightarrow> 'k::linorder \<Rightarrow> 'v \<Rightarrow> ('k, 'v) node \<Rightarrow> ('k, 'v) tree_env \<Rightarrow>
     ('k, 'v) node \<times> ('k \<times> ('k, 'v) node) option \<times> (nat \<times> nat) \<times> bool \<times> ('k, 'v) tree_env \<Rightarrow> bool" where
  "insert_post h k v n e = (\<lambda>(n', split, it, inserted, e').
     inserted = (k \<notin> fst ` set (entries n)) \<and>
     (\<forall>m\<in>set (n' # split_nodes split). node_inv h m) \<and>
     (if split = None then fill_ok n \<longrightarrow> fill_ok n' else \<forall>m\<in>set (n' # split_nodes split). fill_ok m) \<and>
     concat (map entries (n' # split_nodes split)) = ins_list k v (entries n) \<and>
     (\<forall>sk m. split = Some (sk, m) \<longrightarrow> sk = lastkey n') \<and>
     links_post e e' (leaves n) (concat (map leaves (n' # split_nodes split))) \<and>
     points_to k it (concat (map surfaces (n' # split_nodes split))))"

lemma insert_post_whole:
  assumes "inserted = (k \<notin> fst ` set (entries n))" "node_inv h n'" "fill_ok n \<Longrightarrow> fill_ok n'"
    "entries n' = ins_list k v (entries n)" "links_post e e' (leaves n) (leaves n')"
    "points_to k it (surfaces n')"
  shows "insert_post h k v n e (n', None, it, inserted, e')"
  using assms by (simp add: insert_post_def split_nodes_def)

lemma insert_post_split:
  assumes "inserted = (k \<notin> fst ` set (entries n))" "node_inv h n'" "node_inv h m" "fill_ok n'" "fill_ok m"
    "entries n' @ entries m = ins_list k v (entries n)" "sk = lastkey n'"
    "links_post e e' (leaves n) (leaves n' @ leaves m)" "points_to k it (surfaces n' @ surfaces m)"
  shows "insert_post h k v n e (n', Some (sk, m), it, inserted, e')"
  using assms by (simp add: insert_post_def split_nodes_def)

lemma points_toI:
  "(fst it, p) \<in> set ps \<Longrightarrow> snd it < length (page_list p) \<Longrightarrow> fst (page_list p ! snd it) = k \<Longrightarrow>
   points_to k it ps"
  by (auto simp: points_to_def)

lemma lower_pos_present:
  assumes "sorted_keys xs" and p: "p = lower_pos k (map fst xs)"
  shows "k \<in> fst ` set xs \<longleftrightarrow> p < length xs \<and> fst (xs ! p) = k"
proof
  have s: "sorted (map fst xs)" using assms(1) by (rule strict_sorted_imp_sorted)
  assume "k \<in> fst ` set xs"
  then obtain i where i: "i < length xs" "fst (xs ! i) = k" by (metis imageE in_set_conv_nth)
  have "\<not> i < p" using lower_pos_props(2) [OF s, of i k] i p by auto
  moreover have "\<not> p < i"
  proof
    assume "p < i"
    then have "fst (xs ! p) < k" using sorted_wrt_nth_less [OF assms(1), of p i] i by simp
    then show False using lower_pos_props(3) [OF s, of k p] p i \<open>p < i\<close> by auto
  qed
  ultimately show "p < length xs \<and> fst (xs ! p) = k" using i by (metis not_less_iff_gr_or_eq)
qed auto

lemma same_links_split:
  "a \<noteq> b \<Longrightarrow> same_links (link_after a b e)
     (link_after a b (e\<lparr>fresh := f, next_of := (next_of e)(b := 0), preceding_of := (preceding_of e)(b := 0)\<rparr>))"
  by (auto simp: same_links_def link_after_def Let_def fun_eq_iff)

text \<open>Placing a new entry in a page, with or without a split.\<close>

lemma place_surface_room:
  assumes inv: "surface_inv p" and srt: "sorted_keys (page_list p)"
    and at: "at = lower_pos k (map fst (page_list p))" and new: "k \<notin> fst ` set (page_list p)"
    and room: "occupants p \<noteq> surfaceslotmax"
  shows "\<exists>r. place_surface k v at a p e = Inr r \<and> insert_post 0 k v (Surface a p) e r"
proof -
  have le: "at \<le> occupants p" using lower_pos_props(1) [OF strict_sorted_imp_sorted [OF srt], of k] at inv by simp
  have "occupants p < surfaceslotmax" using room surface_invD(4) [OF inv] by simp
  from insert_kv_ok [OF inv this le, of k v] obtain p1 where
    p1: "insert_kv at k v p = Inr p1" "surface_inv p1"
      "page_list p1 = insert_at at (k, v) (page_list p)" "occupants p1 = Suc (occupants p)" by blast
  have "place_surface k v at a p e = Inr (Surface a p1, None, (a, at), True, e)"
    using room p1 by (simp add: place_surface_def surface_isfull_def)
  moreover have "insert_post 0 k v (Surface a p) e (Surface a p1, None, (a, at), True, e)"
    using p1 new le inv ins_list_lower_pos [OF srt new, of v] at
    by (simp add: insert_post_def split_nodes_def points_to_def nth_insert_at links_post_def same_links_def)
  ultimately show ?thesis by blast
qed

lemma place_surface_split:
  assumes inv: "surface_inv p" and srt: "sorted_keys (page_list p)"
    and at: "at = lower_pos k (map fst (page_list p))" and new: "k \<notin> fst ` set (page_list p)"
    and full: "occupants p = surfaceslotmax" and fr: "0 < fresh e" "a < fresh e"
  shows "\<exists>r. place_surface k v at a p e = Inr r \<and> insert_post 0 k v (Surface a p) e r"
proof -
  let ?xs = "page_list p" and ?b = "fresh e"
  have le: "at \<le> length ?xs" using lower_pos_props(1) [OF strict_sorted_imp_sorted [OF srt], of k] at by simp
  have m: "0 < minsurfaces" "minsurfaces < surfaceslotmax" by (simp_all add: limits)
  have len: "length ?xs = surfaceslotmax" using inv full by simp
  obtain p1 q e1 where sp: "split_surface_node a p e = Inr (p1, fst (last (page_list p1)), ?b, q, link_after a ?b e1)"
    and p1: "surface_inv p1" "occupants p1 = minsurfaces" "page_list p1 = take minsurfaces ?xs"
    and q: "surface_inv q" "occupants q = minsurfaces" "page_list q = drop minsurfaces ?xs"
    and e1: "e1 = e\<lparr>fresh := Suc (fresh e), next_of := (next_of e)(fresh e := 0),
           preceding_of := (preceding_of e)(fresh e := 0)\<rparr>"
    using split_surface_node_ok [OF inv full fr(1), of a] by blast
  have ne: "page_list p1 \<noteq> []" using p1(1,2) m(1) length_page_list by fastforce
  have ins: "insert_at at (k, v) ?xs = ins_list k v ?xs" using ins_list_lower_pos [OF srt new] at by simp
  have frl: "fresh (link_after a ?b e1) = Suc ?b" by (simp add: link_after_def Let_def e1)
  have links: "links_post e (link_after a ?b e1) [a] [a, ?b]"
    using same_links_split [of a ?b e "Suc ?b"] fr(2) frl unfolding links_post_def e1
    by (intro conjI disjI2 exI [of _ "[]"] exI [of _ a] exI [of _ ?b]) auto
  note start = place_surface_def surface_isfull_def full sp
  show ?thesis
  proof (cases "minsurfaces \<le> at")
    case True
    have "at - minsurfaces \<le> occupants q" "occupants q < surfaceslotmax"
      using le len q(2) by (auto simp: limits)
    with q(2,3) obtain q1 where q1: "insert_kv (at - minsurfaces) k v q = Inr q1" "surface_inv q1"
      "page_list q1 = insert_at (at - minsurfaces) (k, v) (drop minsurfaces ?xs)"
      "occupants q1 = Suc minsurfaces"
      using insert_kv_ok [OF q(1), of "at - minsurfaces" k v] by auto
    let ?r = "(Surface a p1, Some (fst (last (page_list p1)), Surface ?b q1), (?b, at - minsurfaces), True,
      link_after a ?b e1)"
    have cat: "take minsurfaces ?xs @ insert_at (at - minsurfaces) (k, v) (drop minsurfaces ?xs) = insert_at at (k, v) ?xs"
      using True len m insert_at_append_right [of "take minsurfaces ?xs" at "(k, v)" "drop minsurfaces ?xs"] by simp
    have "place_surface k v at a p e = Inr ?r" using True q1 p1(2) by (simp add: start)
    moreover have "insert_post 0 k v (Surface a p) e ?r"
    proof (rule insert_post_split)
      show "points_to k (?b, at - minsurfaces) (surfaces (Surface a p1) @ surfaces (Surface ?b q1))"
        using q1(3) le len by (intro points_toI [of _ q1]) (simp_all add: nth_insert_at diff_le_mono)
    qed (use p1 q1 cat ins new links in \<open>simp_all add: lastkey_def\<close>)
    ultimately show ?thesis by blast
  next
    case False
    then obtain p2 where p2: "insert_kv at k v p1 = Inr p2" "surface_inv p2"
      "page_list p2 = insert_at at (k, v) (take minsurfaces ?xs)" "occupants p2 = Suc minsurfaces"
      using insert_kv_ok [OF p1(1), of at k v] p1 m by auto
    let ?r = "(Surface a p2, Some (fst (last (page_list p1)), Surface ?b q), (a, at), True, link_after a ?b e1)"
    have cat: "insert_at at (k, v) (take minsurfaces ?xs) @ drop minsurfaces ?xs = insert_at at (k, v) ?xs"
      using False len m insert_at_append_left [of at "take minsurfaces ?xs" "(k, v)" "drop minsurfaces ?xs"] by simp
    have lst: "last (page_list p2) = last (page_list p1)"
      using False p2(3) p1(3) len m by (simp add: insert_at_def last_append)
    have "place_surface k v at a p e = Inr ?r" using False p2 p1(2) by (simp add: start)
    moreover have "insert_post 0 k v (Surface a p) e ?r"
    proof (rule insert_post_split)
      show "points_to k (a, at) (surfaces (Surface a p2) @ surfaces (Surface ?b q))"
        using p2(3) False le len m by (intro points_toI [of _ p2]) (simp_all add: nth_insert_at)
    qed (use p2 q cat ins new links lst in \<open>simp_all add: lastkey_def\<close>)
    ultimately show ?thesis by blast
  qed
qed

text \<open>The search in a page and the test whether the key is there.\<close>

lemma surface_probe_ok:
  assumes inv: "surface_inv p" and srt: "sorted_keys (page_list p)"
  obtains lf p1 where
    "find_lower (\<lambda>i. get_key i p) (occupants p) (last_found p) k = Inr (lower_pos k (map fst (page_list p)), lf)"
    "surface_has k (lower_pos k (map fst (page_list p))) (p\<lparr>last_found := lf\<rparr>) = Inr (k \<in> fst ` set (page_list p), p1)"
    "surface_inv p1" "page_list p1 = page_list p" "occupants p1 = occupants p"
proof -
  let ?xs = "page_list p"
  define at where "at = lower_pos k (map fst ?xs)"
  have s: "sorted (map fst ?xs)" using srt by (rule strict_sorted_imp_sorted)
  obtain lf where fl: "find_lower (\<lambda>i. get_key i p) (occupants p) (last_found p) k = Inr (at, lf)"
    using find_lower_correct [OF reads_page [OF inv] s, of "last_found p" k] inv by (auto simp: at_def)
  define p1 where "p1 = (if at < occupants p then change (p\<lparr>last_found := lf\<rparr>) else p\<lparr>last_found := lf\<rparr>)"
  have lf: "surface_inv (p\<lparr>last_found := lf\<rparr>)" "page_list (p\<lparr>last_found := lf\<rparr>) = ?xs"
    using inv by (simp_all add: surface_inv_def page_list_def)
  then have p1: "surface_inv p1" "page_list p1 = ?xs" "occupants p1 = occupants p"
    by (simp_all add: p1_def)
  have "surface_has k at (p\<lparr>last_found := lf\<rparr>) = Inr (k \<in> fst ` set ?xs, p1)"
    using lower_pos_present [OF srt at_def] entry_of [OF lf(1), of at] lf inv
    by (auto simp: surface_has_def p1_def)
  then show thesis using that [of lf p1] fl p1 by (simp add: at_def)
qed

lemma insert_surface_ok:
  assumes inv: "surface_inv p" and srt: "sorted_keys (page_list p)" and fr: "0 < fresh e" "a < fresh e"
  shows "\<exists>r. insert_surface k v a p e = Inr r \<and> insert_post 0 k v (Surface a p) e r"
proof -
  let ?xs = "page_list p"
  define at where "at = lower_pos k (map fst ?xs)"
  obtain lf p1 where fl: "find_lower (\<lambda>i. get_key i p) (occupants p) (last_found p) k = Inr (at, lf)"
    and has: "surface_has k at (p\<lparr>last_found := lf\<rparr>) = Inr (k \<in> fst ` set ?xs, p1)"
    and p1: "surface_inv p1" "page_list p1 = ?xs" "occupants p1 = occupants p"
    using surface_probe_ok [OF inv srt, of k] unfolding at_def by blast
  have post: "insert_post 0 k v (Surface a p1) e r = insert_post 0 k v (Surface a p) e r" for r
    using p1 by (cases r) (simp add: insert_post_def cong: if_cong)
  have eq: "insert_surface k v a p e =
      (if k \<in> fst ` set ?xs then Inr (Surface a p1, None, (a, at), False, e) else place_surface k v at a p1 e)"
    by (simp add: insert_surface_def fl has)
  show ?thesis
  proof (cases "k \<in> fst ` set ?xs")
    case True
    have "insert_post 0 k v (Surface a p) e (Surface a p1, None, (a, at), False, e)"
      using True p1 ins_list_present [OF srt True] lower_pos_present [OF srt at_def]
      by (simp add: insert_post_def split_nodes_def points_to_def links_post_def same_links_def)
    then show ?thesis using True eq by simp
  next
    case False
    then show ?thesis
      using place_surface_room [of p1 at k v a e] place_surface_split [of p1 at k e a v] p1 srt fr eq
      by (cases "occupants p = surfaceslotmax") (auto simp: post at_def)
  qed
qed

section \<open>Interior pages\<close>

lemma drop_insert_at_le: "i \<le> k \<Longrightarrow> k \<le> length xs \<Longrightarrow> drop (Suc k) (insert_at i x xs) = drop k xs"
  by (simp add: insert_at_def min_def Suc_diff_le)

lemma drop_insert_at_ge:
  "k \<le> i \<Longrightarrow> i \<le> length xs \<Longrightarrow> drop k (insert_at i x xs) = insert_at (i - k) x (drop k xs)"
  by (simp add: insert_at_def drop_take)

text \<open>
  Whatever half the new child goes to, the two pages are the two parts of the overfull page cut at
  half the slot limit: the choice of \<^verbatim>\<open>mid\<close> and the special case balance the split.
\<close>

lemma split_and_put_cut:
  assumes ks: "length ks = interiorslotmax" and cs: "length cs = Suc interiorslotmax"
    and at: "at \<le> interiorslotmax"
  shows "split_and_put at nk nc ks cs =
    (let KS = insert_at at nk ks; CS = insert_at (Suc at) nc cs; m = mininteriorslots in
     ((take m KS, take (Suc m) CS), KS ! m, (drop (Suc m) KS, drop (Suc m) CS)))"
proof -
  have n: "interiorslotmax = 128" "mininteriorslots = 64" by (simp_all add: limits)
  consider "at \<le> 63" | "at = 64" | "65 \<le> at" by linarith
  then show ?thesis
  proof cases
    case 1
    then have m: "split_mid 128 at = 63" by (simp add: split_mid_def)
    show ?thesis using 1 ks cs
      take_insert_at [of at 63 ks nk] take_insert_at [of "Suc at" 64 cs nc]
      drop_insert_at_le [of at 64 ks nk] drop_insert_at_le [of "Suc at" 64 cs nc]
      by (simp add: split_and_put_def split_interior_node_def m Let_def put_child_def n nth_insert_at)
  next
    case 2
    have m: "split_mid 128 64 = 63" by (simp add: split_mid_def)
    have a: "take 63 ks @ [ks ! 63] = take 64 ks" using take_Suc_conv_app_nth [of 63 ks] by (simp add: ks n)
    have b: "take 64 cs @ [hd (drop 64 cs)] = take 65 cs"
      using take_Suc_conv_app_nth [of 64 cs] hd_drop_conv_nth [of 64 cs] by (simp add: cs n)
    have c: "tl (drop 64 cs) = drop 65 cs" by (simp add: tl_drop drop_Suc [symmetric])
    show ?thesis using 2 ks cs
      take_insert_at_ge [of 64 at ks nk] take_insert_at_ge [of 65 "Suc at" cs nc]
      drop_insert_at_le [of at 64 ks nk] drop_insert_at_ge [of 65 "Suc at" cs nc]
      by (simp add: split_and_put_def split_interior_node_def m Let_def n a b c insert_at_def nth_append)
  next
    case 3
    then have m: "split_mid 128 at = 64" by (simp add: split_mid_def)
    have e: "Suc (at - 65) = at - 64" using 3 by simp
    show ?thesis using 3 ks cs at e
      take_insert_at_ge [of 64 at ks nk] take_insert_at_ge [of 65 "Suc at" cs nc]
      drop_insert_at_ge [of 65 at ks nk] drop_insert_at_ge [of 65 "Suc at" cs nc]
      by (simp add: split_and_put_def split_interior_node_def m Let_def put_child_def n nth_insert_at Suc_diff_le)
  qed
qed

text \<open>The invariant of an interior page without the limit on its size.\<close>

definition kids_inv :: "nat \<Rightarrow> 'k list \<Rightarrow> ('k, 'v) node list \<Rightarrow> bool" where
  "kids_inv h ks cs \<longleftrightarrow> cs \<noteq> [] \<and> ks = map lastkey (butlast cs) \<and> (\<forall>c\<in>set cs. node_inv h c \<and> fill_ok c)"

lemma node_inv_Interior:
  "node_inv h (Interior a l lf ks cs) \<longleftrightarrow>
     0 < h \<and> l = h \<and> ks \<noteq> [] \<and> length ks \<le> interiorslotmax \<and> kids_inv (h - 1) ks cs"
  by (auto simp: kids_inv_def)

lemma kids_inv_length: "kids_inv h ks cs \<Longrightarrow> length cs = Suc (length ks)"
  by (simp add: kids_inv_def)

lemma entries_not_Nil: "node_inv h n \<Longrightarrow> fill_ok n \<Longrightarrow> entries n \<noteq> []"
proof (induction n arbitrary: h)
  case (Surface a p)
  then have "0 < length (page_list p)" by (simp add: limits)
  then show ?case by simp
next
  case (Interior a l lf ks cs)
  then have "hd cs \<in> set cs" by simp
  moreover from this have "entries (hd cs) \<noteq> []" using Interior by (auto simp del: hd_in_set)
  ultimately show ?case by auto
qed

lemma kids_inv_cut:
  assumes "kids_inv h ks cs" "m < length ks"
  shows "kids_inv h (take m ks) (take (Suc m) cs)" "kids_inv h (drop (Suc m) ks) (drop (Suc m) cs)"
    "ks ! m = lastkey (Interior a l lf (take m ks) (take (Suc m) cs))"
proof -
  have l: "Suc m < length cs" using kids_inv_length [OF assms(1)] assms(2) by simp
  have ks: "ks = map lastkey (butlast cs)" and cs: "\<And>c. c \<in> set cs \<Longrightarrow> node_inv h c \<and> fill_ok c"
    using assms(1) by (auto simp: kids_inv_def)
  have t: "take m ks = map lastkey (butlast (take (Suc m) cs))"
    unfolding ks using l by (simp add: take_map butlast_take take_butlast)
  have d: "drop (Suc m) ks = map lastkey (butlast (drop (Suc m) cs))"
    unfolding ks by (simp only: drop_map drop_butlast)
  show "kids_inv h (take m ks) (take (Suc m) cs)"
    unfolding kids_inv_def using t l cs by (auto dest: in_set_takeD)
  show "kids_inv h (drop (Suc m) ks) (drop (Suc m) cs)"
    unfolding kids_inv_def using d l cs by (auto dest: in_set_dropD)
  have "cs ! m \<in> set cs" using l by simp
  from cs [OF this] have ne: "entries (cs ! m) \<noteq> []" using entries_not_Nil by blast
  have "ks ! m = lastkey (cs ! m)" unfolding ks using l by (simp add: nth_butlast)
  moreover have "take (Suc m) cs = take m cs @ [cs ! m]"
    using l by (simp add: take_Suc_conv_app_nth)
  ultimately show "ks ! m = lastkey (Interior a l lf (take m ks) (take (Suc m) cs))"
    using ne by (simp add: lastkey_def)
qed

lemma butlast_append_Cons: "butlast (A @ c # B) = A @ (if B = [] then [] else c # butlast B)"
  by (simp add: butlast_append)

lemma kids_inv_replace:
  assumes "kids_inv h ks (A @ c # B)" "node_inv h c'" "fill_ok c'" "B \<noteq> [] \<Longrightarrow> lastkey c' = lastkey c"
  shows "kids_inv h ks (A @ c' # B)"
  using assms by (auto simp: kids_inv_def butlast_append_Cons)

lemma kids_inv_put:
  assumes "kids_inv h ks (A @ c # B)" "node_inv h c'" "fill_ok c'" "node_inv h m" "fill_ok m"
    "B \<noteq> [] \<Longrightarrow> lastkey m = lastkey c"
  shows "kids_inv h (insert_at (length A) (lastkey c') ks) (A @ c' # m # B)"
  using assms by (auto simp: kids_inv_def butlast_append_Cons insert_at_def)

section \<open>Descending\<close>

lemma sorted_kids:
  assumes "sorted_keys (concat (map entries cs))" "\<And>c. c \<in> set cs \<Longrightarrow> entries c \<noteq> []"
  shows "sorted_wrt (<) (map lastkey cs)"
  using assms
proof (induction cs)
  case (Cons c cs)
  have last_in: "lastkey d \<in> fst ` set (entries d)" if "d \<in> set (c # cs)" for d
    using Cons.prems(2) [OF that] by (simp add: lastkey_def)
  have "lastkey c < lastkey d" if "d \<in> set cs" for d
  proof -
    have "lastkey d \<in> fst ` set (concat (map entries cs))" using last_in [of d] that by auto
    then show ?thesis using Cons.prems(1) last_in [of c]
      by (fastforce simp: sorted_wrt_append)
  qed
  then show ?case using Cons by (auto simp: sorted_wrt_append)
qed simp

lemma le_lastkey:
  assumes "sorted_keys (entries c)" "x \<in> set (entries c)" shows "fst x \<le> lastkey c"
proof -
  obtain ys y where e: "entries c = ys @ [y]" using assms(2) by (cases "entries c" rule: rev_cases) auto
  then show ?thesis using assms by (auto simp: lastkey_def sorted_wrt_append intro: less_imp_le)
qed

text \<open>
  Where the search in an interior page leads.  \<open>P\<close> is the test of the search, true on a prefix of
  the keys: the entries before the chosen child pass it, the greatest key of that child does not.
\<close>

lemma kids_split:
  assumes inv: "kids_inv h ks cs" and srt: "sorted_keys (concat (map entries cs))"
    and at: "at = length (takeWhile P ks)" and mono: "\<And>x y. x \<le> y \<Longrightarrow> P y \<Longrightarrow> P x"
  obtains A c B where "cs = A @ c # B" "length A = at" "cs ! at = c" "node_inv h c" "fill_ok c"
    "sorted_keys (entries c)" "\<And>x. x \<in> set (concat (map entries A)) \<Longrightarrow> P (fst x)"
    "B \<noteq> [] \<Longrightarrow> \<not> P (lastkey c)" "\<And>x. x \<in> set (concat (map entries B)) \<Longrightarrow> lastkey c < fst x"
    "sorted ks"
proof -
  have ks: "ks = map lastkey (butlast cs)" and cs: "\<And>c. c \<in> set cs \<Longrightarrow> node_inv h c \<and> fill_ok c"
    using inv by (auto simp: kids_inv_def)
  have len: "length cs = Suc (length ks)" by (rule kids_inv_length [OF inv])
  have ksn: "ks ! i = lastkey (cs ! i)" if "i < length ks" for i
    using that unfolding ks by (simp add: nth_butlast)
  have "sorted_wrt (<) (map lastkey cs)"
    by (rule sorted_kids [OF srt]) (use cs entries_not_Nil in blast)
  then have sl: "sorted_wrt (<) (map lastkey (butlast cs @ [last cs]))"
    using inv by (simp add: kids_inv_def)
  then have sk: "sorted ks" unfolding ks by (auto simp: sorted_wrt_append intro: strict_sorted_imp_sorted)
  have le: "at \<le> length ks" using at by (simp add: length_takeWhile_le)
  define A B where "A = take at cs" and "B = drop (Suc at) cs"
  have split: "cs = A @ cs ! at # B" "length A = at"
    using le len by (simp_all add: A_def B_def id_take_nth_drop)
  have c: "node_inv h (cs ! at)" "fill_ok (cs ! at)" using cs le len by auto
  have s: "sorted_keys (concat (map entries A) @ entries (cs ! at) @ concat (map entries B))"
    using srt by (subst (asm) split(1)) simp
  have sc: "sorted_keys (entries d)" if "d \<in> set cs" for d
    using srt that by (induction cs) (auto simp: sorted_wrt_append)
  have a: "P (fst x)" if "x \<in> set (concat (map entries A))" for x
  proof -
    from that obtain d where d: "d \<in> set A" "x \<in> set (entries d)" by auto
    then obtain i where i: "i < at" "d = cs ! i"
      using le len by (auto simp: A_def in_set_conv_nth)
    then have "d \<in> set cs" using le len by simp
    then have "fst x \<le> lastkey d" by (rule le_lastkey [OF sc d(2)])
    moreover have "P (lastkey d)"
      using i le at ksn [of i] by (metis less_le_trans nth_mem set_takeWhileD takeWhile_nth)
    ultimately show ?thesis by (rule mono)
  qed
  have b: "\<not> P (lastkey (cs ! at))" if "B \<noteq> []"
  proof -
    have "at < length ks" using that len by (simp add: B_def)
    then show ?thesis using nth_length_takeWhile [of P ks] at ksn [of at] by simp
  qed
  have b': "lastkey (cs ! at) < fst x" if "x \<in> set (concat (map entries B))" for x
  proof -
    have "lastkey (cs ! at) \<in> fst ` set (entries (cs ! at))"
      using entries_not_Nil [OF c] by (simp add: lastkey_def)
    then show ?thesis using s that by (auto simp: sorted_wrt_append)
  qed
  show thesis using that [OF split(1) split(2) refl c _ a b b' sk] sc [of "cs ! at"] le len by simp
qed

lemma descend_split:
  assumes inv: "kids_inv h ks cs" and srt: "sorted_keys (concat (map entries cs))"
    and at: "at = lower_pos k ks"
  obtains A c B where "cs = A @ c # B" "length A = at" "cs ! at = c" "node_inv h c" "fill_ok c"
    "sorted_keys (entries c)"
    "\<And>x. x \<in> set (concat (map entries A)) \<Longrightarrow> fst x < k"
    "B \<noteq> [] \<Longrightarrow> k \<le> lastkey c"
    "\<And>x. x \<in> set (concat (map entries B)) \<Longrightarrow> k < fst x"
    "\<exists>lf'. find_lower (\<lambda>i. Inr (ks ! i)) (length ks) lf k = Inr (at, lf')"
proof -
  obtain A c B where d: "cs = A @ c # B" "length A = at" "cs ! at = c" "node_inv h c" "fill_ok c"
    "sorted_keys (entries c)" "\<And>x. x \<in> set (concat (map entries A)) \<Longrightarrow> fst x < k"
    "B \<noteq> [] \<Longrightarrow> \<not> lastkey c < k" "\<And>x. x \<in> set (concat (map entries B)) \<Longrightarrow> lastkey c < fst x"
    "sorted ks"
    by (rule kids_split [OF inv srt at [unfolded lower_pos_def]]) auto
  have f: "\<exists>lf'. find_lower (\<lambda>i. Inr (ks ! i)) (length ks) lf k = Inr (at, lf')"
    using find_lower_correct [of "\<lambda>i. Inr (ks ! i)" ks lf k] d(10) at by (simp add: reads_def)
  have "k < fst x" if "x \<in> set (concat (map entries B))" for x
  proof -
    have "B \<noteq> []" using that by auto
    then show ?thesis using d(8,9) that by (meson le_less_trans not_less)
  qed
  then show thesis using that [OF d(1-7) _ _ f] d(8) by (simp add: not_less)
qed

lemma descend_split_upper:
  assumes inv: "kids_inv h ks cs" and srt: "sorted_keys (concat (map entries cs))"
    and at: "at = upper_pos k ks"
  obtains A c B where "cs = A @ c # B" "length A = at" "cs ! at = c" "node_inv h c" "fill_ok c"
    "sorted_keys (entries c)"
    "\<And>x. x \<in> set (concat (map entries A)) \<Longrightarrow> fst x \<le> k"
    "\<And>x. x \<in> set (concat (map entries B)) \<Longrightarrow> k < fst x"
    "find_upper (\<lambda>i. Inr (ks ! i)) (length ks) k = Inr at"
proof -
  obtain A c B where d: "cs = A @ c # B" "length A = at" "cs ! at = c" "node_inv h c" "fill_ok c"
    "sorted_keys (entries c)" "\<And>x. x \<in> set (concat (map entries A)) \<Longrightarrow> fst x \<le> k"
    "B \<noteq> [] \<Longrightarrow> \<not> lastkey c \<le> k" "\<And>x. x \<in> set (concat (map entries B)) \<Longrightarrow> lastkey c < fst x"
    "sorted ks"
    by (rule kids_split [OF inv srt at [unfolded upper_pos_def]]) auto
  have f: "find_upper (\<lambda>i. Inr (ks ! i)) (length ks) k = Inr at"
    using find_upper_correct [of "\<lambda>i. Inr (ks ! i)" ks k] d(10) at by (simp add: reads_def)
  have "k < fst x" if "x \<in> set (concat (map entries B))" for x
  proof -
    have "B \<noteq> []" using that by auto
    then show ?thesis using d(8,9) that by (meson less_trans not_le)
  qed
  then show thesis using that [OF d(1-7) _ f] by simp
qed

lemma links_post_context:
  "links_post e e' ls ls' \<Longrightarrow> links_post e e' (X @ ls @ Y) (X @ ls' @ Y)"
  unfolding links_post_def
proof (elim conjE disjE exE, goal_cases)
  case (2 xs a b ys)
  then show ?case
    by (intro conjI disjI2 exI [of _ "X @ xs"] exI [of _ a] exI [of _ b] exI [of _ "ys @ Y"]) auto
qed auto

lemma links_post_fresh:
  "links_post e e' ls ls' \<Longrightarrow> links_post e (e'\<lparr>fresh := Suc (fresh e')\<rparr>) ls ls'"
  unfolding links_post_def same_links_def
proof (elim conjE disjE exE, goal_cases)
  case (2 xs a b ys)
  then show ?case by (intro conjI disjI2 exI [of _ xs] exI [of _ a] exI [of _ b] exI [of _ ys]) auto
qed auto

lemma points_to_mono: "points_to k it ps \<Longrightarrow> set ps \<subseteq> set qs \<Longrightarrow> points_to k it qs"
  by (auto simp: points_to_def)

lemma insert_post_context:
  assumes post: "insert_post h k v c e (c', split, it, inserted, e')"
    and A: "\<And>x. x \<in> set (concat (map entries A)) \<Longrightarrow> fst x < k"
    and c: "entries c \<noteq> []" "B \<noteq> [] \<Longrightarrow> k \<le> lastkey c"
    and B: "\<And>x. x \<in> set (concat (map entries B)) \<Longrightarrow> k < fst x"
  defines "new \<equiv> A @ c' # split_nodes split @ B" and "old \<equiv> A @ c # B"
  shows "inserted = (k \<notin> fst ` set (concat (map entries old)))"
    "concat (map entries new) = ins_list k v (concat (map entries old))"
    "links_post e e' (concat (map leaves old)) (concat (map leaves new))"
    "points_to k it (concat (map surfaces new))"
proof -
  let ?ns = "c' # split_nodes split"
  have p: "inserted = (k \<notin> fst ` set (entries c))" "concat (map entries ?ns) = ins_list k v (entries c)"
    "links_post e e' (leaves c) (concat (map leaves ?ns))" "points_to k it (concat (map surfaces ?ns))"
    using post by (simp_all add: insert_post_def)
  have n: "new = A @ ?ns @ B" by (simp add: new_def)
  show "inserted = (k \<notin> fst ` set (concat (map entries old)))"
    using p(1) A B by (force simp: old_def)
  have l: "ins_list k v (entries c @ concat (map entries B)) = ins_list k v (entries c) @ concat (map entries B)"
    using ins_list_append_left [OF c(1)] c(2) by (cases "B = []") (auto simp: lastkey_def)
  have "ins_list k v (concat (map entries old)) =
      concat (map entries A) @ ins_list k v (entries c) @ concat (map entries B)"
    using ins_list_append_right [of "concat (map entries A)" k v] A l by (simp add: old_def)
  then show "concat (map entries new) = ins_list k v (concat (map entries old))"
    using p(2) by (simp add: n)
  show "links_post e e' (concat (map leaves old)) (concat (map leaves new))"
    using links_post_context [OF p(3), of "concat (map leaves A)" "concat (map leaves B)"]
    by (simp add: n old_def)
  show "points_to k it (concat (map surfaces new))"
    by (rule points_to_mono [OF p(4)]) (auto simp: n)
qed

lemma insert_post_lastkey:
  assumes post: "insert_post h k v c e (c', split, it, inserted, e')" and "entries c \<noteq> []" "k \<le> lastkey c"
  shows "split = None \<Longrightarrow> lastkey c' = lastkey c" "split = Some (sk, m) \<Longrightarrow> lastkey m = lastkey c"
proof -
  have l: "last (ins_list k v (entries c)) = last (entries c)"
    by (rule last_ins_list) (use assms in \<open>auto simp: lastkey_def\<close>)
  show "split = None \<Longrightarrow> lastkey c' = lastkey c"
    using post l by (simp add: insert_post_def split_nodes_def lastkey_def)
  assume s: "split = Some (sk, m)"
  then have "entries m \<noteq> []" "entries c' @ entries m = ins_list k v (entries c)"
    using post entries_not_Nil [of h m] by (simp_all add: insert_post_def split_nodes_def)
  then show "lastkey m = lastkey c" using l by (metis lastkey_def last_appendR)
qed

lemma insert_descend_ok:
  assumes "node_inv h n" "sorted_keys (entries n)" "0 < fresh e" "\<forall>a\<in>set (leaves n). a < fresh e"
  shows "\<exists>r. insert_descend k v n e = Inr r \<and> insert_post h k v n e r"
  using assms
proof (induction n arbitrary: h)
  case (Surface a p)
  then show ?case using insert_surface_ok [of p e a k v] by simp
next
  case (Interior a l lf ks cs)
  have inv: "0 < h" "l = h" "ks \<noteq> []" "length ks \<le> interiorslotmax" "kids_inv (h - 1) ks cs"
    using Interior.prems(1) unfolding node_inv_Interior by blast+
  define at where "at = lower_pos k ks"
  obtain A c B where d: "cs = A @ c # B" "length A = at" "cs ! at = c" "node_inv (h - 1) c" "fill_ok c"
    "sorted_keys (entries c)" "\<And>x. x \<in> set (concat (map entries A)) \<Longrightarrow> fst x < k"
    "B \<noteq> [] \<Longrightarrow> k \<le> lastkey c" "\<And>x. x \<in> set (concat (map entries B)) \<Longrightarrow> k < fst x"
    and fl: "\<exists>lf'. find_lower (\<lambda>i. Inr (ks ! i)) (length ks) lf k = Inr (at, lf')"
    using descend_split [OF inv(5) _ at_def] Interior.prems(2) by (metis entries_simps(2))
  from fl obtain lf' where fl: "find_lower (\<lambda>i. Inr (ks ! i)) (length ks) lf k = Inr (at, lf')" by blast
  have ne: "entries c \<noteq> []" using entries_not_Nil d(4,5) by blast
  have "\<exists>r. insert_descend k v c e = Inr r \<and> insert_post (h - 1) k v c e r"
    using Interior.IH [of c "h - 1"] Interior.prems(3,4) d by simp
  then obtain c' split it inserted e1 where
    r: "insert_descend k v c e = Inr (c', split, it, inserted, e1)"
      "insert_post (h - 1) k v c e (c', split, it, inserted, e1)" by (metis prod.exhaust)
  note ctx = insert_post_context [OF r(2) d(7) ne d(8) d(9)]
  have at: "at < length cs" "cs[at := c'] = A @ c' # B" using d(1,2) by auto
  note start = insert_descend.simps fl bindE_simps prod.case at d(3) r(1) Let_def
  show ?case
  proof (cases split)
    case None
    have "kids_inv (h - 1) ks (A @ c' # B)"
      using kids_inv_replace [OF inv(5) [unfolded d(1)], of c'] r(2) None d(5)
        insert_post_lastkey(1) [OF r(2) ne d(8) None]
      by (simp add: insert_post_def split_nodes_def)
    then have "insert_post h k v (Interior a l lf ks cs) e (Interior a l lf' ks (A @ c' # B), None, it, inserted, e1)"
      using ctx inv None by (intro insert_post_whole) (simp_all add: node_inv_Interior split_nodes_def d(1) del: node_inv.simps(2))
    then show ?thesis using None at d(3) by (simp add: fl r(1))
  next
    case (Some s)
    then obtain nk nc where s: "split = Some (nk, nc)" by (cases s) auto
    define KS CS where "KS = insert_at at nk ks" and "CS = A @ c' # nc # B"
    have cs': "insert_at (Suc at) nc (A @ c' # B) = CS"
      using d(2) by (simp add: CS_def insert_at_def)
    have c': "node_inv (h - 1) c'" "fill_ok c'" "node_inv (h - 1) nc" "fill_ok nc" "nk = lastkey c'"
      using r(2) s by (simp_all add: insert_post_def split_nodes_def)
    have kids: "kids_inv (h - 1) KS CS"
      using kids_inv_put [OF inv(5) [unfolded d(1)] c'(1-4)] insert_post_lastkey(2) [OF r(2) ne d(8) s]
      by (simp add: KS_def CS_def c'(5) d(2))
    have old: "entries (Interior a l lf ks cs) = concat (map entries (A @ c # B))"
      "leaves (Interior a l lf ks cs) = concat (map leaves (A @ c # B))" by (simp_all add: d(1))
    have ctx': "inserted = (k \<notin> fst ` set (entries (Interior a l lf ks cs)))"
      "concat (map entries CS) = ins_list k v (entries (Interior a l lf ks cs))"
      "links_post e e1 (leaves (Interior a l lf ks cs)) (concat (map leaves CS))"
      "points_to k it (concat (map surfaces CS))"
      using ctx s unfolding old by (simp_all add: split_nodes_def CS_def)
    have len: "length KS = Suc (length ks)"
      using d(1,2) kids_inv_length [OF inv(5)] by (simp add: KS_def)
    show ?thesis
    proof (cases "length ks = interiorslotmax")
      case True
      let ?m = mininteriorslots and ?e = "e1\<lparr>fresh := Suc (fresh e1)\<rparr>"
      let ?L = "Interior a l lf' (take ?m KS) (take (Suc ?m) CS)"
      let ?R = "Interior (fresh e1) l 0 (drop (Suc ?m) KS) (drop (Suc ?m) CS)"
      have m: "?m < length KS" "length KS - Suc ?m = ?m" "0 < ?m" "?m \<le> interiorslotmax"
        using True len by (simp_all add: limits)
      have "split_and_put at nk nc ks (A @ c' # B) =
          ((take ?m KS, take (Suc ?m) CS), KS ! ?m, (drop (Suc ?m) KS, drop (Suc ?m) CS))"
        using split_and_put_cut [OF True, of "A @ c' # B" at nk nc] kids_inv_length [OF inv(5)] True at(1) d(1)
        by (simp add: KS_def cs' Let_def)
      then have "insert_descend k v (Interior a l lf ks cs) e =
          Inr (?L, Some (KS ! ?m, ?R), it, inserted, ?e)"
        using s at d(3) True fl [unfolded True] by (simp add: r(1) allocate_interior_def)
      moreover have "insert_post h k v (Interior a l lf ks cs) e (?L, Some (KS ! ?m, ?R), it, inserted, ?e)"
      proof (rule insert_post_split)
        have join: "concat (map f (take (Suc ?m) CS)) @ concat (map f (drop (Suc ?m) CS)) = concat (map f CS)"
          for f :: "('a, 'b) node \<Rightarrow> 'z list"
          by (metis append_take_drop_id concat_append map_append)
        note kids_inv_cut [OF kids m(1)]
        then show "node_inv h ?L" "node_inv h ?R" "KS ! ?m = lastkey ?L"
          unfolding node_inv_Interior using inv m by auto
        show "entries ?L @ entries ?R = ins_list k v (entries (Interior a l lf ks cs))"
          using ctx'(2) join [of entries] by simp
        show "links_post e ?e (leaves (Interior a l lf ks cs)) (leaves ?L @ leaves ?R)"
          using links_post_fresh [OF ctx'(3)] join [of leaves] by simp
        show "points_to k it (surfaces ?L @ surfaces ?R)" using ctx'(4) join [of surfaces] by simp
      qed (use ctx'(1) m in simp_all)
      ultimately show ?thesis by blast
    next
      case False
      have "insert_descend k v (Interior a l lf ks cs) e = Inr (Interior a l lf' KS CS, None, it, inserted, e1)"
        using s at d(3) False by (simp add: fl r(1) put_child_def cs' KS_def)
      moreover have "insert_post h k v (Interior a l lf ks cs) e (Interior a l lf' KS CS, None, it, inserted, e1)"
      proof (rule insert_post_whole)
        have "KS \<noteq> []" using len by auto
        then show "node_inv h (Interior a l lf' KS CS)"
          unfolding node_inv_Interior using inv kids len False by simp
      qed (use ctx' len in simp_all)
      ultimately show ?thesis by blast
    qed
  qed
qed

section \<open>The linked list of surfaces\<close>

fun chain :: "('k, 'v) tree_env \<Rightarrow> nat \<Rightarrow> nat list \<Rightarrow> bool" where
  "chain e prev [] \<longleftrightarrow> True"
| "chain e prev (a # ls) \<longleftrightarrow>
     preceding_of e a = prev \<and> next_of e a = (if ls = [] then 0 else hd ls) \<and> chain e a ls"

definition linked :: "('k, 'v) tree_env \<Rightarrow> nat list \<Rightarrow> bool" where
  "linked e ls \<longleftrightarrow> distinct ls \<and> 0 \<notin> set ls \<and> chain e 0 ls \<and>
     headsurface e = (if ls = [] then 0 else hd ls) \<and> last_surface e = (if ls = [] then 0 else last ls)"

lemma chain_cong:
  "chain e prev ls \<Longrightarrow> (\<And>a. a \<in> set ls \<Longrightarrow> next_of e' a = next_of e a \<and> preceding_of e' a = preceding_of e a) \<Longrightarrow>
   chain e' prev ls"
  by (induction ls arbitrary: prev) auto

lemma link_after_simps:
  "a \<noteq> b \<Longrightarrow> next_of (link_after a b e) = (next_of e)(b := next_of e a, a := b)"
  "preceding_of (link_after a b e) =
     (if next_of e a = 0 then (preceding_of e)(b := a) else (preceding_of e)(next_of e a := b, b := a))"
  "headsurface (link_after a b e) = headsurface e"
  "last_surface (link_after a b e) = (if next_of e a = 0 then b else last_surface e)"
  by (auto simp: link_after_def Let_def fun_eq_iff)

lemma chain_next: "chain e prev (xs @ a # ys) \<Longrightarrow> next_of e a = (if ys = [] then 0 else hd ys)"
  by (induction xs arbitrary: prev) auto

lemma link_after_frame:
  "a \<noteq> b \<Longrightarrow> x \<noteq> a \<Longrightarrow> x \<noteq> b \<Longrightarrow> next_of (link_after a b e) x = next_of e x"
  "x \<noteq> b \<Longrightarrow> x \<noteq> next_of e a \<Longrightarrow> preceding_of (link_after a b e) x = preceding_of e x"
  by (simp_all add: link_after_simps)

lemma chain_split:
  assumes "chain e prev (xs @ a # ys)" "distinct (xs @ a # ys)" "b \<notin> set (xs @ a # ys)" "0 \<notin> set (xs @ a # ys)"
  shows "chain (link_after a b e) prev (xs @ a # b # ys)"
  using assms
proof (induction xs arbitrary: prev)
  case Nil
  have nx: "next_of e a = (if ys = [] then 0 else hd ys)" using Nil.prems(1) by simp
  have ab: "a \<noteq> b" using Nil.prems(3) by auto
  have "chain (link_after a b e) b ys"
  proof (cases ys)
    case (Cons c zs)
    have n: "next_of e a = c" "c \<noteq> 0" "c \<noteq> a" "c \<noteq> b" using nx Cons Nil.prems by auto
    have "chain (link_after a b e) c zs"
    proof (rule chain_cong [of e c zs])
      show "chain e c zs" using Nil.prems(1) Cons by simp
      fix x assume "x \<in> set zs"
      then have "x \<noteq> a" "x \<noteq> b" "x \<noteq> next_of e a" using Nil.prems Cons n by auto
      then show "next_of (link_after a b e) x = next_of e x \<and> preceding_of (link_after a b e) x = preceding_of e x"
        using ab by (simp add: link_after_frame)
    qed
    moreover have "next_of (link_after a b e) c = next_of e c" using n ab by (simp add: link_after_frame)
    moreover have "preceding_of (link_after a b e) c = b" using n by (simp add: link_after_simps)
    ultimately show ?thesis using Cons Nil.prems(1) by simp
  qed simp
  moreover have "preceding_of (link_after a b e) a = preceding_of e a"
    using ab nx Nil.prems(2,4) by (intro link_after_frame) (cases ys, auto)
  moreover have "next_of (link_after a b e) a = b" "next_of (link_after a b e) b = next_of e a"
    "preceding_of (link_after a b e) b = a"
    using ab by (simp_all add: link_after_simps)
  ultimately show ?case using Nil.prems(1) nx by simp
next
  case (Cons x xs)
  have nx: "next_of e a = (if ys = [] then 0 else hd ys)" by (rule chain_next [OF Cons.prems(1)])
  then have "x \<noteq> next_of e a" "x \<noteq> a" "x \<noteq> b" "a \<noteq> b" using Cons.prems(2-4) by (cases ys; auto)+
  moreover have "hd (xs @ a # b # ys) = hd (xs @ a # ys)" by (cases xs) auto
  moreover have "chain (link_after a b e) x (xs @ a # b # ys)" by (rule Cons.IH) (use Cons.prems in auto)
  ultimately show ?case using Cons.prems(1) by (simp add: link_after_frame)
qed

lemma linked_split:
  assumes "linked e (xs @ a # ys)" "b \<notin> set (xs @ a # ys)" "b \<noteq> 0"
  shows "linked (link_after a b e) (xs @ a # b # ys)"
proof -
  have c: "chain e 0 (xs @ a # ys)" using assms(1) by (simp add: linked_def)
  have nx: "next_of e a = 0 \<longleftrightarrow> ys = []"
    using chain_next [OF c] assms(1) by (cases ys) (auto simp: linked_def)
  have "chain (link_after a b e) 0 (xs @ a # b # ys)"
    using assms by (intro chain_split [OF c]) (auto simp: linked_def)
  then show ?thesis using assms nx by (auto simp: linked_def link_after_simps hd_append)
qed

lemma linked_cong: "same_links e e' \<Longrightarrow> linked e ls = linked e' ls"
proof -
  assume "same_links e e'"
  then have "chain e prev ls = chain e' prev ls" for prev
    by (induction ls arbitrary: prev) (auto simp: same_links_def)
  with \<open>same_links e e'\<close> show ?thesis by (simp add: linked_def same_links_def)
qed

lemma links_post_linked:
  assumes "links_post e e' ls ls'" "linked e ls" "\<forall>a\<in>set ls. a < fresh e" "0 < fresh e"
  shows "linked e' ls' \<and> (\<forall>a\<in>set ls'. a < fresh e') \<and> 0 < fresh e'"
  using assms(1) unfolding links_post_def
proof (elim conjE disjE exE, goal_cases)
  case 1
  then show ?case using assms linked_cong [of e e' ls] by auto
next
  case (2 xs a b ys)
  have "b \<notin> set ls" using assms(3) 2 by (meson leD)
  then have "b \<notin> set (xs @ a # ys)" "b \<noteq> 0" using 2 assms(4) by auto
  then have "linked (link_after a b e) (xs @ a # b # ys)"
    using linked_split assms(2) 2 by blast
  then have "linked e' ls'" using linked_cong [of "link_after a b e" e'] 2 by simp
  moreover have "x < fresh e'" if "x \<in> set ls'" for x
  proof -
    have "x = b \<or> x < fresh e" using that 2 assms(3) by auto
    then show ?thesis using 2 by auto
  qed
  moreover have "0 < fresh e'" using \<open>b \<noteq> 0\<close> 2 by linarith
  ultimately show ?case by blast
qed

section \<open>The tree\<close>

definition tree_inv :: "('k::linorder, 'v) btree \<Rightarrow> bool" where
  "tree_inv t \<longleftrightarrow> 0 < fresh (env t) \<and> sorted_keys (contents t) \<and> tree_size t = length (contents t) \<and>
     linked (env t) (map fst (tree_surfaces t)) \<and>
     (\<forall>a\<in>fst ` set (tree_surfaces t). a < fresh (env t)) \<and>
     (\<forall>r. root t = Some r \<longrightarrow> node_inv (level r) r \<and> entries r \<noteq> [])"

definition empty_tree :: "'k \<Rightarrow> 'v \<Rightarrow> ('k, 'v) btree" where
  "empty_tree k0 v0 =
     \<lparr>root = None,
      env = \<lparr>default_key = k0, default_value = v0, next_of = (\<lambda>_. 0), preceding_of = (\<lambda>_. 0),
             headsurface = 0, last_surface = 0, fresh = 1\<rparr>,
      tree_size = 0\<rparr>"

lemma empty_tree_inv [simp]: "tree_inv (empty_tree k0 v0)" "contents (empty_tree k0 v0) = []"
  by (auto simp: tree_inv_def empty_tree_def contents_def tree_surfaces_def linked_def)

lemma length_ins_list:
  "sorted_keys xs \<Longrightarrow> length (ins_list k v xs) = (if k \<in> fst ` set xs then length xs else Suc (length xs))"
  by (induction xs) (auto dest: order.strict_trans)

lemma level_node_inv: "node_inv h n \<Longrightarrow> level n = h"
  by (cases n) auto

lemma insert_start_ok:
  assumes inv: "tree_inv t"
  shows "\<exists>it t'. insert_start k v t = Inr (it, k \<notin> fst ` set (contents t), t') \<and> tree_inv t' \<and>
    contents t' = ins_list k v (contents t) \<and> points_to k it (tree_surfaces t')"
proof -
  define start :: "('a, 'b) node \<times> ('a, 'b) tree_env" where
    "start = (case root t of Some r \<Rightarrow> (r, env t)
       | None \<Rightarrow> (Surface (fresh (env t)) (initialize (default_key (env t)) (default_value (env t))),
           (env t)\<lparr>fresh := Suc (fresh (env t)), next_of := (next_of (env t))(fresh (env t) := 0),
             preceding_of := (preceding_of (env t))(fresh (env t) := 0),
             headsurface := fresh (env t), last_surface := fresh (env t)\<rparr>))"
  obtain r e where s: "start = (r, e)" by force
  have r: "node_inv (level r) r" "entries r = contents t" "linked e (leaves r)" "\<forall>a\<in>set (leaves r). a < fresh e"
    "0 < fresh e"
    using inv s by (auto simp: tree_inv_def start_def contents_def tree_surfaces_def leaves_def linked_def
        split: option.splits)
  have pre: "(case root t of Some r \<Rightarrow> Inr (r, env t)
            | None \<Rightarrow> bindE (allocate_surface (env t)) (\<lambda>(w, p, e).
                Inr (Surface w p, e\<lparr>headsurface := w, last_surface := w\<rparr>))) = Inr (r, e)"
    using s inv by (auto simp: start_def allocate_surface_def Let_def tree_inv_def split: option.splits)
  have srt: "sorted_keys (entries r)" using inv r(2) by (simp add: tree_inv_def)
  obtain r1 split it inserted e1 where d: "insert_descend k v r e = Inr (r1, split, it, inserted, e1)"
    and post: "insert_post (level r) k v r e (r1, split, it, inserted, e1)"
    using insert_descend_ok [OF r(1) srt r(5,4), of k v] by (metis prod.exhaust)
  define t' where "t' = t\<lparr>root := Some (case split of None \<Rightarrow> r1 | Some (newkey, newchild) \<Rightarrow>
        Interior (fresh e1) (level r1 + 1) 0 [newkey] [r1, newchild]),
      env := (case split of None \<Rightarrow> e1 | Some _ \<Rightarrow> e1\<lparr>fresh := Suc (fresh e1)\<rparr>),
      tree_size := if inserted then Suc (tree_size t) else tree_size t\<rparr>"
  have res: "insert_start k v t = Inr (it, inserted, t')"
    unfolding insert_start_def pre by (auto simp: d allocate_interior_def t'_def split: option.splits)
  have new: "contents t' = ins_list k v (contents t)" "inserted = (k \<notin> fst ` set (contents t))"
    "map fst (tree_surfaces t') = concat (map leaves (r1 # split_nodes split))"
    "tree_surfaces t' = concat (map surfaces (r1 # split_nodes split))"
    using post r(2)
    by (auto simp: insert_post_def t'_def contents_def tree_surfaces_def split_nodes_def leaves_def map_concat
             split: option.splits)
  have "links_post e (env t') (leaves r) (map fst (tree_surfaces t'))"
    using post links_post_fresh unfolding new(3)
    by (auto simp: insert_post_def t'_def split: option.splits)
  from links_post_linked [OF this r(3-5)]
  have links: "linked (env t') (map fst (tree_surfaces t'))" "\<forall>a\<in>fst ` set (tree_surfaces t'). a < fresh (env t')"
    "0 < fresh (env t')" by auto
  have "node_inv (level r') r' \<and> entries r' \<noteq> []" if "root t' = Some r'" for r'
  proof (cases split)
    case None
    then show ?thesis using that post r(2) level_node_inv [of "level r" r1] new(1)
      by (auto simp: insert_post_def split_nodes_def t'_def contents_def)
  next
    case (Some s)
    then obtain nk nc where s: "split = Some (nk, nc)" by (cases s) auto
    then have "node_inv (level r) r1" "node_inv (level r) nc" "fill_ok r1" "fill_ok nc" "nk = lastkey r1"
      using post by (auto simp: insert_post_def split_nodes_def)
    then show ?thesis using that s level_node_inv [of "level r" r1] entries_not_Nil [of "level r" r1]
      by (auto simp: t'_def limits)
  qed
  then have "tree_inv t'"
    using links new inv sorted_ins_list [of "contents t" k v] length_ins_list [of "contents t" k v]
    by (auto simp: tree_inv_def t'_def)
  then show ?thesis using res new post by (auto simp: insert_post_def)
qed

end
