(* ===== verification/BTreeFind.thy ===== *)
theory BTreeFind
  imports BTreeInsert
begin

text \<open>
  Correctness of the lookups of \<^verbatim>\<open>src/src/stx/btree.h\<close>, \<^verbatim>\<open>direct\<close>, \<^verbatim>\<open>find\<close>, \<^verbatim>\<open>lower_bound\<close> and
  \<^verbatim>\<open>upper_bound\<close>, and the tree as a finite map.
\<close>

section \<open>The position an iterator has in the sequence of entries\<close>

fun it_index :: "(nat \<times> ('k, 'v) surface_node) list \<Rightarrow> nat \<times> nat \<Rightarrow> nat" where
  "it_index [] it = 0"
| "it_index ((a, p) # ps) it =
     (if fst it = a then snd it else length (page_list p) + it_index ps it)"

lemma it_index_skip:
  "fst it \<notin> fst ` set xs \<Longrightarrow>
   it_index (xs @ ys) it = length (concat (map (page_list \<circ> snd) xs)) + it_index ys it"
  by (induction xs it rule: it_index.induct) auto





text \<open>The surface the lookups reach: every entry before it is below the key, every entry behind it is not.\<close>

definition reaches :: "('k::linorder \<Rightarrow> bool) \<Rightarrow> ('k \<Rightarrow> bool) \<Rightarrow> ('k, 'v) node \<Rightarrow> nat \<times> ('k, 'v) surface_node \<Rightarrow> bool" where
  "reaches lo hi n ap \<longleftrightarrow> (\<exists>xs ys. surfaces n = xs @ ap # ys \<and> surface_inv (snd ap) \<and>
     (\<forall>x\<in>set (concat (map (page_list \<circ> snd) xs)). lo (fst x)) \<and>
     (\<forall>y\<in>set (concat (map (page_list \<circ> snd) ys)). hi (fst y)))"

lemma reaches_context:
  assumes "reaches lo hi c ap"
    "\<And>x. x \<in> set (concat (map entries A)) \<Longrightarrow> lo (fst x)" "\<And>x. x \<in> set (concat (map entries B)) \<Longrightarrow> hi (fst x)"
  shows "reaches lo hi (Interior a l lf ks (A @ c # B)) ap"
proof -
  from assms(1) obtain xs ys where s: "surfaces c = xs @ ap # ys" "surface_inv (snd ap)"
    "\<forall>x\<in>set (concat (map (page_list \<circ> snd) xs)). lo (fst x)"
    "\<forall>y\<in>set (concat (map (page_list \<circ> snd) ys)). hi (fst y)" by (auto simp: reaches_def)
  have "\<forall>x\<in>set (concat (map (page_list \<circ> snd) (concat (map surfaces A) @ xs))). lo (fst x)"
    using s(3) assms(2) by (fastforce simp: entries_def)
  moreover have "\<forall>x\<in>set (concat (map (page_list \<circ> snd) (ys @ concat (map surfaces B)))). hi (fst x)"
    using s(4) assms(3) by (fastforce simp: entries_def)
  moreover have "surfaces (Interior a l lf ks (A @ c # B)) =
      (concat (map surfaces A) @ xs) @ ap # ys @ concat (map surfaces B)" by (simp add: s(1))
  ultimately show ?thesis unfolding reaches_def using s(2) by blast
qed

lemma surface_lower_ok:
  assumes "node_inv h n" "sorted_keys (entries n)"
  shows "\<exists>ap. surface_lower k n = Inr ap \<and> reaches (\<lambda>x. x < k) (\<lambda>x. k < x) n ap"
  using assms
proof (induction n arbitrary: h)
  case (Surface a p)
  then show ?case
    by (auto simp: reaches_def intro!: exI [of _ "[]"])
next
  case (Interior a l lf ks cs)
  have inv: "kids_inv (h - 1) ks cs" using Interior.prems(1) unfolding node_inv_Interior by blast
  define at where "at = lower_pos k ks"
  obtain A c B where d: "cs = A @ c # B" "length A = at" "cs ! at = c" "node_inv (h - 1) c"
    "sorted_keys (entries c)" "\<And>x. x \<in> set (concat (map entries A)) \<Longrightarrow> fst x < k"
    "\<And>x. x \<in> set (concat (map entries B)) \<Longrightarrow> k < fst x"
    and fl: "\<exists>lf'. find_lower (\<lambda>i. Inr (ks ! i)) (length ks) lf k = Inr (at, lf')"
    using descend_split [OF inv _ at_def] Interior.prems(2) by (metis entries_simps(2))
  obtain ap where ap: "surface_lower k c = Inr ap" "reaches (\<lambda>x. x < k) (\<lambda>x. k < x) c ap"
    using Interior.IH [of c "h - 1"] d by auto
  from reaches_context [OF ap(2), of A B a l lf ks] d(1,6,7)
  have "reaches (\<lambda>x. x < k) (\<lambda>x. k < x) (Interior a l lf ks cs) ap" by simp
  then show ?case using ap(1) fl d(1-3) by (cases ap) auto
qed


text \<open>What a lookup needs of the surface it reached.\<close>

lemma reaches_tree:
  assumes "tree_inv t" "root t = Some r" "reaches lo hi r (a, p)"
  obtains X Y where "contents t = X @ page_list p @ Y" "\<forall>x\<in>set X. lo (fst x)" "\<forall>y\<in>set Y. hi (fst y)"
    "surface_inv p" "sorted_keys (page_list p)" "\<And>slot. it_index (tree_surfaces t) (a, slot) = length X + slot"
proof -
  obtain xs ys where s: "surfaces r = xs @ (a, p) # ys" "surface_inv p"
    "\<forall>x\<in>set (concat (map (page_list \<circ> snd) xs)). lo (fst x)"
    "\<forall>y\<in>set (concat (map (page_list \<circ> snd) ys)). hi (fst y)" using assms(3) by (auto simp: reaches_def)
  have "distinct (map fst (surfaces r))" using assms(1,2) by (simp add: tree_inv_def linked_def tree_surfaces_def)
  then have "a \<notin> fst ` set xs" using s(1) by auto
  then have "it_index (tree_surfaces t) (a, slot) = length (concat (map (page_list \<circ> snd) xs)) + slot" for slot
    using it_index_skip [of "(a, slot)" xs] assms(2) s(1) by (simp add: tree_surfaces_def)
  moreover have c: "contents t = concat (map (page_list \<circ> snd) xs) @ page_list p @ concat (map (page_list \<circ> snd) ys)"
    using assms(2) s(1) by (simp add: contents_def entries_def)
  moreover have "sorted_keys (page_list p)" using assms(1) c by (simp add: tree_inv_def sorted_wrt_append)
  ultimately show thesis using that s(2-4) by blast
qed

lemma root_inv: "tree_inv t \<Longrightarrow> root t = Some r \<Longrightarrow> node_inv (level r) r \<and> sorted_keys (entries r)"
  by (auto simp: tree_inv_def contents_def)

lemma page_find_lower:
  "surface_inv p \<Longrightarrow> sorted_keys (page_list p) \<Longrightarrow>
   \<exists>lf. find_lower (\<lambda>i. get_key i p) (occupants p) (last_found p) k = Inr (lower_pos k (map fst (page_list p)), lf)"
  using find_lower_correct [OF reads_page, of p "last_found p" k] strict_sorted_imp_sorted by fastforce




lemma map_of_lower_pos:
  assumes "sorted_keys xs"
  shows "map_of xs k = (let p = lower_pos k (map fst xs) in
    if p < length xs \<and> fst (xs ! p) = k then Some (snd (xs ! p)) else None)"
proof (cases "k \<in> fst ` set xs")
  case True
  then have p: "lower_pos k (map fst xs) < length xs" "fst (xs ! lower_pos k (map fst xs)) = k"
    using lower_pos_present [OF assms refl] by auto
  moreover have "distinct (map fst xs)" using assms by (rule strict_sorted_iff [THEN iffD1, THEN conjunct2])
  ultimately have "map_of xs k = Some (snd (xs ! lower_pos k (map fst xs)))"
    by (metis map_of_eq_Some_iff nth_mem prod.collapse)
  then show ?thesis using p by simp
next
  case False
  then have "map_of xs k = None" by (simp add: map_of_eq_None_iff)
  then show ?thesis using False lower_pos_present [OF assms refl, of k] by (simp add: Let_def)
qed

lemma lookup_page:
  assumes "tree_inv t" "root t = Some r"
  obtains a p q lf where "surface_lower k r = Inr (a, p)" "surface_inv p" "(a, p) \<in> set (tree_surfaces t)"
    "find_lower (\<lambda>i. get_key i p) (occupants p) (last_found p) k = Inr (q, lf)"
    "k \<in> fst ` set (contents t) \<longleftrightarrow> q < occupants p \<and> key_of q p = k"
    "map_of (contents t) k = (if q < occupants p \<and> key_of q p = k then Some (value_of q p) else None)"
proof -
  obtain a p where ap: "surface_lower k r = Inr (a, p)" "reaches (\<lambda>x. x < k) (\<lambda>x. k < x) r (a, p)"
    using surface_lower_ok [of "level r" r k] root_inv [OF assms] by auto
  obtain X Y where xy: "contents t = X @ page_list p @ Y" "\<forall>x\<in>set X. fst x < k" "\<forall>y\<in>set Y. k < fst y"
    "surface_inv p" "sorted_keys (page_list p)" "\<And>slot. it_index (tree_surfaces t) (a, slot) = length X + slot"
    using reaches_tree [OF assms ap(2)] by blast
  define q where "q = lower_pos k (map fst (page_list p))"
  have len: "length (page_list p) = occupants p" using xy(4) by simp
  obtain lf where lf: "find_lower (\<lambda>i. get_key i p) (occupants p) (last_found p) k = Inr (q, lf)"
    using page_find_lower [OF xy(4,5), of k] by (auto simp: q_def)
  have "map_of X k = None" "map_of Y k = None" using xy(2,3) by (auto simp: map_of_eq_None_iff)
  then have "map_of (contents t) k = map_of (page_list p) k" by (simp add: xy(1) map_add_def split: option.split)
  also have "\<dots> = (if q < occupants p \<and> fst (page_list p ! q) = k then Some (snd (page_list p ! q)) else None)"
    using map_of_lower_pos [OF xy(5), of k] by (simp only: Let_def q_def len)
  also have "\<dots> = (if q < occupants p \<and> key_of q p = k then Some (value_of q p) else None)"
    using entry_of [OF xy(4), of q] by (cases "q < occupants p") simp_all
  finally have m: "map_of (contents t) k = (if q < occupants p \<and> key_of q p = k then Some (value_of q p) else None)" .
  have k: "k \<in> fst ` set (contents t) \<longleftrightarrow> q < occupants p \<and> key_of q p = k"
    using map_of_eq_None_iff [of "contents t" k] unfolding m
    by (cases "q < occupants p \<and> key_of q p = k") simp_all
  have "(a, p) \<in> set (tree_surfaces t)" using ap(2) assms(2) by (auto simp: reaches_def tree_surfaces_def)
  then show thesis using that [OF ap(1) xy(4) _ lf k m] by simp
qed

lemma direct_ok:
  assumes "tree_inv t" shows "direct k t = Inr (map_of (contents t) k)"
proof (cases "root t")
  case None
  then show ?thesis by (simp add: direct_def contents_def)
next
  case (Some r)
  obtain a p q lf where d: "surface_lower k r = Inr (a, p)" "surface_inv p" "(a, p) \<in> set (tree_surfaces t)"
    "find_lower (\<lambda>i. get_key i p) (occupants p) (last_found p) k = Inr (q, lf)"
    "k \<in> fst ` set (contents t) \<longleftrightarrow> q < occupants p \<and> key_of q p = k"
    "map_of (contents t) k = (if q < occupants p \<and> key_of q p = k then Some (value_of q p) else None)"
    using lookup_page [OF assms Some] .
  have "get_key q p = Inr (key_of q p)" "get_value q p = Inr (value_of q p)" if "q < occupants p"
    using surface_invD(6) [OF d(2) that] by (auto simp: get_key_def get_value_def key_of_def value_of_def)
  then show ?thesis using Some by (simp add: direct_def d(1,4,6))
qed

lemma find_ok:
  assumes "tree_inv t"
  shows "\<exists>it. find k t = Inr it \<and>
    (if k \<in> fst ` set (contents t) then points_to k it (tree_surfaces t) else it = end_it t)"
proof (cases "root t")
  case None
  then show ?thesis by (simp add: find_def contents_def)
next
  case (Some r)
  obtain a p q lf where d: "surface_lower k r = Inr (a, p)" "surface_inv p" "(a, p) \<in> set (tree_surfaces t)"
    "find_lower (\<lambda>i. get_key i p) (occupants p) (last_found p) k = Inr (q, lf)"
    "k \<in> fst ` set (contents t) \<longleftrightarrow> q < occupants p \<and> key_of q p = k"
    "map_of (contents t) k = (if q < occupants p \<and> key_of q p = k then Some (value_of q p) else None)"
    using lookup_page [OF assms Some] .
  have "points_to k (a, q) (tree_surfaces t)" if "q < occupants p" "key_of q p = k"
    using that d(2,3) entry_of [OF d(2), of q] by (intro points_toI [of _ p]) simp_all
  moreover define it where "it = (if q < occupants p \<and> key_of q p = k then (a, q) else end_it t)"
  moreover have "find k t = Inr it" using Some d(2) by (simp add: find_def d(1,4) it_def)
  ultimately show ?thesis by (simp add: d(5))
qed

section \<open>The tree as a map\<close>

definition insert_map :: "'k::linorder \<Rightarrow> 'v \<Rightarrow> ('k, 'v) btree \<Rightarrow> ('k, 'v) btree result" where
  "insert_map k v t = bindE (insert_start k v t) (\<lambda>(it, inserted, t'). Inr t')"

interpretation btree_map: map_store tree_inv "\<lambda>t. map_of (contents t)" insert_map direct
proof
  fix t :: "('k::linorder, 'v) btree" and k v
  assume inv: "tree_inv t"
  obtain it t' where i: "insert_start k v t = Inr (it, k \<notin> fst ` set (contents t), t')" "tree_inv t'"
    "contents t' = ins_list k v (contents t)" using insert_start_ok [OF inv, of k v] by blast
  have "sorted_keys (contents t)" using inv by (simp add: tree_inv_def)
  then show "\<exists>t'. insert_map k v t = Inr t' \<and> tree_inv t' \<and> map_of (contents t') =
      (if k \<in> dom (map_of (contents t)) then map_of (contents t) else (map_of (contents t))(k \<mapsto> v))"
    using i map_of_ins_list [of "contents t" k v] by (simp add: insert_map_def dom_map_of_conv_image_fst)
  show "direct k t = Inr (map_of (contents t) k)" by (rule direct_ok [OF inv])
qed

lemma insert_range_each: "insert_range xs t = insert_each insert_map xs t"
proof (induction xs arbitrary: t)
  case (Cons x xs)
  then show ?case
    by (cases "insert_start (fst x) (snd x) t") (auto simp: insert_map_def split: prod.splits)
qed simp

lemma insert_range_ok:
  "\<exists>t. insert_range xs (empty_tree k0 v0) = Inr t \<and> tree_inv t \<and> map_of (contents t) = map_of xs"
  using btree_map.insert_each_ok [of "empty_tree k0 v0" xs] by (auto simp: insert_range_each)

section \<open>Height\<close>





section \<open>Correctness of the tree\<close>

text \<open>
  C7.  An insertion into a well formed tree returns (no page throws), keeps the tree well formed
  (balance, fill limits, tight separators, sorted entries, linked surfaces, entry count), inserts the
  entry into the sorted sequence unless its key is there, reports which of the two happened, and
  returns an iterator to an entry with the key.
\<close>

theorem insert_start_correct:
  assumes "tree_inv t"
  shows "\<exists>it t'. insert_start k v t = Inr (it, k \<notin> fst ` set (contents t), t') \<and> tree_inv t' \<and>
    contents t' = ins_list k v (contents t) \<and> points_to k it (tree_surfaces t')"
  by (rule insert_start_ok [OF assms])

theorem insert_start_correct_witness:
  "\<exists>it t'. insert_start (7 :: nat) ''x'' (empty_tree 0 []) =
      Inr (it, 7 \<notin> fst ` set (contents (empty_tree (0 :: nat) ([] :: string))), t') \<and> tree_inv t' \<and>
    contents t' = ins_list 7 ''x'' (contents (empty_tree 0 [])) \<and> points_to 7 it (tree_surfaces t')"
  by (rule insert_start_correct) simp


text \<open>
  C10.  In a well formed tree \<^verbatim>\<open>find\<close> returns an iterator to the entry with the key when there is one
  and \<^verbatim>\<open>end()\<close> when there is none.
\<close>

theorem find_correct:
  assumes "tree_inv t"
  shows "\<exists>it. find k t = Inr it \<and>
    (if k \<in> fst ` set (contents t) then points_to k it (tree_surfaces t) else it = end_it t)"
  by (rule find_ok [OF assms])

theorem find_correct_witness:
  "\<exists>t it. insert_range [(5 :: nat, ''e''), (3, ''c''), (8, ''h'')] (empty_tree 0 []) = Inr t \<and>
    find 3 t = Inr it \<and> points_to 3 it (tree_surfaces t)"
proof -
  obtain t where t: "insert_range [(5 :: nat, ''e''), (3, ''c''), (8, ''h'')] (empty_tree 0 []) = Inr t"
    "tree_inv t" "map_of (contents t) = map_of [(5, ''e''), (3, ''c''), (8, ''h'')]"
    using insert_range_ok [of "[(5 :: nat, ''e''), (3, ''c''), (8, ''h'')]" 0 "[]"] by blast
  then have "3 \<in> fst ` set (contents t)" using map_of_eq_None_iff [of "contents t" 3] by simp
  then show ?thesis using t find_correct [OF t(2), of 3] by auto
qed





end
