(* ===== verification/BTreeErase.thy ===== *)
theory BTreeErase
  imports BTreeFind
begin

text \<open>
  Removal from the B+-tree of \<^verbatim>\<open>src/src/stx/btree.h\<close>: \<^verbatim>\<open>erase_one\<close>, the descent with its left and
  right neighbours, and the operations that repair an underflow.  In the source the call for a child
  repairs the child's underflow at its end, working on the parent's slots; here the same step is
  the first one of the parent's frame after the recursive call.  The neighbours of a page that have
  another parent are only asked how full they are.  A removal that finds nothing leaves the tree as it
  is: the positions the pages remember from the search are not written back.  The proofs are in
  \<^verbatim>\<open>BTreeRepair\<close> and \<^verbatim>\<open>BTreeMap\<close>.
\<close>

section \<open>Moving entries between surfaces\<close>

text \<open>The copy loops assign through references: \<^verbatim>\<open>dst->get_key(j) = src->get_key(i)\<close>.\<close>

fun copy_entries :: "nat \<Rightarrow> nat \<Rightarrow> nat \<Rightarrow> ('k, 'v) surface_node \<Rightarrow> ('k, 'v) surface_node \<Rightarrow>
    (('k, 'v) surface_node \<times> ('k, 'v) surface_node) result" where
  "copy_entries i j 0 src dst = Inr (src, dst)"
| "copy_entries i j (Suc c) src dst =
     bindE (slot_ref i src) (\<lambda>src1. bindE (put_key j (key_of i src1) dst) (\<lambda>dst1.
       bindE (slot_ref i src1) (\<lambda>src2. bindE (put_value j (value_of i src2) dst1) (\<lambda>dst2.
         copy_entries (Suc i) (Suc j) c src2 dst2))))"

text \<open>One entry moved inside a page, and the two loops that do it upwards and downwards.\<close>

definition move_entry :: "nat \<Rightarrow> nat \<Rightarrow> ('k, 'v) surface_node \<Rightarrow> ('k, 'v) surface_node result" where
  "move_entry i j n =
     bindE (slot_ref i n) (\<lambda>n1. bindE (put_key j (key_of i n1) n1) (\<lambda>n2.
       bindE (slot_ref i n2) (\<lambda>n3. put_value j (value_of i n3) n3)))"

fun move_down :: "nat \<Rightarrow> nat \<Rightarrow> nat \<Rightarrow> ('k, 'v) surface_node \<Rightarrow> ('k, 'v) surface_node result" where
  "move_down s i 0 n = Inr n"
| "move_down s i (Suc c) n = bindE (move_entry (i + s) i n) (move_down s (Suc i) c)"

fun move_up :: "nat \<Rightarrow> nat \<Rightarrow> ('k, 'v) surface_node \<Rightarrow> ('k, 'v) surface_node result" where
  "move_up s 0 n = Inr n"
| "move_up s (Suc i) n = bindE (move_entry i (i + s) n) (move_up s i)"

section \<open>Merging and balancing\<close>

text \<open>The links after a merge: the left page takes over the successor of the right one.\<close>

definition unlink_after :: "nat \<Rightarrow> nat \<Rightarrow> ('k, 'v) tree_env \<Rightarrow> ('k, 'v) tree_env" where
  "unlink_after a b e =
     (let nx = next_of e b; e1 = e\<lparr>next_of := (next_of e)(a := nx)\<rparr> in
      if nx \<noteq> 0 then e1\<lparr>preceding_of := (preceding_of e1)(nx := a)\<rparr> else e1\<lparr>last_surface := a\<rparr>)"

definition merge_leaves ::
    "nat \<Rightarrow> ('k, 'v) surface_node \<Rightarrow> nat \<Rightarrow> ('k, 'v) surface_node \<Rightarrow> ('k, 'v) tree_env \<Rightarrow>
     (('k, 'v) surface_node \<times> ('k, 'v) surface_node \<times> ('k, 'v) tree_env) result" where
  "merge_leaves a l b r e =
     bindE (copy_entries 0 (occupants l) (occupants r) r l) (\<lambda>(r1, l1).
       Inr (set_occupants (occupants l1 + occupants r1) l1, set_occupants 0 r1, unlink_after a b e))"

definition merge_interior ::
    "'k list \<times> 'c list \<Rightarrow> 'k \<Rightarrow> 'k list \<times> 'c list \<Rightarrow> 'k list \<times> 'c list" where
  "merge_interior l sep r = (fst l @ sep # fst r, snd l @ snd r)"

text \<open>\<^verbatim>\<open>shift_left_surface\<close> and \<^verbatim>\<open>shift_right_surface\<close>: the two pages and the new separator.\<close>

definition last_key_ref :: "('k, 'v) surface_node \<Rightarrow> ('k \<times> ('k, 'v) surface_node) result" where
  "last_key_ref n = bindE (slot_ref (occupants n - 1) n) (\<lambda>n1. Inr (key_of (occupants n1 - 1) n1, n1))"

definition shift_left_surface ::
    "('k, 'v) surface_node \<Rightarrow> ('k, 'v) surface_node \<Rightarrow>
     (('k, 'v) surface_node \<times> 'k \<times> ('k, 'v) surface_node) result" where
  "shift_left_surface l r =
     (let shiftnum = (occupants r - occupants l) div 2 in
      bindE (copy_entries 0 (occupants l) shiftnum r l) (\<lambda>(r1, l1).
        let l2 = set_occupants (occupants l1 + shiftnum) l1;
            r2 = set_occupants (occupants r1 - shiftnum) r1 in
        bindE (move_down shiftnum 0 (occupants r2) r2) (\<lambda>r3.
          bindE (last_key_ref l2) (\<lambda>(k, l3). Inr (l3, k, r3)))))"

definition shift_right_surface ::
    "('k, 'v) surface_node \<Rightarrow> ('k, 'v) surface_node \<Rightarrow>
     (('k, 'v) surface_node \<times> 'k \<times> ('k, 'v) surface_node) result" where
  "shift_right_surface l r =
     (let shiftnum = (occupants l - occupants r) div 2 in
      bindE (move_up shiftnum (occupants r) r) (\<lambda>r1.
        let r2 = set_occupants (occupants r1 + shiftnum) r1 in
        bindE (copy_entries (occupants l - shiftnum) 0 shiftnum l r2) (\<lambda>(l1, r3).
          let l2 = set_occupants (occupants l1 - shiftnum) l1 in
          bindE (last_key_ref l2) (\<lambda>(k, l3). Inr (l3, k, r3)))))"

definition shift_left_interior ::
    "'k list \<times> 'c list \<Rightarrow> 'k \<Rightarrow> 'k list \<times> 'c list \<Rightarrow> ('k list \<times> 'c list) \<times> 'k \<times> ('k list \<times> 'c list)" where
  "shift_left_interior l sep r =
     (let shiftnum = (length (fst r) - length (fst l)) div 2 in
      ((fst l @ sep # take (shiftnum - 1) (fst r), snd l @ take shiftnum (snd r)),
       fst r ! (shiftnum - 1),
       (drop shiftnum (fst r), drop shiftnum (snd r))))"

definition shift_right_interior ::
    "'k list \<times> 'c list \<Rightarrow> 'k \<Rightarrow> 'k list \<times> 'c list \<Rightarrow> ('k list \<times> 'c list) \<times> 'k \<times> ('k list \<times> 'c list)" where
  "shift_right_interior l sep r =
     (let shiftnum = (length (fst l) - length (fst r)) div 2; cut = length (fst l) - shiftnum in
      ((take cut (fst l), take (Suc cut) (snd l)),
       fst l ! cut,
       (drop (Suc cut) (fst l) @ sep # fst r, drop (Suc cut) (snd l) @ snd r)))"

section \<open>Repairing an underflow\<close>

fun node_occupants :: "('k, 'v) node \<Rightarrow> nat" where
  "node_occupants (Surface a p) = occupants p"
| "node_occupants (Interior a l lf ks cs) = length ks"

fun isfew :: "('k, 'v) node \<Rightarrow> bool" where
  "isfew (Surface a p) = surface_isfew p"
| "isfew (Interior a l lf ks cs) \<longleftrightarrow> length ks \<le> mininteriorslots"

fun isunderflow :: "('k, 'v) node \<Rightarrow> bool" where
  "isunderflow (Surface a p) = surface_isunderflow p"
| "isunderflow (Interior a l lf ks cs) \<longleftrightarrow> length ks < mininteriorslots"

text \<open>
  Which repair is made.  \<open>left\<close> and \<open>right\<close> are the neighbours, if any; \<open>lp\<close> and \<open>rp\<close> say whether
  \<^verbatim>\<open>leftparent\<close> and \<^verbatim>\<open>rightparent\<close> are the parent itself.  The parents are equal only when both are.
\<close>

datatype repair = Merge_left | Merge_right | Shift_left | Shift_right

definition choose_repair ::
    "('k, 'v) node option \<Rightarrow> ('k, 'v) node option \<Rightarrow> bool \<Rightarrow> bool \<Rightarrow> repair" where
  "choose_repair left right lp rp =
     (let null_or_few = (\<lambda>n. case n of None \<Rightarrow> True | Some m \<Rightarrow> isfew m);
          few = (\<lambda>n. case n of None \<Rightarrow> False | Some m \<Rightarrow> isfew m);
          more = (\<lambda>n. case n of None \<Rightarrow> False | Some m \<Rightarrow> \<not> isfew m) in
      if null_or_few left \<and> null_or_few right then (if lp then Merge_left else Merge_right)
      else if few left \<and> more right then (if rp then Shift_left else Merge_left)
      else if more left \<and> few right then (if lp then Shift_right else Merge_right)
      else if lp \<and> rp then
        (if node_occupants (the left) \<le> node_occupants (the right) then Shift_left else Shift_right)
      else (if lp then Shift_right else Shift_left))"

text \<open>The four operations on two adjacent nodes and the separator between them.\<close>

fun merge_nodes ::
    "('k, 'v) node \<Rightarrow> 'k \<Rightarrow> ('k, 'v) node \<Rightarrow> ('k, 'v) tree_env \<Rightarrow>
     (('k, 'v) node \<times> ('k, 'v) node \<times> ('k, 'v) tree_env) result" where
  "merge_nodes (Surface a p) sep (Surface b q) e =
     bindE (merge_leaves a p b q e) (\<lambda>(p1, q1, e1). Inr (Surface a p1, Surface b q1, e1))"
| "merge_nodes (Interior a l lf ks cs) sep (Interior b m mf ks' cs') e =
     (let (ks1, cs1) = merge_interior (ks, cs) sep (ks', cs') in
      Inr (Interior a l lf ks1 cs1, Interior b m mf [] [], e))"
| "merge_nodes _ sep _ e = Inl Bad_access"

fun shift_nodes_left ::
    "('k, 'v) node \<Rightarrow> 'k \<Rightarrow> ('k, 'v) node \<Rightarrow> (('k, 'v) node \<times> 'k \<times> ('k, 'v) node) result" where
  "shift_nodes_left (Surface a p) sep (Surface b q) =
     bindE (shift_left_surface p q) (\<lambda>(p1, k, q1). Inr (Surface a p1, k, Surface b q1))"
| "shift_nodes_left (Interior a l lf ks cs) sep (Interior b m mf ks' cs') =
     (let ((ks1, cs1), k, (ks2, cs2)) = shift_left_interior (ks, cs) sep (ks', cs') in
      Inr (Interior a l lf ks1 cs1, k, Interior b m mf ks2 cs2))"
| "shift_nodes_left _ sep _ = Inl Bad_access"

fun shift_nodes_right ::
    "('k, 'v) node \<Rightarrow> 'k \<Rightarrow> ('k, 'v) node \<Rightarrow> (('k, 'v) node \<times> 'k \<times> ('k, 'v) node) result" where
  "shift_nodes_right (Surface a p) sep (Surface b q) =
     bindE (shift_right_surface p q) (\<lambda>(p1, k, q1). Inr (Surface a p1, k, Surface b q1))"
| "shift_nodes_right (Interior a l lf ks cs) sep (Interior b m mf ks' cs') =
     (let ((ks1, cs1), k, (ks2, cs2)) = shift_right_interior (ks, cs) sep (ks', cs') in
      Inr (Interior a l lf ks1 cs1, k, Interior b m mf ks2 cs2))"
| "shift_nodes_right _ sep _ = Inl Bad_access"

text \<open>Applied at a slot of the parent; the flag is \<^verbatim>\<open>btree_fixmerge\<close>.\<close>

definition merge_at ::
    "nat \<Rightarrow> 'k list \<Rightarrow> ('k, 'v) node list \<Rightarrow> ('k, 'v) tree_env \<Rightarrow>
     ('k list \<times> ('k, 'v) node list \<times> bool \<times> ('k, 'v) tree_env) result" where
  "merge_at i ks cs e =
     bindE (merge_nodes (cs ! i) (ks ! i) (cs ! Suc i) e) (\<lambda>(l, r, e1).
       Inr (ks, cs[i := l, Suc i := r], True, e1))"

definition shift_at ::
    "(('k, 'v) node \<Rightarrow> 'k \<Rightarrow> ('k, 'v) node \<Rightarrow> (('k, 'v) node \<times> 'k \<times> ('k, 'v) node) result) \<Rightarrow>
     nat \<Rightarrow> 'k list \<Rightarrow> ('k, 'v) node list \<Rightarrow> ('k, 'v) tree_env \<Rightarrow>
     ('k list \<times> ('k, 'v) node list \<times> bool \<times> ('k, 'v) tree_env) result" where
  "shift_at f i ks cs e =
     bindE (f (cs ! i) (ks ! i) (cs ! Suc i)) (\<lambda>(l, k, r).
       Inr (ks[i := k], cs[i := l, Suc i := r], False, e))"

definition repair_child ::
    "nat \<Rightarrow> ('k, 'v) node option \<Rightarrow> ('k, 'v) node option \<Rightarrow> 'k list \<Rightarrow> ('k, 'v) node list \<Rightarrow>
     ('k, 'v) tree_env \<Rightarrow> ('k list \<times> ('k, 'v) node list \<times> bool \<times> ('k, 'v) tree_env) result" where
  "repair_child slot left right ks cs e =
     (if isunderflow (cs ! slot) then
        case choose_repair left right (0 < slot) (slot < length ks) of
          Merge_left \<Rightarrow> merge_at (slot - 1) ks cs e
        | Merge_right \<Rightarrow> merge_at slot ks cs e
        | Shift_left \<Rightarrow> shift_at shift_nodes_left slot ks cs e
        | Shift_right \<Rightarrow> shift_at shift_nodes_right (slot - 1) ks cs e
      else Inr (ks, cs, False, e))"

text \<open>
  The removal of the child a merge has emptied, and the new separator for a merged surface.
\<close>

fun node_last_key :: "('k, 'v) node \<Rightarrow> 'k result" where
  "node_last_key (Surface a p) = bindE (last_key_ref p) (\<lambda>(k, p'). Inr k)"
| "node_last_key (Interior a l lf ks cs) = Inl Bad_access"

definition fix_merge ::
    "nat \<Rightarrow> nat \<Rightarrow> 'k list \<Rightarrow> ('k, 'v) node list \<Rightarrow> ('k list \<times> ('k, 'v) node list) result" where
  "fix_merge lvl slot0 ks cs =
     (let slot = (if node_occupants (cs ! slot0) \<noteq> 0 then Suc slot0 else slot0);
          ks1 = remove_at (slot - 1) ks; cs1 = remove_at slot cs in
      if lvl = 1 then
        bindE (node_last_key (cs1 ! (slot - 1))) (\<lambda>k. Inr (ks1[slot - 1 := k], cs1))
      else Inr (ks1, cs1))"

text \<open>What happens in the parent once a child has lost an entry.\<close>

definition settle_child ::
    "nat \<Rightarrow> nat \<Rightarrow> ('k, 'v) node option \<Rightarrow> ('k, 'v) node option \<Rightarrow> 'k list \<Rightarrow> ('k, 'v) node list \<Rightarrow>
     ('k, 'v) tree_env \<Rightarrow> ('k list \<times> ('k, 'v) node list \<times> ('k, 'v) tree_env) result" where
  "settle_child lvl slot left right ks cs e =
     bindE (repair_child slot left right ks cs e) (\<lambda>(ks1, cs1, merged, e1).
       if merged then bindE (fix_merge lvl slot ks1 cs1) (\<lambda>(ks2, cs2). Inr (ks2, cs2, e1))
       else Inr (ks1, cs1, e1))"

section \<open>The descent\<close>

text \<open>
  \<^verbatim>\<open>None\<close> is \<^verbatim>\<open>btree_not_found\<close>; otherwise the node, the key of \<^verbatim>\<open>btree_update_lastkey\<close> for the
  parent, if any, and the environment.
\<close>

definition erase_surface ::
    "'k::linorder \<Rightarrow> ('k, 'v) surface_node \<Rightarrow> (('k, 'v) surface_node \<times> 'k option) option result" where
  "erase_surface key p =
     bindE (find_lower (\<lambda>i. get_key i p) (occupants p) (last_found p) key) (\<lambda>(slot, lf).
       bindE (surface_has key slot (p\<lparr>last_found := lf\<rparr>)) (\<lambda>(found, p1).
         if \<not> found then Inr None
         else let p2 = erase_d slot p1 in
           if slot = occupants p2 \<and> 1 \<le> occupants p2
           then bindE (last_key_ref p2) (\<lambda>(k, p3). Inr (Some (p3, Some k)))
           else Inr (Some (p2, None))))"

text \<open>The neighbours handed to the child; those of the outermost children come from the cousins.\<close>

definition left_neighbour ::
    "nat \<Rightarrow> ('k, 'v) node list \<Rightarrow> ('k, 'v) node option \<Rightarrow> ('k, 'v) node option" where
  "left_neighbour slot cs left =
     (if slot = 0 then
        case left of Some (Interior a l lf ks' cs') \<Rightarrow> Some (cs' ! (length ks' - 1)) | _ \<Rightarrow> None
      else Some (cs ! (slot - 1)))"

definition right_neighbour ::
    "nat \<Rightarrow> 'k list \<Rightarrow> ('k, 'v) node list \<Rightarrow> ('k, 'v) node option \<Rightarrow> ('k, 'v) node option" where
  "right_neighbour slot ks cs right =
     (if slot = length ks then
        case right of Some (Interior a l lf ks' cs') \<Rightarrow> Some (cs' ! 0) | _ \<Rightarrow> None
      else Some (cs ! Suc slot))"

fun erase_descend ::
    "'k::linorder \<Rightarrow> ('k, 'v) node option \<Rightarrow> ('k, 'v) node option \<Rightarrow> ('k, 'v) node \<Rightarrow>
     ('k, 'v) tree_env \<Rightarrow> (('k, 'v) node \<times> 'k option \<times> ('k, 'v) tree_env) option result" where
  "erase_descend key left right (Surface a p) e =
     bindE (erase_surface key p) (\<lambda>r. Inr (map_option (\<lambda>(p1, lk). (Surface a p1, lk, e)) r))"
| "erase_descend key left right (Interior a l lf ks cs) e =
     bindE (find_lower (\<lambda>i. Inr (ks ! i)) (length ks) lf key) (\<lambda>(slot, lf').
       if slot < length cs then
         let myleft = left_neighbour slot cs left; myright = right_neighbour slot ks cs right in
         bindE (erase_descend key myleft myright (cs ! slot) e) (\<lambda>r.
           case r of
             None \<Rightarrow> Inr None
           | Some (c, lk, e1) \<Rightarrow>
               let ks1 = (case lk of None \<Rightarrow> ks | Some k \<Rightarrow> if slot < length ks then ks[slot := k] else ks);
                   lk1 = (if slot < length ks then None else lk) in
               bindE (settle_child l slot myleft myright ks1 (cs[slot := c]) e1) (\<lambda>(ks2, cs2, e2).
                 Inr (Some (Interior a l lf' ks2 cs2, lk1, e2))))
       else Inl Bad_access)"

text \<open>The root: an empty surface is dropped, an interior page with one child is replaced by it.\<close>

definition erase_one :: "'k::linorder \<Rightarrow> ('k, 'v) btree \<Rightarrow> (bool \<times> ('k, 'v) btree) result" where
  "erase_one key t =
     (case root t of
        None \<Rightarrow> Inr (False, t)
      | Some r \<Rightarrow>
          bindE (erase_descend key None None r (env t)) (\<lambda>res.
            case res of
              None \<Rightarrow> Inr (False, t)
            | Some (r1, lk, e) \<Rightarrow>
                let (r2, e2) =
                      (if node_occupants r1 = 0 then
                         (case r1 of
                            Surface a p \<Rightarrow> (None, e\<lparr>headsurface := 0, last_surface := 0\<rparr>)
                          | Interior a l lf ks cs \<Rightarrow> (Some (cs ! 0), e))
                       else (Some r1, e)) in
                Inr (True, t\<lparr>root := r2, env := e2, tree_size := tree_size t - 1\<rparr>)))"

definition erase :: "'k::linorder \<Rightarrow> ('k, 'v) btree \<Rightarrow> (nat \<times> ('k, 'v) btree) result" where
  "erase key t = bindE (erase_one key t) (\<lambda>(found, t1). Inr (if found then 1 else 0, t1))"

end
