(* ===== verification/BTreeRepair.thy ===== *)
theory BTreeRepair
  imports BTreeErase
begin

text \<open>
  The repair of an underflow is correct: copying and moving entries between surfaces through their
  permutation arrays, merging and balancing two adjacent nodes, and settling a child of an interior
  page keep the entries, the separators, the fill limits and the links of the surfaces.
\<close>

section \<open>The slots of a page\<close>

text \<open>What each of the slots holds, in permutation order, occupied or not.\<close>

definition slots :: "('k, 'v) surface_node \<Rightarrow> ('k \<times> 'v) option list" where
  "slots n = map (\<lambda>p. if p = surfaceslotmax then None else Some (skeys n ! p, svalues n ! p)) (permutations n)"

lemma length_slots [simp]: "arrays_inv n \<Longrightarrow> length (slots n) = surfaceslotmax"
  by (simp add: slots_def arrays_inv_def)

lemma surface_inv_slots:
  "surface_inv n \<longleftrightarrow> arrays_inv n \<and> occupants n \<le> surfaceslotmax \<and> None \<notin> set (take (occupants n) (slots n))"
  by (auto simp: surface_inv_arrays slots_def list_all_iff take_map)

lemma page_list_slots:
  assumes "surface_inv n" shows "page_list n = map the (take (occupants n) (slots n))"
proof -
  have "\<forall>p\<in>set (take (occupants n) (permutations n)). p \<noteq> surfaceslotmax"
    using assms by (simp add: surface_inv_arrays list_all_iff)
  then show ?thesis by (simp add: page_list_def slots_def take_map)
qed

lemma slots_page_list: "surface_inv n \<Longrightarrow> take (occupants n) (slots n) = map Some (page_list n)"
  using page_list_slots [of n] by (simp add: surface_inv_slots map_idI) (metis (no_types, lifting) map_idI option.collapse comp_apply)

lemma slots_occupants [simp]: "slots (set_occupants c n) = slots n" "arrays_inv (set_occupants c n) = arrays_inv n"
  "occupants (set_occupants c n) = c"
  by (simp_all add: slots_def arrays_inv_def set_occupants_def)

lemma slots_change [simp]: "slots (change n) = slots n" "arrays_inv (change n) = arrays_inv n"
  by (simp_all add: slots_def arrays_inv_def change_def)

text \<open>Reading a slot that is in use, and writing any slot.\<close>

lemma read_slot:
  assumes "arrays_inv n" "i < surfaceslotmax" "slots n ! i = Some (k, v)"
  shows "slot_ref i n = Inr (change n)" "key_of i n = k" "value_of i n = v"
proof -
  have "permutations n ! i \<noteq> surfaceslotmax" "skeys n ! (permutations n ! i) = k" "svalues n ! (permutations n ! i) = v"
    using assms by (auto simp: slots_def arrays_inv_def split: if_splits)
  then show "slot_ref i n = Inr (change n)" "key_of i n = k" "value_of i n = v"
    by (auto simp: slot_ref_def key_of_def value_of_def)
qed

lemma write_slots:
  assumes "arrays_inv n" "j < surfaceslotmax"
    "permutations n' = (permutations n)[j := alloc_pos j n]"
    "skeys n' = (skeys n)[alloc_pos j n := k]" "svalues n' = (svalues n)[alloc_pos j n := v]"
  shows "slots n' = (slots n)[j := Some (k, v)]"
proof (rule nth_equalityI)
  have len: "length (permutations n) = surfaceslotmax" "length (skeys n) = surfaceslotmax" "length (svalues n) = surfaceslotmax"
    using assms(1) by (simp_all add: arrays_inv_def)
  show "length (slots n') = length ((slots n)[j := Some (k, v)])" by (simp add: slots_def assms(3))
  fix i assume "i < length (slots n')"
  then have i: "i < surfaceslotmax" by (simp add: slots_def assms(3) len)
  have q: "alloc_pos j n < surfaceslotmax" by (rule alloc_pos_less [OF assms(1,2)])
  show "slots n' ! i = (slots n)[j := Some (k, v)] ! i"
  proof (cases "i = j")
    case True
    then show ?thesis using i q len by (simp add: slots_def assms(3-5))
  next
    case False
    then show ?thesis using i len alloc_pos_fresh [OF assms(1,2) i False]
      by (auto simp: slots_def assms(3-5))
  qed
qed

lemma write_slot:
  assumes "arrays_inv n" "j < surfaceslotmax"
  shows "\<exists>n'. bindE (put_key j k n) (put_value j v) = Inr n' \<and> arrays_inv n' \<and>
    slots n' = (slots n)[j := Some (k, v)] \<and> occupants n' = occupants n \<and> last_found n' = last_found n"
  using update_ok [OF assms, of k v] write_slots [OF assms] by metis

lemma put_key_ok:
  assumes "arrays_inv n" "j < surfaceslotmax"
  shows "\<exists>n'. put_key j k n = Inr n' \<and> arrays_inv n' \<and> permutations n' = (permutations n)[j := alloc_pos j n] \<and>
    skeys n' = (skeys n)[alloc_pos j n := k] \<and> svalues n' = svalues n \<and> occupants n' = occupants n \<and>
    last_found n' = last_found n"
proof -
  have "length (permutations n) = surfaceslotmax" using assms(1) by (simp add: arrays_inv_def)
  then show ?thesis using slot_ref_ok [OF assms] assms(2) by (auto simp: put_key_def arrays_inv_def)
qed

lemma put_value_ok:
  assumes "arrays_inv n" "j < surfaceslotmax"
  shows "\<exists>n'. put_value j v n = Inr n' \<and> arrays_inv n' \<and> permutations n' = (permutations n)[j := alloc_pos j n] \<and>
    skeys n' = skeys n \<and> svalues n' = (svalues n)[alloc_pos j n := v] \<and> occupants n' = occupants n \<and>
    last_found n' = last_found n"
proof -
  have "length (permutations n) = surfaceslotmax" using assms(1) by (simp add: arrays_inv_def)
  then show ?thesis using slot_ref_ok [OF assms] assms(2) by (auto simp: put_value_def arrays_inv_def)
qed

lemma move_entry_ok:
  assumes inv: "arrays_inv n" and i: "i < surfaceslotmax" and j: "j < surfaceslotmax" and ij: "i \<noteq> j"
    and e: "slots n ! i = Some (k, v)"
  shows "\<exists>n'. move_entry i j n = Inr n' \<and> arrays_inv n' \<and> slots n' = (slots n)[j := Some (k, v)] \<and>
    occupants n' = occupants n \<and> last_found n' = last_found n"
proof -
  note r = read_slot [OF inv i e]
  have len: "length (permutations n) = surfaceslotmax" using inv by (simp add: arrays_inv_def)
  have c: "arrays_inv (change n)" using inv by simp
  obtain n2 where n2: "put_key j k (change n) = Inr n2" "arrays_inv n2"
    "permutations n2 = (permutations n)[j := alloc_pos j n]" "skeys n2 = (skeys n)[alloc_pos j n := k]"
    "svalues n2 = svalues n" "occupants n2 = occupants n" "last_found n2 = last_found n"
    using put_key_ok [OF c j, of k] by (auto simp: change_def alloc_pos_def)
  have u: "permutations n ! i \<noteq> surfaceslotmax" using e i len by (auto simp: slots_def split: if_splits)
  have s: "slot_ref i n2 = Inr (change n2)" using n2(3) ij u by (simp add: slot_ref_def)
  have v: "value_of i n2 = v" using n2(3,5) ij r(3) by (simp add: value_of_def)
  have q: "alloc_pos j (change n2) = alloc_pos j n"
    using n2(3) len j alloc_pos_less [OF inv j] by (simp add: alloc_pos_def change_def)
  obtain n' where n': "put_value j v (change n2) = Inr n'" "arrays_inv n'"
    "permutations n' = (permutations n)[j := alloc_pos j n]" "skeys n' = (skeys n)[alloc_pos j n := k]"
    "svalues n' = (svalues n)[alloc_pos j n := v]" "occupants n' = occupants n" "last_found n' = last_found n"
    using put_value_ok [of "change n2" j v] n2 j q by (auto simp: change_def arrays_inv_def)
  have "move_entry i j n = Inr n'" by (simp add: move_entry_def r n2(1) s v n'(1))
  then show ?thesis using n' write_slots [OF inv j n'(3-5)] by blast
qed

lemma copy_entries_ok:
  assumes "arrays_inv src" "arrays_inv dst" "i + c \<le> surfaceslotmax" "j + c \<le> surfaceslotmax"
    "None \<notin> set (take c (drop i (slots src)))"
  shows "\<exists>src' dst'. copy_entries i j c src dst = Inr (src', dst') \<and> arrays_inv src' \<and> arrays_inv dst' \<and>
    slots src' = slots src \<and> occupants src' = occupants src \<and> occupants dst' = occupants dst \<and>
    slots dst' = take j (slots dst) @ take c (drop i (slots src)) @ drop (j + c) (slots dst)"
  using assms
proof (induction c arbitrary: i j src dst)
  case (Suc c)
  have len: "length (slots src) = surfaceslotmax" "length (slots dst) = surfaceslotmax" using Suc.prems by simp_all
  have d: "drop i (slots src) = slots src ! i # drop (Suc i) (slots src)"
    using Suc.prems len by (simp add: Cons_nth_drop_Suc)
  with Suc.prems(5) obtain k v where e: "slots src ! i = Some (k, v)" by (cases "slots src ! i") auto
  have i: "i < surfaceslotmax" "j < surfaceslotmax" using Suc.prems by simp_all
  note r = read_slot [OF Suc.prems(1) i(1) e]
  obtain dst' where w: "bindE (put_key j k dst) (put_value j v) = Inr dst'" "arrays_inv dst'"
    "slots dst' = (slots dst)[j := Some (k, v)]" "occupants dst' = occupants dst"
    using write_slot [OF Suc.prems(2) i(2), of k v] by blast
  obtain d1 where d1: "put_key j k dst = Inr d1" "put_value j v d1 = Inr dst'"
    using w(1) by (auto simp: bindE_Inr_iff)
  have r2: "slot_ref i (change src) = Inr (change (change src))"
    using read_slot(1) [of "change src" i k v] Suc.prems(1) i e by simp
  have n: "None \<notin> set (take c (drop (Suc i) (slots (change (change src)))))" using Suc.prems(5) d by simp
  obtain s2 d2 where f: "copy_entries (Suc i) (Suc j) c (change (change src)) dst' = Inr (s2, d2)"
    "arrays_inv s2" "arrays_inv d2" "slots s2 = slots src" "occupants s2 = occupants src" "occupants d2 = occupants dst'"
    "slots d2 = take (Suc j) (slots dst') @ take c (drop (Suc i) (slots src)) @ drop (Suc j + c) (slots dst')"
    using Suc.IH [of "change (change src)" dst' "Suc i" "Suc j"] Suc.prems(1,3,4) w(2) n by auto
  have "slots d2 = take j (slots dst) @ take (Suc c) (drop i (slots src)) @ drop (j + Suc c) (slots dst)"
    using i len by (simp add: f(7) w(3) d e take_Suc_conv_app_nth)
  then show ?case using f w(4) by (simp add: r r2 d1)
qed (simp add: Suc_le_eq)

lemma move_down_ok:
  assumes "arrays_inv n" "0 < s" "i + s + c \<le> surfaceslotmax" "None \<notin> set (take c (drop (i + s) (slots n)))"
  shows "\<exists>n'. move_down s i c n = Inr n' \<and> arrays_inv n' \<and> occupants n' = occupants n \<and>
    take (i + c) (slots n') = take i (slots n) @ take c (drop (i + s) (slots n))"
  using assms
proof (induction c arbitrary: i n)
  case (Suc c)
  have len: "length (slots n) = surfaceslotmax" using Suc.prems by simp
  have d: "drop (i + s) (slots n) = slots n ! (i + s) # drop (Suc (i + s)) (slots n)"
    using Suc.prems len by (simp add: Cons_nth_drop_Suc)
  with Suc.prems(4) obtain k v where e: "slots n ! (i + s) = Some (k, v)" by (cases "slots n ! (i + s)") auto
  obtain n1 where n1: "move_entry (i + s) i n = Inr n1" "arrays_inv n1" "slots n1 = (slots n)[i := Some (k, v)]"
    "occupants n1 = occupants n"
    using move_entry_ok [OF Suc.prems(1) _ _ _ e, of i] Suc.prems(2,3) by auto
  have k: "drop (Suc i + s) (slots n1) = drop (Suc (i + s)) (slots n)" using n1(3) Suc.prems(2) by simp
  obtain n' where n': "move_down s (Suc i) c n1 = Inr n'" "arrays_inv n'" "occupants n' = occupants n1"
    "take (Suc i + c) (slots n') = take (Suc i) (slots n1) @ take c (drop (Suc i + s) (slots n1))"
    using Suc.IH [OF n1(2) Suc.prems(2), of "Suc i"] Suc.prems(3,4) d k by auto
  have "take (i + Suc c) (slots n') = take i (slots n) @ take (Suc c) (drop (i + s) (slots n))"
    using n'(4) Suc.prems(3) len by (simp add: k n1(3) d e take_Suc_conv_app_nth)
  then show ?case using n1 n' by simp
qed simp

lemma move_up_ok:
  assumes "arrays_inv n" "0 < s" "i + s \<le> surfaceslotmax" "None \<notin> set (take i (slots n))"
  shows "\<exists>n'. move_up s i n = Inr n' \<and> arrays_inv n' \<and> occupants n' = occupants n \<and>
    take i (drop s (slots n')) = take i (slots n) \<and> drop (i + s) (slots n') = drop (i + s) (slots n)"
  using assms
proof (induction i arbitrary: n)
  case (Suc i)
  have len: "length (slots n) = surfaceslotmax" using Suc.prems by simp
  have t: "take (Suc i) (slots n) = take i (slots n) @ [slots n ! i]"
    using Suc.prems len by (simp add: take_Suc_conv_app_nth)
  with Suc.prems(4) obtain k v where e: "slots n ! i = Some (k, v)" by (cases "slots n ! i") auto
  obtain n1 where n1: "move_entry i (i + s) n = Inr n1" "arrays_inv n1" "slots n1 = (slots n)[i + s := Some (k, v)]"
    "occupants n1 = occupants n"
    using move_entry_ok [OF Suc.prems(1) _ _ _ e, of "i + s"] Suc.prems(2,3) by auto
  have tn: "take i (slots n1) = take i (slots n)" using n1(3) Suc.prems(2) by simp
  obtain n' where n': "move_up s i n1 = Inr n'" "arrays_inv n'" "occupants n' = occupants n1"
    "take i (drop s (slots n')) = take i (slots n)" "drop (i + s) (slots n') = drop (i + s) (slots n1)"
    using Suc.IH [OF n1(2) Suc.prems(2)] Suc.prems(3,4) t tn by auto
  have l': "length (slots n') = surfaceslotmax" using n'(2) by simp
  have dr: "drop (Suc i + s) (slots n') = drop (Suc i + s) (slots n)"
    using n'(5) n1(3) by (metis add_Suc drop_Suc drop_drop drop_update_cancel lessI plus_1_eq_Suc)
  have nt: "slots n' ! (i + s) = Some (k, v)"
    using n'(5) n1(3) Suc.prems(3) len l' by (metis Suc_le_lessD add_Suc hd_drop_conv_nth length_list_update nth_list_update_eq)
  have "take (Suc i) (drop s (slots n')) = take i (drop s (slots n')) @ [slots n' ! (i + s)]"
    using Suc.prems(3) l' by (simp add: take_Suc_conv_app_nth add.commute)
  then show ?case using n1 n' t nt dr e by simp
qed simp

section \<open>Moving entries between pages\<close>

lemma page_from_slots:
  assumes "arrays_inv n" "c \<le> surfaceslotmax" "take c (slots n) = map Some xs"
  shows "surface_inv (set_occupants c n)" "page_list (set_occupants c n) = xs"
proof -
  show s: "surface_inv (set_occupants c n)" using assms by (auto simp: surface_inv_slots)
  show "page_list (set_occupants c n) = xs" using page_list_slots [OF s] assms(3) by (simp add: comp_def)
qed

lemma page_from_slots_eq:
  "arrays_inv n \<Longrightarrow> occupants n \<le> surfaceslotmax \<Longrightarrow> take (occupants n) (slots n) = map Some xs \<Longrightarrow>
   surface_inv n \<and> page_list n = xs"
  using page_from_slots [of n "occupants n" xs] by (simp add: set_occupants_def)

lemma last_key_ref_ok:
  assumes "surface_inv n" "0 < occupants n"
  shows "last_key_ref n = Inr (fst (last (page_list n)), change n)"
proof -
  have "page_list n \<noteq> []" using assms length_page_list [OF assms(1)] by (metis less_not_refl list.size(3))
  then have "last (page_list n) = page_list n ! (occupants n - 1)"
    using assms(1) by (simp add: last_conv_nth)
  then show ?thesis using entry_of [OF assms(1), of "occupants n - 1"] assms by (simp add: last_key_ref_def)
qed

lemma take_slots: "surface_inv n \<Longrightarrow> c \<le> occupants n \<Longrightarrow> take c (slots n) = map Some (take c (page_list n))"
  using slots_page_list [of n] by (metis min.absorb2 take_map take_take min.commute)

lemma take_drop_slots:
  "surface_inv n \<Longrightarrow> i + c \<le> occupants n \<Longrightarrow> take c (drop i (slots n)) = map Some (take c (drop i (page_list n)))"
  using take_slots [of n "i + c"] by (metis add.commute drop_map take_drop take_map)

lemma merge_leaves_ok:
  assumes l: "surface_inv l" and r: "surface_inv r" and sum: "occupants l + occupants r \<le> surfaceslotmax"
  shows "\<exists>l' r'. merge_leaves a l b r e = Inr (l', r', unlink_after a b e) \<and> surface_inv l' \<and>
    page_list l' = page_list l @ page_list r \<and> occupants l' = occupants l + occupants r \<and> occupants r' = 0"
proof -
  have src: "take (occupants r) (drop 0 (slots r)) = map Some (page_list r)" using slots_page_list [OF r] by simp
  have n: "None \<notin> set (take (occupants r) (drop 0 (slots r)))" unfolding src by auto
  have b: "0 + occupants r \<le> surfaceslotmax" using sum by simp
  obtain r1 l1 where c: "copy_entries 0 (occupants l) (occupants r) r l = Inr (r1, l1)" "arrays_inv l1"
    "occupants r1 = occupants r" "occupants l1 = occupants l"
    "slots l1 = take (occupants l) (slots l) @ map Some (page_list r) @ drop (occupants l + occupants r) (slots l)"
    using copy_entries_ok [OF surface_inv_bounds(1) [OF r] surface_inv_bounds(1) [OF l] b sum n] src by auto
  have len: "length (slots l) = surfaceslotmax" using l by (simp add: surface_inv_slots)
  have "take (occupants l + occupants r) (slots l1) = map Some (page_list l @ page_list r)"
    using slots_page_list [OF l] length_page_list [OF r] length_page_list [OF l] len sum unfolding c(5) by simp
  from page_from_slots [OF c(2) sum this] show ?thesis
    using c(1,3,4) by (simp add: merge_leaves_def)
qed

lemma shift_left_surface_ok:
  assumes l: "surface_inv l" and r: "surface_inv r" and less: "occupants l + 2 \<le> occupants r"
  defines "s \<equiv> (occupants r - occupants l) div 2"
  shows "\<exists>l' r'. shift_left_surface l r = Inr (l', fst (last (page_list l')), r') \<and>
    surface_inv l' \<and> surface_inv r' \<and> page_list l' = page_list l @ take s (page_list r) \<and>
    page_list r' = drop s (page_list r) \<and> occupants l' = occupants l + s \<and> occupants r' = occupants r - s"
proof -
  have s: "0 < s" "s \<le> occupants r" "occupants l + s \<le> surfaceslotmax"
    using less surface_invD(4) [OF r] by (auto simp: s_def)
  have src: "take s (drop 0 (slots r)) = map Some (take s (page_list r))" using take_slots [OF r s(2)] by simp
  have n: "None \<notin> set (take s (drop 0 (slots r)))" unfolding src by auto
  have b: "0 + s \<le> surfaceslotmax" using s by simp
  obtain r1 l1 where c: "copy_entries 0 (occupants l) s r l = Inr (r1, l1)" "arrays_inv r1" "arrays_inv l1"
    "slots r1 = slots r" "occupants r1 = occupants r" "occupants l1 = occupants l"
    "slots l1 = take (occupants l) (slots l) @ map Some (take s (page_list r)) @ drop (occupants l + s) (slots l)"
    using copy_entries_ok [OF surface_inv_bounds(1) [OF r] surface_inv_bounds(1) [OF l] b s(3) n] src by auto
  have len: "length (slots l) = surfaceslotmax" using l by (simp add: surface_inv_slots)
  have lr: "length (page_list r) = occupants r" using r by simp
  define l2 where "l2 = set_occupants (occupants l + s) l1"
  have "take (occupants l + s) (slots l1) = map Some (page_list l @ take s (page_list r))"
    using slots_page_list [OF l] length_page_list [OF l] s lr len unfolding c(7) by simp
  note l2 = page_from_slots [OF c(3) s(3) this, folded l2_def]
  have o2: "occupants l2 = occupants l + s" by (simp add: l2_def)
  define r2 where "r2 = set_occupants (occupants r - s) r1"
  have o3: "occupants r2 = occupants r - s" by (simp add: r2_def)
  have d: "take (occupants r - s) (drop s (slots r)) = map Some (drop s (page_list r))"
    using take_drop_slots [OF r, of s "occupants r - s"] s lr by simp
  have "None \<notin> set (map Some (drop s (page_list r)))" by auto
  moreover have "s + (occupants r - s) \<le> surfaceslotmax" using s surface_invD(4) [OF r] by simp
  ultimately obtain r3 where r3: "move_down s 0 (occupants r - s) r2 = Inr r3" "arrays_inv r3"
    "occupants r3 = occupants r - s" "take (occupants r - s) (slots r3) = map Some (drop s (page_list r))"
    using move_down_ok [of r2 s 0 "occupants r - s"] s c(2,4) d by (auto simp: r2_def)
  have p3: "surface_inv r3 \<and> page_list r3 = drop s (page_list r)"
    using page_from_slots_eq [OF r3(2), of "drop s (page_list r)"] r3(3,4) surface_invD(4) [OF r] by simp
  have "shift_left_surface l r = Inr (change l2, fst (last (page_list l2)), r3)"
    using c(1,5,6) r3(1) last_key_ref_ok [OF l2(1)] o2 s(1)
    by (simp add: shift_left_surface_def s_def [symmetric] l2_def [symmetric] r2_def [symmetric] Let_def o3)
  then show ?thesis using l2 p3 o2 r3(3) by (intro exI [of _ "change l2"] exI [of _ r3]) auto
qed

lemma shift_right_surface_ok:
  assumes l: "surface_inv l" and r: "surface_inv r" and less: "occupants r + 2 \<le> occupants l"
  defines "s \<equiv> (occupants l - occupants r) div 2"
  shows "\<exists>l' r'. shift_right_surface l r = Inr (l', fst (last (page_list l')), r') \<and>
    surface_inv l' \<and> surface_inv r' \<and> page_list l' = take (occupants l - s) (page_list l) \<and>
    page_list r' = drop (occupants l - s) (page_list l) @ page_list r \<and>
    occupants l' = occupants l - s \<and> occupants r' = occupants r + s"
proof -
  have s: "0 < s" "s < occupants l" "occupants r + s \<le> surfaceslotmax"
    using less surface_invD(4) [OF l] by (auto simp: s_def)
  have ll: "length (page_list l) = occupants l" "length (page_list r) = occupants r" using l r by simp_all
  have "None \<notin> set (take (occupants r) (slots r))" using slots_page_list [OF r] by auto
  then obtain r1 where r1: "move_up s (occupants r) r = Inr r1" "arrays_inv r1" "occupants r1 = occupants r"
    "take (occupants r) (drop s (slots r1)) = map Some (page_list r)"
    using move_up_ok [of r s "occupants r"] s r surface_inv_bounds slots_page_list [OF r] by metis
  define r2 where "r2 = set_occupants (occupants r + s) r1"
  have src: "take s (drop (occupants l - s) (slots l)) = map Some (drop (occupants l - s) (page_list l))"
    using take_drop_slots [OF l, of "occupants l - s" s] s ll by simp
  have n: "None \<notin> set (take s (drop (occupants l - s) (slots l)))" unfolding src by auto
  have b: "occupants l - s + s \<le> surfaceslotmax" "0 + s \<le> surfaceslotmax"
    using s surface_invD(4) [OF l] by simp_all
  have r2: "arrays_inv r2" "occupants r2 = occupants r + s" "slots r2 = slots r1" using r1 by (simp_all add: r2_def)
  obtain l1 r3 where c: "copy_entries (occupants l - s) 0 s l r2 = Inr (l1, r3)" "arrays_inv l1" "arrays_inv r3"
    "slots l1 = slots l" "occupants l1 = occupants l" "occupants r3 = occupants r + s"
    "slots r3 = map Some (drop (occupants l - s) (page_list l)) @ drop s (slots r1)"
    using copy_entries_ok [OF surface_inv_bounds(1) [OF l] r2(1) b n] src r2 by auto
  have "take (occupants r + s) (slots r3) = map Some (drop (occupants l - s) (page_list l) @ page_list r)"
    using r1(4) s ll unfolding c(7) by simp
  then have p3: "surface_inv r3 \<and> page_list r3 = drop (occupants l - s) (page_list l) @ page_list r"
    using page_from_slots_eq [OF c(3), of "drop (occupants l - s) (page_list l) @ page_list r"] c(6) s(3) by simp
  define l2 where "l2 = set_occupants (occupants l - s) l1"
  have "take (occupants l - s) (slots l1) = map Some (take (occupants l - s) (page_list l))"
    using take_slots [OF l, of "occupants l - s"] c(4) by simp
  note l2 = page_from_slots [OF c(2) _ this, folded l2_def]
  have o2: "occupants l2 = occupants l - s" "occupants l - s \<le> surfaceslotmax"
    using surface_invD(4) [OF l] by (simp_all add: l2_def)
  note l2 = l2 [OF o2(2)]
  have "shift_right_surface l r = Inr (change l2, fst (last (page_list l2)), r3)"
    using r1(1,3) c(1,5) last_key_ref_ok [OF l2(1)] o2 s(2)
    by (simp add: shift_right_surface_def s_def [symmetric] Let_def r2_def [symmetric] l2_def [symmetric])
  then show ?thesis using l2 p3 o2 c(6) by (intro exI [of _ "change l2"] exI [of _ r3]) auto
qed

section \<open>Merging and balancing nodes\<close>

text \<open>The node invariant without the demand that an interior page has a key.\<close>

fun node_shape :: "nat \<Rightarrow> ('k, 'v) node \<Rightarrow> bool" where
  "node_shape h (Surface a p) \<longleftrightarrow> h = 0 \<and> surface_inv p"
| "node_shape h (Interior a l lf ks cs) \<longleftrightarrow>
     0 < h \<and> l = h \<and> length ks \<le> interiorslotmax \<and> kids_inv (h - 1) ks cs"

lemma node_inv_shape: "node_inv h n \<longleftrightarrow> node_shape h n \<and> (h = 0 \<or> node_occupants n \<noteq> 0)"
  by (cases n) (auto simp: node_inv_Interior simp del: node_inv.simps(2))

lemma fill_ok_occupants: "fill_ok n \<longleftrightarrow> minsurfaces \<le> node_occupants n"
  by (cases n) (simp_all add: limits)

lemma isunderflow_iff: "isunderflow n \<longleftrightarrow> node_occupants n < minsurfaces"
  by (cases n) (simp_all add: limits surface_isunderflow_def)

lemma isfew_iff: "isfew n \<longleftrightarrow> node_occupants n \<le> minsurfaces"
  by (cases n) (simp_all add: limits surface_isfew_def)

lemma node_occupants_le: "node_shape h n \<Longrightarrow> node_occupants n \<le> surfaceslotmax"
  by (cases n) (auto simp: limits dest: surface_invD(4))

lemma shape_fill_inv: "node_shape h n \<Longrightarrow> fill_ok n \<Longrightarrow> node_inv h n"
  by (auto simp: node_inv_shape fill_ok_occupants limits)

lemma kids_entries: "kids_inv h ks cs \<Longrightarrow> c \<in> set cs \<Longrightarrow> entries c \<noteq> []"
  using entries_not_Nil by (auto simp: kids_inv_def)

lemma lastkey_Interior: "kids_inv h ks cs \<Longrightarrow> lastkey (Interior a l lf ks' cs) = lastkey (last cs)"
proof -
  assume k: "kids_inv h ks cs"
  then obtain xs x where cs: "cs = xs @ [x]" by (cases cs rule: rev_cases) (auto simp: kids_inv_def)
  moreover have "entries x \<noteq> []" using kids_entries [OF k, of x] cs by simp
  ultimately show ?thesis by (simp add: lastkey_def)
qed

lemma shape_entries: "node_shape h n \<Longrightarrow> node_occupants n \<noteq> 0 \<Longrightarrow> entries n \<noteq> []"
proof (cases n)
  case (Surface a p)
  assume "node_shape h n" "node_occupants n \<noteq> 0"
  then have "length (page_list p) \<noteq> 0" using Surface by simp
  then show ?thesis using Surface by auto
next
  case (Interior a l lf ks cs)
  assume "node_shape h n"
  then have "kids_inv (h - 1) ks cs" using Interior by simp
  moreover from this have "hd cs \<in> set cs" by (simp add: kids_inv_def)
  ultimately show ?thesis using kids_entries Interior by fastforce
qed

lemma kids_inv_join:
  assumes "kids_inv h ks cs" "kids_inv h ks' cs'"
  shows "kids_inv h (ks @ lastkey (last cs) # ks') (cs @ cs')"
proof -
  have "map lastkey cs = ks @ [lastkey (last cs)]"
    using assms(1) unfolding kids_inv_def by (metis append_butlast_last_id list.simps(8,9) map_append)
  then show ?thesis using assms by (auto simp: kids_inv_def butlast_append)
qed

lemma merge_nodes_ok:
  assumes l: "node_shape h l" and r: "node_shape h r" and sep: "sep = lastkey l"
    and sum: "Suc (node_occupants l + node_occupants r) \<le> surfaceslotmax"
    and big: "minsurfaces \<le> node_occupants l + node_occupants r" "0 < node_occupants l"
  shows "\<exists>l' r' e'. merge_nodes l sep r e = Inr (l', r', e') \<and> node_shape h l' \<and> fill_ok l' \<and>
    entries l' = entries l @ entries r \<and> node_occupants r' = 0 \<and> node_occupants l' \<noteq> 0 \<and>
    (if h = 0 then leaves l' = leaves l \<and> e' = unlink_after (hd (leaves l)) (hd (leaves r)) e
     else leaves l' = leaves l @ leaves r \<and> e' = e)"
proof (cases "h = 0")
  case True
  then obtain a p b q where n: "l = Surface a p" "r = Surface b q" "surface_inv p" "surface_inv q"
    using l r by (cases l; cases r) auto
  then show ?thesis using merge_leaves_ok [OF n(3,4), of a b e] sum big True by (auto simp: fill_ok_occupants)
next
  case False
  then obtain a m lf ks cs b m' lf' ks' cs' where n: "l = Interior a m lf ks cs" "r = Interior b m' lf' ks' cs'"
    "kids_inv (h - 1) ks cs" "kids_inv (h - 1) ks' cs'" "m = h"
    using l r by (cases l; cases r) auto
  have "sep = lastkey (last cs)" using lastkey_Interior [OF n(3)] sep n(1) by simp
  then have "kids_inv (h - 1) (ks @ sep # ks') (cs @ cs')" using kids_inv_join [OF n(3,4)] by simp
  then show ?thesis using sum big False n by (auto simp: merge_interior_def fill_ok_occupants limits)
qed

definition shift_post :: "nat \<Rightarrow> ('k, 'v) node \<Rightarrow> ('k, 'v) node \<Rightarrow> ('k, 'v) node \<times> 'k \<times> ('k, 'v) node \<Rightarrow> bool" where
  "shift_post h l r = (\<lambda>(l', k, r'). node_shape h l' \<and> node_shape h r' \<and> fill_ok l' \<and> fill_ok r' \<and>
     entries l' @ entries r' = entries l @ entries r \<and> k = lastkey l' \<and>
     leaves l' @ leaves r' = leaves l @ leaves r)"

lemma shift_cut:
  assumes k: "kids_inv (h - 1) ks cs" "kids_inv (h - 1) ks' cs'" and h: "0 < h"
    and m: "mininteriorslots \<le> m" "m + mininteriorslots \<le> length ks + length ks'" "m \<le> interiorslotmax"
      "length ks + length ks' - m \<le> interiorslotmax"
  defines "KS \<equiv> ks @ lastkey (last cs) # ks'" and "CS \<equiv> cs @ cs'"
  shows "shift_post h (Interior a h lf ks cs) (Interior b h lf' ks' cs')
    (Interior a h lf (take m KS) (take (Suc m) CS), KS ! m, Interior b h lf' (drop (Suc m) KS) (drop (Suc m) CS))"
proof -
  have K: "kids_inv (h - 1) KS CS" unfolding KS_def CS_def by (rule kids_inv_join [OF k])
  have len: "length KS = Suc (length ks + length ks')" by (simp add: KS_def)
  then have ml: "m < length KS" using m by simp
  have join: "concat (map f (take (Suc m) CS)) @ concat (map f (drop (Suc m) CS)) = concat (map f CS)"
    for f :: "('a, 'b) node \<Rightarrow> 'z list"
    by (metis append_take_drop_id concat_append map_append)
  show ?thesis
    unfolding shift_post_def prod.case
  proof (intro conjI)
    show "KS ! m = lastkey (Interior a h lf (take m KS) (take (Suc m) CS))" by (rule kids_inv_cut(3) [OF K ml])
    show "node_shape h (Interior a h lf (take m KS) (take (Suc m) CS))"
      "node_shape h (Interior b h lf' (drop (Suc m) KS) (drop (Suc m) CS))"
      using kids_inv_cut(1,2) [OF K ml] m len h by auto
  qed (use m len join [of entries] join [of leaves] in \<open>auto simp: CS_def\<close>)
qed

lemma shift_nodes_left_ok:
  assumes l: "node_shape h l" and r: "node_shape h r" and sep: "sep = lastkey l"
    and occ: "Suc (node_occupants l) = minsurfaces" "minsurfaces < node_occupants r"
  shows "\<exists>res. shift_nodes_left l sep r = Inr res \<and> shift_post h l r res"
proof (cases "h = 0")
  case True
  then obtain a p b q where n: "l = Surface a p" "r = Surface b q" "surface_inv p" "surface_inv q"
    using l r by (cases l; cases r) auto
  define s where "s = (occupants q - occupants p) div 2"
  have "occupants p + 2 \<le> occupants q" "minsurfaces \<le> occupants p + s" "minsurfaces \<le> occupants q - s"
    using occ n by (auto simp: s_def)
  moreover obtain p' q' where "shift_left_surface p q = Inr (p', fst (last (page_list p')), q')"
    "surface_inv p'" "surface_inv q'" "page_list p' = page_list p @ take s (page_list q)"
    "page_list q' = drop s (page_list q)" "occupants p' = occupants p + s" "occupants q' = occupants q - s"
    using shift_left_surface_ok [OF n(3,4)] calculation(1) by (auto simp: s_def)
  ultimately show ?thesis using n True by (auto simp: shift_post_def lastkey_def)
next
  case False
  then obtain a lf ks cs b lf' ks' cs' where n: "l = Interior a h lf ks cs" "r = Interior b h lf' ks' cs'"
    "kids_inv (h - 1) ks cs" "kids_inv (h - 1) ks' cs'" "length ks' \<le> interiorslotmax"
    using l r by (cases l; cases r) auto
  have sl: "sep = lastkey (last cs)" using lastkey_Interior [OF n(3)] sep n(1) by simp
  define s where "s = (length ks' - length ks) div 2"
  have s: "0 < s" "s \<le> length ks'" "mininteriorslots \<le> length ks + s" "length ks + s + mininteriorslots \<le> length ks + length ks'"
    "length ks + s \<le> interiorslotmax" "length ks + length ks' - (length ks + s) \<le> interiorslotmax"
    using occ n(1,2,5) by (auto simp: s_def limits)
  have c: "length cs = Suc (length ks)" by (rule kids_inv_length [OF n(3)])
  have t: "take (length ks + s) (ks @ sep # ks') = ks @ sep # take (s - 1) ks'"
    "(ks @ sep # ks') ! (length ks + s) = ks' ! (s - 1)" "drop (Suc (length ks + s)) (ks @ sep # ks') = drop s ks'"
    "take (Suc (length ks + s)) (cs @ cs') = cs @ take s cs'" "drop (Suc (length ks + s)) (cs @ cs') = drop s cs'"
    using s c by (auto simp: nth_append take_Cons' nth_Cons' Suc_diff_le)
  from shift_cut [OF n(3,4) _ s(3-6), of a lf b lf'] False
  show ?thesis unfolding n(1,2) sl [symmetric] t by (simp add: shift_left_interior_def s_def [symmetric] Let_def)
qed

lemma shift_nodes_right_ok:
  assumes l: "node_shape h l" and r: "node_shape h r" and sep: "sep = lastkey l"
    and occ: "Suc (node_occupants r) = minsurfaces" "minsurfaces < node_occupants l"
  shows "\<exists>res. shift_nodes_right l sep r = Inr res \<and> shift_post h l r res"
proof (cases "h = 0")
  case True
  then obtain a p b q where n: "l = Surface a p" "r = Surface b q" "surface_inv p" "surface_inv q"
    using l r by (cases l; cases r) auto
  define s where "s = (occupants p - occupants q) div 2"
  have "occupants q + 2 \<le> occupants p" "minsurfaces \<le> occupants p - s" "minsurfaces \<le> occupants q + s"
    using occ n by (auto simp: s_def)
  moreover obtain p' q' where "shift_right_surface p q = Inr (p', fst (last (page_list p')), q')"
    "surface_inv p'" "surface_inv q'" "page_list p' = take (occupants p - s) (page_list p)"
    "page_list q' = drop (occupants p - s) (page_list p) @ page_list q" "occupants p' = occupants p - s"
    "occupants q' = occupants q + s"
    using shift_right_surface_ok [OF n(3,4)] calculation(1) by (auto simp: s_def)
  ultimately show ?thesis using n True by (auto simp: shift_post_def lastkey_def)
next
  case False
  then obtain a lf ks cs b lf' ks' cs' where n: "l = Interior a h lf ks cs" "r = Interior b h lf' ks' cs'"
    "kids_inv (h - 1) ks cs" "kids_inv (h - 1) ks' cs'" "length ks \<le> interiorslotmax"
    using l r by (cases l; cases r) auto
  have sl: "sep = lastkey (last cs)" using lastkey_Interior [OF n(3)] sep n(1) by simp
  define s where "s = (length ks - length ks') div 2"
  define m where "m = length ks - s"
  have s: "m < length ks" "mininteriorslots \<le> m" "m + mininteriorslots \<le> length ks + length ks'"
    "m \<le> interiorslotmax" "length ks + length ks' - m \<le> interiorslotmax"
    using occ n(1,2,5) by (auto simp: s_def m_def limits)
  have c: "length cs = Suc (length ks)" by (rule kids_inv_length [OF n(3)])
  have t: "take m (ks @ sep # ks') = take m ks" "(ks @ sep # ks') ! m = ks ! m"
    "drop (Suc m) (ks @ sep # ks') = drop (Suc m) ks @ sep # ks'"
    "take (Suc m) (cs @ cs') = take (Suc m) cs" "drop (Suc m) (cs @ cs') = drop (Suc m) cs @ cs'"
    using s c by (auto simp: nth_append)
  from shift_cut [OF n(3,4) _ s(2-5), of a lf b lf'] False
  show ?thesis unfolding n(1,2) sl [symmetric] t
    by (simp add: shift_right_interior_def s_def [symmetric] m_def [symmetric] Let_def)
qed

section \<open>Settling a child\<close>

lemma chain_unlink:
  assumes "chain e prev (xs @ a # b # ys)" "distinct (xs @ a # b # ys)" "0 \<notin> set (xs @ a # b # ys)"
  shows "chain (unlink_after a b e) prev (xs @ a # ys)"
  using assms
proof (induction xs arbitrary: prev)
  case Nil
  show ?case
  proof (cases ys)
    case Nil: Nil
    then show ?thesis using Nil.prems by (simp add: unlink_after_def Let_def)
  next
    case (Cons c zs)
    have c: "next_of e b = c" "c \<noteq> 0" "c \<noteq> a" using Nil.prems Cons by auto
    have "chain (unlink_after a b e) c zs"
      by (rule chain_cong [of e c zs]) (use Nil.prems Cons c in \<open>auto simp: unlink_after_def Let_def\<close>)
    then show ?thesis using Nil.prems Cons c by (simp add: unlink_after_def Let_def)
  qed
next
  case (Cons x xs)
  have nx: "next_of e b = (if ys = [] then 0 else hd ys)"
    using chain_next [of e prev "(x # xs) @ [a]" b ys] Cons.prems(1) by simp
  then have "x \<noteq> next_of e b" "x \<noteq> a" using Cons.prems(2,3) by (cases ys; auto)+
  moreover have "hd (xs @ a # ys) = hd (xs @ a # b # ys)" by (cases xs) auto
  moreover have "chain (unlink_after a b e) x (xs @ a # ys)" by (rule Cons.IH) (use Cons.prems in auto)
  ultimately show ?case using Cons.prems(1) by (simp add: unlink_after_def Let_def)
qed

lemma linked_unlink:
  assumes "linked e (xs @ a # b # ys)" shows "linked (unlink_after a b e) (xs @ a # ys)"
proof -
  have c: "chain e 0 (xs @ a # b # ys)" using assms by (simp add: linked_def)
  have nx: "next_of e b = 0 \<longleftrightarrow> ys = []"
    using chain_next [of e 0 "xs @ [a]" b ys] c assms by (cases ys) (auto simp: linked_def)
  have "chain (unlink_after a b e) 0 (xs @ a # ys)"
    using assms by (intro chain_unlink [OF c]) (auto simp: linked_def)
  then show ?thesis using assms nx by (auto simp: linked_def unlink_after_def Let_def hd_append)
qed

text \<open>The links of the whole list stay right when the surfaces of a part of it change.\<close>

definition erase_links :: "('k, 'v) tree_env \<Rightarrow> ('k, 'v) tree_env \<Rightarrow> nat list \<Rightarrow> nat list \<Rightarrow> bool" where
  "erase_links e e' ls ls' \<longleftrightarrow> fresh e' = fresh e \<and> set ls' \<subseteq> set ls \<and>
     (\<forall>X Y. linked e (X @ ls @ Y) \<longrightarrow> linked e' (X @ ls' @ Y))"

lemma erase_links_refl [simp]: "erase_links e e ls ls"
  by (simp add: erase_links_def)

lemma erase_links_linked: "erase_links e e' ls ls' \<Longrightarrow> linked e ls \<Longrightarrow> linked e' ls'"
  unfolding erase_links_def by (metis append_Nil append_Nil2)

lemma erase_links_trans: "erase_links e e1 ls ls1 \<Longrightarrow> erase_links e1 e2 ls1 ls2 \<Longrightarrow> erase_links e e2 ls ls2"
  by (auto simp: erase_links_def)

lemma erase_links_context:
  assumes "erase_links e e' ls ls'" shows "erase_links e e' (X @ ls @ Y) (X @ ls' @ Y)"
proof -
  have "linked e' (X' @ (X @ ls' @ Y) @ Y')" if "linked e (X' @ (X @ ls @ Y) @ Y')" for X' Y'
    using assms that unfolding erase_links_def by (metis append.assoc)
  then show ?thesis using assms by (auto simp: erase_links_def)
qed

lemma erase_links_unlink: "erase_links e (unlink_after a b e) (xs @ a # b # ys) (xs @ a # ys)"
proof -
  have "linked (unlink_after a b e) (X @ (xs @ a # ys) @ Y)" if "linked e (X @ (xs @ a # b # ys) @ Y)" for X Y
    using linked_unlink [of e "X @ xs" a b "ys @ Y"] that by simp
  moreover have "fresh (unlink_after a b e) = fresh e" by (simp add: unlink_after_def Let_def)
  ultimately show ?thesis by (auto simp: erase_links_def)
qed

text \<open>The separators and children around one child; the child itself may be short of one entry.\<close>

definition around :: "nat \<Rightarrow> 'k list \<Rightarrow> ('k, 'v) node list \<Rightarrow> ('k, 'v) node list \<Rightarrow> ('k, 'v) node list \<Rightarrow> bool" where
  "around h ks A M B \<longleftrightarrow> ks = map lastkey (butlast (A @ M @ B)) \<and>
     (\<forall>c\<in>set A \<union> set B. node_inv h c \<and> fill_ok c) \<and> (\<forall>c\<in>set M. node_shape h c \<and> entries c \<noteq> [])"

lemma around_kids:
  "around h ks A M B \<Longrightarrow> M \<noteq> [] \<Longrightarrow> (\<forall>c\<in>set M. fill_ok c) \<Longrightarrow> kids_inv h ks (A @ M @ B)"
  using shape_fill_inv by (auto simp: around_def kids_inv_def)

lemma around_two:
  assumes "around h ks A [l, r] B"
  shows "ks = map lastkey A @ lastkey l # (if B = [] then [] else lastkey r # map lastkey (butlast B))"
  using assms by (auto simp: around_def butlast_append)

lemma merge_settle:
  assumes ar: "around h ks A [l, r] B" and sum: "Suc (node_occupants l + node_occupants r) \<le> surfaceslotmax"
    "minsurfaces \<le> node_occupants l + node_occupants r" "0 < node_occupants l"
    and slot: "slot = length A \<or> slot = Suc (length A)"
  shows "\<exists>ks' l' r' e'. merge_at (length A) ks (A @ l # r # B) e = Inr (ks, A @ l' # r' # B, True, e') \<and>
    fix_merge (Suc h) slot ks (A @ l' # r' # B) = Inr (ks', A @ l' # B) \<and> kids_inv h ks' (A @ l' # B) \<and>
    entries l' = entries l @ entries r \<and> length ks = Suc (length ks') \<and>
    (if h = 0 then leaves l' = leaves l \<and> e' = unlink_after (hd (leaves l)) (hd (leaves r)) e
     else leaves l' = leaves l @ leaves r \<and> e' = e)"
proof -
  have ks: "ks = map lastkey A @ lastkey l # (if B = [] then [] else lastkey r # map lastkey (butlast B))"
    by (rule around_two [OF ar])
  have shape: "node_shape h l" "node_shape h r" "entries r \<noteq> []" using ar by (simp_all add: around_def)
  have at: "ks ! length A = lastkey l" by (simp add: ks nth_append)
  obtain l' r' e' where m: "merge_nodes l (lastkey l) r e = Inr (l', r', e')" "node_shape h l'" "fill_ok l'"
    "entries l' = entries l @ entries r" "node_occupants r' = 0" "node_occupants l' \<noteq> 0"
    "if h = 0 then leaves l' = leaves l \<and> e' = unlink_after (hd (leaves l)) (hd (leaves r)) e
     else leaves l' = leaves l @ leaves r \<and> e' = e"
    using merge_nodes_ok [OF shape(1,2) refl sum, of e] by blast
  have lk: "lastkey l' = lastkey r" using m(4) shape(3) by (simp add: lastkey_def)
  define ks' where "ks' = map lastkey (butlast (A @ l' # B))"
  have ks': "ks' = map lastkey A @ (if B = [] then [] else lastkey r # map lastkey (butlast B))"
    by (simp add: ks'_def butlast_append lk)
  have rem: "remove_at (length A) ks = ks'" by (simp add: ks ks' remove_at_def)
  have upd: "ks'[length A := lastkey r] = ks'" by (simp add: ks' list_update_append)
  have nl: "node_last_key l' = Inr (lastkey r)" if h0: "h = 0"
  proof -
    obtain a p where "l' = Surface a p" "surface_inv p" "0 < occupants p"
      using m(2,6) h0 by (cases l') simp_all
    then show ?thesis using last_key_ref_ok [of p] lk by (simp add: lastkey_def)
  qed
  have sl: "(if node_occupants ((A @ l' # r' # B) ! slot) \<noteq> 0 then Suc slot else slot) = Suc (length A)"
    using slot m(5,6) by (auto simp: nth_append)
  have rc: "remove_at (Suc (length A)) (A @ l' # r' # B) = A @ l' # B" by (simp add: remove_at_def)
  have "fix_merge (Suc h) slot ks (A @ l' # r' # B) = Inr (ks', A @ l' # B)"
    unfolding fix_merge_def Let_def sl rc using rem upd nl by (simp add: nth_append)
  moreover have "kids_inv h ks' (A @ l' # B)"
    using ar m(2,3) shape_fill_inv [OF m(2,3)] by (auto simp: kids_inv_def ks'_def around_def)
  moreover have "merge_at (length A) ks (A @ l # r # B) e = Inr (ks, A @ l' # r' # B, True, e')"
    using at m(1) by (simp add: merge_at_def nth_append list_update_append)
  moreover have "length ks = Suc (length ks')" by (simp add: ks ks')
  ultimately show ?thesis using m(4,7) by blast
qed

lemma shift_settle:
  assumes ar: "around h ks A [l, r] B" and f: "f l (lastkey l) r = Inr res" and post: "shift_post h l r res"
  shows "\<exists>ks' l' r'. shift_at f (length A) ks (A @ l # r # B) e = Inr (ks', A @ l' # r' # B, False, e) \<and>
    kids_inv h ks' (A @ l' # r' # B) \<and> entries l' @ entries r' = entries l @ entries r \<and>
    leaves l' @ leaves r' = leaves l @ leaves r \<and> length ks' = length ks"
proof -
  have ks: "ks = map lastkey A @ lastkey l # (if B = [] then [] else lastkey r # map lastkey (butlast B))"
    by (rule around_two [OF ar])
  obtain l' k r' where res: "res = (l', k, r')" by (cases res)
  have p: "node_shape h l'" "node_shape h r'" "fill_ok l'" "fill_ok r'" "entries l' @ entries r' = entries l @ entries r"
    "k = lastkey l'" "leaves l' @ leaves r' = leaves l @ leaves r" using post res by (simp_all add: shift_post_def)
  have er: "entries r \<noteq> []" "entries r' \<noteq> []"
    using ar entries_not_Nil [OF shape_fill_inv [OF p(2,4)] p(4)] by (simp_all add: around_def)
  have lk: "lastkey r' = lastkey r" using p(5) er unfolding lastkey_def by (metis last_appendR)
  have "kids_inv h (ks[length A := k]) (A @ l' # r' # B)"
    using ar p(3,4,6) shape_fill_inv [OF p(1,3)] shape_fill_inv [OF p(2,4)] lk
    by (auto simp: kids_inv_def around_def ks butlast_append list_update_append)
  moreover have "shift_at f (length A) ks (A @ l # r # B) e = Inr (ks[length A := k], A @ l' # r' # B, False, e)"
    using f res by (simp add: shift_at_def ks nth_append list_update_append)
  ultimately show ?thesis using p(5,7) by auto
qed

lemma around_left: "around h ks (A @ [x]) [c] B \<Longrightarrow> around h ks A [x, c] B"
  and around_right: "around h ks A [c] (x # B) \<Longrightarrow> around h ks A [c, x] B"
  using entries_not_Nil [of h x] by (auto simp: around_def node_inv_shape butlast_append)

text \<open>What settling a child promises of the parent's slots.\<close>

definition settled ::
    "nat \<Rightarrow> 'k list \<Rightarrow> ('k, 'v) node list \<Rightarrow> ('k, 'v) tree_env \<Rightarrow>
     'k list \<times> ('k, 'v) node list \<times> ('k, 'v) tree_env \<Rightarrow> bool" where
  "settled h ks cs e = (\<lambda>(ks', cs', e').
     kids_inv h ks' cs' \<and> concat (map entries cs') = concat (map entries cs) \<and>
     length ks \<le> Suc (length ks') \<and> length ks' \<le> length ks \<and>
     erase_links e e' (concat (map leaves cs)) (concat (map leaves cs')))"

lemma shape_leaf: "node_shape 0 n \<Longrightarrow> \<exists>a. leaves n = [a]"
  by (cases n) simp_all

lemma merge_settled:
  assumes ar: "around h ks A [l, r] B" and sum: "Suc (node_occupants l + node_occupants r) \<le> surfaceslotmax"
    "minsurfaces \<le> node_occupants l + node_occupants r" "0 < node_occupants l"
    and slot: "slot = length A \<or> slot = Suc (length A)"
  shows "\<exists>res. bindE (merge_at (length A) ks (A @ l # r # B) e) (\<lambda>(ks1, cs1, merged, e1).
      if merged then bindE (fix_merge (Suc h) slot ks1 cs1) (\<lambda>(ks2, cs2). Inr (ks2, cs2, e1))
      else Inr (ks1, cs1, e1)) = Inr res \<and> settled h ks (A @ l # r # B) e res"
proof -
  obtain ks' l' r' e' where m: "merge_at (length A) ks (A @ l # r # B) e = Inr (ks, A @ l' # r' # B, True, e')"
    "fix_merge (Suc h) slot ks (A @ l' # r' # B) = Inr (ks', A @ l' # B)" "kids_inv h ks' (A @ l' # B)"
    "entries l' = entries l @ entries r" "length ks = Suc (length ks')"
    "if h = 0 then leaves l' = leaves l \<and> e' = unlink_after (hd (leaves l)) (hd (leaves r)) e
     else leaves l' = leaves l @ leaves r \<and> e' = e"
    using merge_settle [OF assms, of e] by blast
  have "erase_links e e' (concat (map leaves (A @ l # r # B))) (concat (map leaves (A @ l' # B)))"
  proof (cases "h = 0")
    case True
    then have "node_shape 0 l" "node_shape 0 r" using ar by (simp_all add: around_def)
    then obtain a b where ab: "leaves l = [a]" "leaves r = [b]" using shape_leaf by blast
    then have "leaves l' = [a]" "e' = unlink_after a b e" using m(6) True by simp_all
    then show ?thesis using ab by (simp add: erase_links_unlink)
  next
    case False
    then show ?thesis using m(6) by simp
  qed
  then show ?thesis using m(1-5) by (simp add: settled_def)
qed

lemma shift_settled:
  assumes ar: "around h ks A [l, r] B" and f: "f l (lastkey l) r = Inr res" and post: "shift_post h l r res"
  shows "\<exists>res. bindE (shift_at f (length A) ks (A @ l # r # B) e) (\<lambda>(ks1, cs1, merged, e1).
      if merged then bindE (fix_merge (Suc h) slot ks1 cs1) (\<lambda>(ks2, cs2). Inr (ks2, cs2, e1))
      else Inr (ks1, cs1, e1)) = Inr res \<and> settled h ks (A @ l # r # B) e res"
proof -
  obtain ks' l' r' where m: "shift_at f (length A) ks (A @ l # r # B) e = Inr (ks', A @ l' # r' # B, False, e)"
    "kids_inv h ks' (A @ l' # r' # B)" "entries l' @ entries r' = entries l @ entries r"
    "leaves l' @ leaves r' = leaves l @ leaves r" "length ks' = length ks"
    using shift_settle [where f = f and e = e, OF assms] by blast
  have "erase_links e e (concat (map leaves (A @ l # r # B))) (concat (map leaves (A @ l' # r' # B)))"
  proof -
    have "concat (map leaves (A @ l # r # B)) = concat (map leaves (A @ l' # r' # B))" using m(4) by simp
    then show ?thesis by (simp only: erase_links_refl)
  qed
  then show ?thesis
    using m(1,2,5) arg_cong [OF m(3), of "\<lambda>x. x @ concat (map entries B)"] by (simp add: settled_def)
qed

text \<open>The cases of the underflow repair.\<close>

lemma settle_child_ok:
  assumes ar: "around h ks A [c] B" and occ: "minsurfaces \<le> Suc (node_occupants c)" and sib: "A \<noteq> [] \<or> B \<noteq> []"
    and left: "A \<noteq> [] \<Longrightarrow> left = Some (last A)" and right: "B \<noteq> [] \<Longrightarrow> right = Some (hd B)"
  shows "\<exists>res. settle_child (Suc h) (length A) left right ks (A @ c # B) e = Inr res \<and>
    settled h ks (A @ c # B) e res"
proof (cases "isunderflow c")
  case False
  then have "kids_inv h ks (A @ [c] @ B)"
    using around_kids [OF ar] by (simp add: isunderflow_iff fill_ok_occupants)
  then show ?thesis using False by (simp add: settle_child_def repair_child_def nth_append settled_def)
next
  case True
  then have oc: "Suc (node_occupants c) = minsurfaces" using occ by (simp add: isunderflow_iff)
  have len: "length ks = length A + length B" using ar by (simp add: around_def)
  have rp: "length A < length ks \<longleftrightarrow> B \<noteq> []" using len by auto
  have m: "0 < minsurfaces" "minsurfaces + minsurfaces \<le> surfaceslotmax" "1 < minsurfaces" by (simp_all add: limits)
  have start: "settle_child (Suc h) (length A) left right ks (A @ c # B) e =
      bindE (case choose_repair left right (A \<noteq> []) (B \<noteq> []) of
          Merge_left \<Rightarrow> merge_at (length A - 1) ks (A @ c # B) e
        | Merge_right \<Rightarrow> merge_at (length A) ks (A @ c # B) e
        | Shift_left \<Rightarrow> shift_at shift_nodes_left (length A) ks (A @ c # B) e
        | Shift_right \<Rightarrow> shift_at shift_nodes_right (length A - 1) ks (A @ c # B) e)
       (\<lambda>(ks1, cs1, merged, e1).
         if merged then bindE (fix_merge (Suc h) (length A) ks1 cs1) (\<lambda>(ks2, cs2). Inr (ks2, cs2, e1))
         else Inr (ks1, cs1, e1))"
    using True rp by (simp add: settle_child_def repair_child_def nth_append)
  have nb: "node_shape h x \<and> minsurfaces \<le> node_occupants x" if "x \<in> set A \<union> set B" for x
    using ar that by (auto simp: around_def node_inv_shape fill_ok_occupants)
  have c: "node_shape h c" using ar by (simp add: around_def)
  have ml: ?thesis if r: "choose_repair left right (A \<noteq> []) (B \<noteq> []) = Merge_left" "A \<noteq> []" "isfew (last A)"
  proof -
    obtain A' x where A: "A = A' @ [x]" using r(2) by (cases A rule: rev_cases) auto
    show ?thesis unfolding start r(1) repair.case
      using merge_settled [OF around_left [OF ar [unfolded A]], of "length A" e] nb [of x] r(3) oc m A
      by (simp add: isfew_iff)
  qed
  have mr: ?thesis if r: "choose_repair left right (A \<noteq> []) (B \<noteq> []) = Merge_right" "B \<noteq> []" "isfew (hd B)"
  proof -
    obtain x B' where B: "B = x # B'" using r(2) by (cases B) auto
    show ?thesis unfolding start r(1) repair.case
      using merge_settled [OF around_right [OF ar [unfolded B]], of "length A" e] nb [of x] r(3) oc m B
      by (simp add: isfew_iff)
  qed
  have sl: ?thesis if r: "choose_repair left right (A \<noteq> []) (B \<noteq> []) = Shift_left" "B \<noteq> []" "\<not> isfew (hd B)"
  proof -
    obtain x B' where B: "B = x # B'" using r(2) by (cases B) auto
    obtain res where "shift_nodes_left c (lastkey c) x = Inr res" "shift_post h c x res"
      using shift_nodes_left_ok [OF c conjunct1 [OF nb [of x]] refl oc] r(3) B by (auto simp: isfew_iff)
    then show ?thesis unfolding start r(1) repair.case
      using shift_settled [OF around_right [OF ar [unfolded B]], of shift_nodes_left] B by simp
  qed
  have sr: ?thesis if r: "choose_repair left right (A \<noteq> []) (B \<noteq> []) = Shift_right" "A \<noteq> []" "\<not> isfew (last A)"
  proof -
    obtain A' x where A: "A = A' @ [x]" using r(2) by (cases A rule: rev_cases) auto
    obtain res where "shift_nodes_right x (lastkey x) c = Inr res" "shift_post h x c res"
      using shift_nodes_right_ok [OF conjunct1 [OF nb [of x]] c refl oc] r(3) A by (auto simp: isfew_iff)
    then show ?thesis unfolding start r(1) repair.case
      using shift_settled [OF around_left [OF ar [unfolded A]], of shift_nodes_right] A by simp
  qed
  show ?thesis
  proof (cases "A = []")
    case True
    then have B: "B \<noteq> []" "right = Some (hd B)" using sib right by auto
    show ?thesis
      using mr sl B True by (cases left; cases "isfew (hd B)"; cases "isfew (the left)") (simp_all add: choose_repair_def Let_def)
  next
    case A: False
    then have l: "left = Some (last A)" using left by auto
    show ?thesis
    proof (cases "B = []")
      case True
      then show ?thesis using ml sr A l
        by (cases right; cases "isfew (last A)"; cases "isfew (the right)") (simp_all add: choose_repair_def Let_def)
    next
      case False
      then show ?thesis using ml mr sl sr A l right
        by (cases "isfew (last A)"; cases "isfew (hd B)"; cases "node_occupants (last A) \<le> node_occupants (hd B)")
          (simp_all add: choose_repair_def Let_def)
    qed
  qed
qed

end
