(* ===== verification/BTreeMap.thy ===== *)
theory BTreeMap
  imports BTreeRepair
begin

text \<open>
  Removal from the whole tree: the descent, the root, and the tree as an abstract map under any
  sequence of insertions, removals and lookups.
\<close>

section \<open>What a removal from a subtree establishes\<close>

text \<open>Removal from the sequence of entries.\<close>

definition del_list :: "'k \<Rightarrow> ('k \<times> 'v) list \<Rightarrow> ('k \<times> 'v) list" where
  "del_list k xs = filter (\<lambda>x. fst x \<noteq> k) xs"

lemma del_list_append [simp]: "del_list k (xs @ ys) = del_list k xs @ del_list k ys"
  by (simp add: del_list_def)

lemma del_list_absent [simp]: "k \<notin> fst ` set xs \<Longrightarrow> del_list k xs = xs"
  by (force simp: del_list_def filter_id_conv)

lemma set_del_list_keys: "fst ` set (del_list k xs) = fst ` set xs - {k}"
  by (auto simp: del_list_def)

lemma sorted_del_list: "sorted_keys xs \<Longrightarrow> sorted_keys (del_list k xs)"
  by (induction xs) (auto simp: del_list_def)

lemma remove_at_del_list:
  "sorted_keys xs \<Longrightarrow> i < length xs \<Longrightarrow> fst (xs ! i) = k \<Longrightarrow> remove_at i xs = del_list k xs"
proof (induction xs arbitrary: i)
  case (Cons x xs)
  show ?case
  proof (cases i)
    case 0
    then have "k \<notin> fst ` set xs" using Cons.prems by auto
    then show ?thesis using 0 Cons.prems del_list_absent [of k xs] by (simp add: remove_at_def del_list_def)
  next
    case (Suc j)
    then have "xs ! j \<in> set xs" "fst (xs ! j) = k" using Cons.prems by simp_all
    then have "fst x \<noteq> k" using Cons.prems(1) by fastforce
    then show ?thesis using Suc Cons.IH [of j] Cons.prems by (simp add: remove_at_def del_list_def)
  qed
qed simp

lemma length_del_list: "sorted_keys xs \<Longrightarrow> k \<in> fst ` set xs \<Longrightarrow> Suc (length (del_list k xs)) = length xs"
proof (induction xs)
  case (Cons x xs)
  show ?case
  proof (cases "fst x = k")
    case True
    then have "k \<notin> fst ` set xs" using Cons.prems by auto
    then show ?thesis using True del_list_absent [of k xs] by (simp add: del_list_def)
  next
    case False
    then show ?thesis using Cons by (auto simp: del_list_def)
  qed
qed simp

lemma map_of_del_list: "map_of (del_list k xs) = (map_of xs)(k := None)"
  by (induction xs) (auto simp: del_list_def fun_eq_iff)

definition erase_post ::
    "nat \<Rightarrow> 'k \<Rightarrow> ('k, 'v) node \<Rightarrow> ('k, 'v) tree_env \<Rightarrow> ('k, 'v) node \<times> 'k option \<times> ('k, 'v) tree_env \<Rightarrow> bool" where
  "erase_post h k n e = (\<lambda>(n', lk, e').
     node_shape h n' \<and> entries n' = del_list k (entries n) \<and> node_occupants n \<le> Suc (node_occupants n') \<and>
     (entries n' = [] \<or> lastkey n' = (case lk of None \<Rightarrow> lastkey n | Some x \<Rightarrow> x)) \<and>
     erase_links e e' (leaves n) (leaves n'))"

lemma last_remove_at: "i < length xs \<Longrightarrow> Suc i \<noteq> length xs \<Longrightarrow> last (remove_at i xs) = last xs"
  by (simp add: remove_at_def last_append)

lemma erase_surface_ok:
  assumes p: "surface_inv p" and srt: "sorted_keys (page_list p)"
  shows "if k \<in> fst ` set (page_list p)
    then \<exists>p' lk. erase_surface k p = Inr (Some (p', lk)) \<and> erase_post 0 k (Surface a p) e (Surface a p', lk, e)
    else erase_surface k p = Inr None"
proof -
  define q where "q = lower_pos k (map fst (page_list p))"
  obtain lf p1 where lf: "find_lower (\<lambda>i. get_key i p) (occupants p) (last_found p) k = Inr (q, lf)"
    and has: "surface_has k q (p\<lparr>last_found := lf\<rparr>) = Inr (k \<in> fst ` set (page_list p), p1)"
    and p1: "surface_inv p1" "page_list p1 = page_list p" "occupants p1 = occupants p"
    using surface_probe_ok [OF p srt, of k] unfolding q_def by blast
  define p2 where "p2 = erase_d q p1"
  have eq: "erase_surface k p = (if k \<in> fst ` set (page_list p) then
      if q = occupants p2 \<and> 1 \<le> occupants p2
      then bindE (last_key_ref p2) (\<lambda>(k, p3). Inr (Some (p3, Some k))) else Inr (Some (p2, None))
    else Inr None)"
    by (simp add: erase_surface_def lf has p2_def Let_def)
  show ?thesis
  proof (cases "k \<in> fst ` set (page_list p)")
    case True
    have len: "length (page_list p) = occupants p" using p by simp
    have q: "q < occupants p" "fst (page_list p ! q) = k"
      using True lower_pos_present [OF srt q_def] len by simp_all
    have p2: "surface_inv p2" "page_list p2 = remove_at q (page_list p)" "occupants p2 = occupants p - 1"
      using erase_d_ok [OF p1(1), of q] q(1) p1 by (simp_all add: p2_def)
    then have del: "page_list p2 = del_list k (page_list p)" using remove_at_del_list [OF srt _ q(2)] q len by simp
    have post: "erase_post 0 k (Surface a p) e (Surface a p', lk, e)"
      if "surface_inv p'" "page_list p' = page_list p2" "occupants p' = occupants p2"
        "page_list p2 = [] \<or> fst (last (page_list p2)) = (case lk of None \<Rightarrow> fst (last (page_list p)) | Some x \<Rightarrow> x)" for p' lk
      using that p2(3) q(1) by (simp add: erase_post_def del lastkey_def cong: option.case_cong)
    show ?thesis
    proof (cases "q = occupants p2 \<and> 1 \<le> occupants p2")
      case c: True
      then have "last_key_ref p2 = Inr (fst (last (page_list p2)), change p2)" using last_key_ref_ok [OF p2(1)] by simp
      then show ?thesis using True c post [of "change p2" "Some (fst (last (page_list p2)))"] p2(1) by (simp add: eq)
    next
      case c: False
      have "page_list p2 = [] \<or> last (page_list p2) = last (page_list p)"
      proof (cases "occupants p2 = 0")
        case True
        then show ?thesis using length_page_list [OF p2(1)] by auto
      next
        case False
        then have "Suc q \<noteq> length (page_list p)" using c p2(3) q(1) len by auto
        then show ?thesis using last_remove_at [of q "page_list p"] q(1) len by (simp add: p2(2))
      qed
      then show ?thesis using True c post [of p2 None] p2(1) by (auto simp: eq)
    qed
  qed (simp add: eq)
qed

lemma erase_links_child:
  "erase_links e e' (leaves c) (leaves c') \<Longrightarrow>
   erase_links e e' (concat (map leaves (A @ c # B))) (concat (map leaves (A @ c' # B)))"
  using erase_links_context [of e e' "leaves c" "leaves c'" "concat (map leaves A)" "concat (map leaves B)"] by simp

text \<open>The parent's frame after the child has lost its entry.\<close>

lemma erase_frame_ok:
  assumes kids: "kids_inv h ks (A @ c # B)" and two: "ks \<noteq> []" "length ks \<le> interiorslotmax"
    and child: "erase_post h k c e (c', lk, e1)"
    and absent: "k \<notin> fst ` set (concat (map entries A))" "k \<notin> fst ` set (concat (map entries B))"
    and left: "A \<noteq> [] \<Longrightarrow> left = Some (last A)" and right: "B \<noteq> [] \<Longrightarrow> right = Some (hd B)"
  defines "ks1 \<equiv> (case lk of None \<Rightarrow> ks | Some x \<Rightarrow> if length A < length ks then ks[length A := x] else ks)"
    and "lk1 \<equiv> (if length A < length ks then None else lk)"
  shows "\<exists>ks2 cs2 e2. settle_child (Suc h) (length A) left right ks1 (A @ c' # B) e1 = Inr (ks2, cs2, e2) \<and>
    erase_post (Suc h) k (Interior a (Suc h) lf ks (A @ c # B)) e (Interior a (Suc h) lf' ks2 cs2, lk1, e2)"
proof -
  have len: "length ks = length A + length B" using kids_inv_length [OF kids] by simp
  have B: "length A < length ks \<longleftrightarrow> B \<noteq> []" using len by auto
  have ks: "ks = map lastkey A @ (if B = [] then [] else lastkey c # map lastkey (butlast B))"
    using kids unfolding kids_inv_def by (simp add: butlast_append_Cons)
  have c: "node_inv h c" "fill_ok c" "entries c \<noteq> []" using kids kids_entries [OF kids, of c] by (simp_all add: kids_inv_def)
  have c': "node_shape h c'" "entries c' = del_list k (entries c)" "node_occupants c \<le> Suc (node_occupants c')"
    "erase_links e e1 (leaves c) (leaves c')" using child by (simp_all add: erase_post_def)
  have occ: "minsurfaces \<le> Suc (node_occupants c')" using c(2) c'(3) by (simp add: fill_ok_occupants)
  then have ne: "entries c' \<noteq> []" using shape_entries [OF c'(1)] by (auto simp: limits)
  then have lkc: "lastkey c' = (case lk of None \<Rightarrow> lastkey c | Some x \<Rightarrow> x)" using child by (simp add: erase_post_def)
  have ks1: "ks1 = map lastkey A @ (if B = [] then [] else lastkey c' # map lastkey (butlast B))"
    using lkc by (auto simp: ks1_def ks list_update_append split: option.splits)
  have "around h ks1 A [c'] B"
    using kids c'(1) ne by (auto simp: around_def ks1 butlast_append_Cons kids_inv_def)
  moreover have "A \<noteq> [] \<or> B \<noteq> []" using len two(1) by auto
  ultimately obtain ks2 cs2 e2 where st: "settle_child (Suc h) (length A) left right ks1 (A @ c' # B) e1 = Inr (ks2, cs2, e2)"
    "settled h ks1 (A @ c' # B) e1 (ks2, cs2, e2)"
    using settle_child_ok [of h ks1 A c' B left right e1] occ left right by (metis prod.exhaust)
  have len1: "length ks1 = length ks" by (auto simp: ks1_def split: option.splits)
  have ent: "concat (map entries cs2) = del_list k (concat (map entries (A @ c # B)))"
    using st(2) c'(2) absent by (simp add: settled_def)
  have "erase_links e e2 (concat (map leaves (A @ c # B))) (concat (map leaves cs2))"
    using erase_links_trans [OF erase_links_child [OF c'(4), of A B]] st(2) by (simp add: settled_def)
  moreover have "lastkey (Interior a (Suc h) lf' ks2 cs2) =
      (case lk1 of None \<Rightarrow> lastkey (Interior a (Suc h) lf ks (A @ c # B)) | Some x \<Rightarrow> x)"
  proof -
    have "lastkey (Interior a (Suc h) lf' ks2 cs2) = lastkey (Interior a (Suc h) lf' ks1 (A @ c' # B))"
      using st(2) by (simp add: settled_def lastkey_def)
    also have "\<dots> = (if B = [] then lastkey c' else fst (last (concat (map entries B))))"
      using ne kids_entries [OF kids] by (auto simp: lastkey_def)
    also have "\<dots> = (case lk1 of None \<Rightarrow> lastkey (Interior a (Suc h) lf ks (A @ c # B)) | Some x \<Rightarrow> x)"
      using lkc B c(3) kids_entries [OF kids] by (auto simp: lk1_def lastkey_def split: option.splits)
    finally show ?thesis .
  qed
  ultimately have "erase_post (Suc h) k (Interior a (Suc h) lf ks (A @ c # B)) e (Interior a (Suc h) lf' ks2 cs2, lk1, e2)"
    using st(2) two(2) ent len1 by (simp add: erase_post_def settled_def)
  then show ?thesis using st(1) by blast
qed

lemma erase_descend_ok:
  "node_inv h n \<Longrightarrow> sorted_keys (entries n) \<Longrightarrow>
   if k \<in> fst ` set (entries n)
   then \<exists>r. erase_descend k left right n e = Inr (Some r) \<and> erase_post h k n e r
   else erase_descend k left right n e = Inr None"
proof (induction n arbitrary: h left right)
  case (Surface a p)
  then show ?case using erase_surface_ok [of p k a e] by (auto split: if_splits)
next
  case (Interior a l lf ks cs)
  obtain g where h: "h = Suc g" "l = h" "ks \<noteq> []" "length ks \<le> interiorslotmax" and kids: "kids_inv g ks cs"
    using Interior.prems(1) by (cases h) (auto simp: node_inv_Interior simp del: node_inv.simps(2))
  have srt: "sorted_keys (concat (map entries cs))" using Interior.prems(2) by simp
  obtain A c B lf' where d: "cs = A @ c # B" "length A = lower_pos k ks" "node_inv g c" "sorted_keys (entries c)"
    "\<And>x. x \<in> set (concat (map entries A)) \<Longrightarrow> fst x < k" "\<And>x. x \<in> set (concat (map entries B)) \<Longrightarrow> k < fst x"
    "find_lower (\<lambda>i. Inr (ks ! i)) (length ks) lf k = Inr (length A, lf')"
    by (rule descend_split [where k = k and lf = lf, OF kids srt refl]) auto
  define myleft myright where "myleft = left_neighbour (length A) cs left"
    and "myright = right_neighbour (length A) ks cs right"
  have absent: "k \<notin> fst ` set (concat (map entries A))" "k \<notin> fst ` set (concat (map entries B))"
    using d(5,6) by fastforce+
  then have key: "k \<in> fst ` set (entries (Interior a l lf ks cs)) \<longleftrightarrow> k \<in> fst ` set (entries c)"
    by (auto simp: d(1))
  have len: "length ks = length A + length B" using kids_inv_length [OF kids] by (simp add: d(1))
  have lr: "A \<noteq> [] \<Longrightarrow> myleft = Some (last A)" "B \<noteq> [] \<Longrightarrow> myright = Some (hd B)"
    using len by (auto simp: myleft_def myright_def left_neighbour_def right_neighbour_def d(1) nth_append last_conv_nth hd_conv_nth)
  have IH: "if k \<in> fst ` set (entries c) then \<exists>r. erase_descend k myleft myright c e = Inr (Some r) \<and> erase_post g k c e r
    else erase_descend k myleft myright c e = Inr None"
    by (rule Interior.IH) (simp_all add: d(1,3,4))
  have c: "cs ! length A = c" "length A < length cs" "cs[length A := x] = A @ x # B" for x by (simp_all add: d(1))
  show ?case
  proof (cases "k \<in> fst ` set (entries c)")
    case True
    then obtain c' lk e1 where r: "erase_descend k myleft myright c e = Inr (Some (c', lk, e1))" "erase_post g k c e (c', lk, e1)"
      using IH by (metis prod.exhaust)
    obtain ks2 cs2 e2 where st: "settle_child (Suc g) (length A) myleft myright
        (case lk of None \<Rightarrow> ks | Some x \<Rightarrow> if length A < length ks then ks[length A := x] else ks) (A @ c' # B) e1 = Inr (ks2, cs2, e2)"
      "erase_post (Suc g) k (Interior a (Suc g) lf ks (A @ c # B)) e
        (Interior a (Suc g) lf' ks2 cs2, if length A < length ks then None else lk, e2)"
      using erase_frame_ok [OF kids [unfolded d(1)] h(3,4) r(2) absent lr] by blast
    have "erase_descend k left right (Interior a l lf ks cs) e =
        Inr (Some (Interior a (Suc g) lf' ks2 cs2, if length A < length ks then None else lk, e2))"
      using r(1) d(7) h(1,2) c st(1) by (simp add: myleft_def [symmetric] myright_def [symmetric] Let_def)
    then show ?thesis using True key st(2) h(1,2) d(1) by (simp del: entries_simps erase_descend.simps)
  next
    case False
    then show ?thesis using IH key d(7) c by (auto simp: myleft_def [symmetric] myright_def [symmetric] Let_def simp del: entries_simps)
  qed
qed

section \<open>The tree\<close>

lemma erase_one_ok:
  assumes inv: "tree_inv t"
  shows "\<exists>t'. erase_one k t = Inr (k \<in> fst ` set (contents t), t') \<and> tree_inv t' \<and>
    contents t' = del_list k (contents t)"
proof (cases "root t")
  case None
  then show ?thesis using inv by (simp add: erase_one_def contents_def del_list_def)
next
  case (Some r)
  have r: "node_inv (level r) r" "entries r = contents t" "linked (env t) (leaves r)"
    "\<forall>a\<in>set (leaves r). a < fresh (env t)" "0 < fresh (env t)" "tree_size t = length (contents t)"
    and srt: "sorted_keys (contents t)"
    using inv Some by (auto simp: tree_inv_def contents_def tree_surfaces_def leaves_def)
  show ?thesis
  proof (cases "k \<in> fst ` set (contents t)")
    case False
    then show ?thesis
      using inv Some erase_descend_ok [OF r(1), of k None None "env t"] r(2) srt by (simp add: erase_one_def)
  next
    case True
    obtain r1 lk e where d: "erase_descend k None None r (env t) = Inr (Some (r1, lk, e))"
      and post: "erase_post (level r) k r (env t) (r1, lk, e)"
      using erase_descend_ok [OF r(1), of k None None "env t"] r(2) srt True by (auto split: if_splits)
    have links: "erase_links (env t) e (leaves r) (leaves r1)" using post by (simp add: erase_post_def)
    have shape: "node_shape (level r) r1" "entries r1 = del_list k (contents t)" "linked e (leaves r1)"
      "\<forall>a\<in>set (leaves r1). a < fresh e" "0 < fresh e"
      using post r erase_links_linked [OF links] links by (auto simp: erase_post_def erase_links_def)
    define r2 where "r2 = (if node_occupants r1 = 0 then
        (case r1 of Surface a p \<Rightarrow> None | Interior a l lf ks cs \<Rightarrow> Some (cs ! 0)) else Some r1)"
    define e2 where "e2 = (if r2 = None then e\<lparr>headsurface := 0, last_surface := 0\<rparr> else e)"
    define t' where "t' = t\<lparr>root := r2, env := e2, tree_size := tree_size t - 1\<rparr>"
    have res: "erase_one k t = Inr (True, t')"
      using Some d by (cases r1) (auto simp: erase_one_def t'_def r2_def e2_def Let_def)
    have new: "case r2 of None \<Rightarrow> entries r1 = []
        | Some m \<Rightarrow> node_inv (level m) m \<and> entries m \<noteq> [] \<and> entries m = entries r1 \<and> leaves m = leaves r1"
    proof (cases "node_occupants r1 = 0")
      case False
      then have "node_inv (level r) r1" "entries r1 \<noteq> []"
        using shape(1) shape_entries by (simp_all add: node_inv_shape)
      then show ?thesis using False level_node_inv [of "level r" r1] by (simp add: r2_def)
    next
      case z: True
      show ?thesis
      proof (cases r1)
        case (Surface a p)
        then have "length (page_list p) = 0" using shape(1) z by simp
        then show ?thesis using Surface z by (simp add: r2_def)
      next
        case (Interior a l lf ks cs)
        then have kids: "kids_inv (level r - 1) [] cs" using shape(1) z by simp
        then obtain c where cs: "cs = [c]" using kids_inv_length [OF kids] by (cases cs) auto
        then have "node_inv (level r - 1) c" "entries c \<noteq> []"
          using kids kids_entries [OF kids, of c] by (simp_all add: kids_inv_def)
        then show ?thesis using Interior z cs level_node_inv [of "level r - 1" c] by (simp add: r2_def)
      qed
    qed
    have con: "contents t' = del_list k (contents t)"
      using new shape(2) by (auto simp: contents_def t'_def split: option.splits)
    have lv: "map fst (tree_surfaces t') = (if r2 = None then [] else leaves r1)"
      using new by (auto simp: t'_def tree_surfaces_def leaves_def split: option.splits)
    have "\<forall>a\<in>fst ` set (tree_surfaces t'). a < fresh (env t')"
      using shape(4) arg_cong [OF lv, of set] by (auto simp: t'_def e2_def)
    moreover have "linked (env t') (map fst (tree_surfaces t'))"
      using shape(3) unfolding lv by (simp add: t'_def e2_def linked_def)
    moreover have "0 < fresh (env t')" using shape(5) by (simp add: t'_def e2_def)
    moreover have "tree_size t' = length (contents t')"
      using length_del_list [OF srt True] r(6) by (simp add: con) (simp add: t'_def)
    moreover have "node_inv (level m) m \<and> entries m \<noteq> []" if "root t' = Some m" for m
      using new that by (auto simp: t'_def)
    ultimately have "tree_inv t'" using sorted_del_list [OF srt] con unfolding tree_inv_def by auto
    then show ?thesis using res con True by simp
  qed
qed

section \<open>The tree as a map with removal\<close>

datatype ('k, 'v) map_op = Put 'k 'v | Del 'k

fun op_map :: "('k, 'v) map_op \<Rightarrow> ('k \<rightharpoonup> 'v) \<Rightarrow> ('k \<rightharpoonup> 'v)" where
  "op_map (Put k v) m = (if k \<in> dom m then m else m(k \<mapsto> v))"
| "op_map (Del k) m = m(k := None)"

primrec ops_map :: "('k, 'v) map_op list \<Rightarrow> ('k \<rightharpoonup> 'v) \<Rightarrow> ('k \<rightharpoonup> 'v)" where
  "ops_map [] m = m"
| "ops_map (x # xs) m = ops_map xs (op_map x m)"

fun run_op :: "('k \<Rightarrow> 'v \<Rightarrow> 's \<Rightarrow> 'err + 's) \<Rightarrow> ('k \<Rightarrow> 's \<Rightarrow> 'err + 's) \<Rightarrow> ('k, 'v) map_op \<Rightarrow> 's \<Rightarrow> 'err + 's" where
  "run_op ins del (Put k v) s = ins k v s"
| "run_op ins del (Del k) s = del k s"

primrec run_ops ::
    "('k \<Rightarrow> 'v \<Rightarrow> 's \<Rightarrow> 'err + 's) \<Rightarrow> ('k \<Rightarrow> 's \<Rightarrow> 'err + 's) \<Rightarrow> ('k, 'v) map_op list \<Rightarrow> 's \<Rightarrow> 'err + 's" where
  "run_ops ins del [] s = Inr s"
| "run_ops ins del (x # xs) s = bindE (run_op ins del x s) (run_ops ins del xs)"

locale erasable_map_store = map_store inv abs ins look
  for inv :: "'s \<Rightarrow> bool" and abs :: "'s \<Rightarrow> 'k \<rightharpoonup> 'v" and ins :: "'k \<Rightarrow> 'v \<Rightarrow> 's \<Rightarrow> 'err + 's"
    and look :: "'k \<Rightarrow> 's \<Rightarrow> 'err + 'v option" +
  fixes del :: "'k \<Rightarrow> 's \<Rightarrow> 'err + 's"
  assumes del_ok: "inv s \<Longrightarrow> \<exists>s'. del k s = Inr s' \<and> inv s' \<and> abs s' = (abs s)(k := None)"
begin

lemma run_op_ok: "inv s \<Longrightarrow> \<exists>s'. run_op ins del x s = Inr s' \<and> inv s' \<and> abs s' = op_map x (abs s)"
  using ins_ok del_ok by (cases x) simp_all

lemma run_ops_ok: "inv s \<Longrightarrow> \<exists>s'. run_ops ins del xs s = Inr s' \<and> inv s' \<and> abs s' = ops_map xs (abs s)"
proof (induction xs arbitrary: s)
  case (Cons x xs)
  obtain s1 where "run_op ins del x s = Inr s1" "inv s1" "abs s1 = op_map x (abs s)"
    using run_op_ok [OF Cons.prems] by blast
  then show ?case using Cons.IH [of s1] by auto
qed simp

lemma run_ops_look:
  assumes "inv s"
  shows "\<exists>s'. run_ops ins del xs s = Inr s' \<and> inv s' \<and> (\<forall>k. look k s' = Inr (ops_map xs (abs s) k))"
  using run_ops_ok [OF assms] look_ok by fastforce

end

definition erase_map :: "'k::linorder \<Rightarrow> ('k, 'v) btree \<Rightarrow> ('k, 'v) btree result" where
  "erase_map k t = bindE (erase k t) (\<lambda>(n, t'). Inr t')"

interpretation btree_store: erasable_map_store tree_inv "\<lambda>t. map_of (contents t)" insert_map direct erase_map
proof
  fix t :: "('k::linorder, 'v) btree" and k
  assume "tree_inv t"
  then obtain t' where "erase_one k t = Inr (k \<in> fst ` set (contents t), t')" "tree_inv t'"
    "contents t' = del_list k (contents t)" using erase_one_ok by blast
  then show "\<exists>t'. erase_map k t = Inr t' \<and> tree_inv t' \<and> map_of (contents t') = (map_of (contents t))(k := None)"
    by (simp add: erase_map_def erase_def map_of_del_list)
qed

section \<open>Properties\<close>

text \<open>
  C8.  Erasing a key from a well formed tree returns (no page throws, every merge and shift of the
  underflow repair included), keeps the tree well formed, removes exactly the entry with the key and
  counts it.
\<close>

theorem erase_correct:
  assumes "tree_inv t"
  shows "\<exists>t'. erase k t = Inr (if k \<in> fst ` set (contents t) then 1 else 0, t') \<and> tree_inv t' \<and>
    contents t' = filter (\<lambda>x. fst x \<noteq> k) (contents t)"
proof -
  obtain t' where "erase_one k t = Inr (k \<in> fst ` set (contents t), t')" "tree_inv t'"
    "contents t' = del_list k (contents t)" using erase_one_ok [OF assms] by blast
  then show ?thesis by (simp add: erase_def del_list_def)
qed

theorem erase_correct_witness:
  "\<exists>t t'. insert_range [(5 :: nat, ''e''), (3, ''c'')] (empty_tree 0 []) = Inr t \<and>
    erase 3 t = Inr (1, t') \<and> tree_inv t' \<and> contents t' = filter (\<lambda>x. fst x \<noteq> 3) (contents t)"
proof -
  obtain t where t: "insert_range [(5 :: nat, ''e''), (3, ''c'')] (empty_tree 0 []) = Inr t" "tree_inv t"
    "map_of (contents t) = map_of [(5, ''e''), (3, ''c'')]"
    using insert_range_ok [of "[(5 :: nat, ''e''), (3, ''c'')]" 0 "[]"] by blast
  then have "3 \<in> fst ` set (contents t)" using map_of_eq_None_iff [of "contents t" 3] by simp
  then show ?thesis using t erase_correct [OF t(2), of 3] by auto
qed

text \<open>
  C1.  Any interleaving of insertions and removals on an empty tree runs to its end, leaves a well
  formed tree, and the lookup \<^verbatim>\<open>direct\<close> then answers as the map on which the same operations were made.
\<close>

theorem tree_refines_map:
  "\<exists>t. run_ops insert_map erase_map ops (empty_tree k0 v0) = Inr t \<and> tree_inv t \<and>
    (\<forall>k. direct k t = Inr (ops_map ops Map.empty k))"
  using btree_store.run_ops_look [of "empty_tree k0 v0" ops] by simp

end
