(* ===== verification/BTreeIter.thy ===== *)
theory BTreeIter
  imports BTreeFind
begin

text \<open>
  The iterators of \<^verbatim>\<open>src/src/stx/btree.h\<close>, classes \<^verbatim>\<open>iterator_base\<close> and \<^verbatim>\<open>iterator\<close>: a surface and
  a slot, moved along the linked surfaces.  The null iterator has address 0.  An iterator that was
  taken to the end of a surface stays valid for as long as the tree is not changed; the check points
  and the reference counts of the surfaces are left out.
\<close>

section \<open>Operations\<close>

type_synonym tree_iterator = "nat \<times> nat"

text \<open>A dereference of the surface of an iterator.\<close>

definition current_page :: "('k, 'v) btree \<Rightarrow> tree_iterator \<Rightarrow> ('k, 'v) surface_node result" where
  "current_page t it = (case page_at t (fst it) of None \<Rightarrow> Inl Bad_pointer | Some p \<Rightarrow> Inr p)"

text \<open>\<^verbatim>\<open>key()\<close> and \<^verbatim>\<open>data()\<close> of a const iterator.\<close>

definition it_key :: "('k, 'v) btree \<Rightarrow> tree_iterator \<Rightarrow> 'k result" where
  "it_key t it = bindE (current_page t it) (\<lambda>p. get_key (snd it) p)"

definition it_data :: "('k, 'v) btree \<Rightarrow> tree_iterator \<Rightarrow> 'v result" where
  "it_data t it = bindE (current_page t it) (\<lambda>p. get_value (snd it) p)"

definition is_valid :: "('k, 'v) btree \<Rightarrow> tree_iterator \<Rightarrow> bool result" where
  "is_valid t it = bindE (current_page t it) (\<lambda>p. Inr (snd it < occupants p))"

text \<open>\<^verbatim>\<open>operator++\<close> and \<^verbatim>\<open>operator--\<close>; a slot is an unsigned short.\<close>

definition it_next :: "('k, 'v) btree \<Rightarrow> tree_iterator \<Rightarrow> tree_iterator result" where
  "it_next t it =
     bindE (current_page t it) (\<lambda>p.
       if Suc (snd it) < occupants p then Inr (fst it, Suc (snd it))
       else if next_of (env t) (fst it) \<noteq> 0 then Inr (next_of (env t) (fst it), 0)
       else Inr (fst it, occupants p))"












section \<open>Where an iterator stands\<close>

text \<open>The surfaces around the one of an iterator.\<close>

definition stands :: "('k, 'v) btree \<Rightarrow> (nat \<times> ('k, 'v) surface_node) list \<Rightarrow> ('k, 'v) surface_node \<Rightarrow>
    (nat \<times> ('k, 'v) surface_node) list \<Rightarrow> tree_iterator \<Rightarrow> bool" where
  "stands t xs p ys it \<longleftrightarrow> tree_surfaces t = xs @ (fst it, p) # ys \<and> snd it \<le> occupants p"

text \<open>An iterator as the operations give it: on an entry, or behind the last one of the tree.\<close>

definition iterator_ok :: "('k, 'v) btree \<Rightarrow> tree_iterator \<Rightarrow> bool" where
  "iterator_ok t it \<longleftrightarrow> (\<exists>xs p ys. stands t xs p ys it \<and> (snd it < occupants p \<or> ys = []))"

lemma iterator_okI: "stands t xs p ys it \<Longrightarrow> snd it < occupants p \<or> ys = [] \<Longrightarrow> iterator_ok t it"
  unfolding iterator_ok_def by blast

definition position :: "('k, 'v) btree \<Rightarrow> tree_iterator \<Rightarrow> nat" where
  "position t it = it_index (tree_surfaces t) it"

lemma nonempty_surfaces: "node_inv h n \<Longrightarrow> entries n \<noteq> [] \<Longrightarrow> (a, p) \<in> set (surfaces n) \<Longrightarrow> surface_inv p \<and> 0 < occupants p"
proof (induction n arbitrary: h)
  case (Surface b q)
  then show ?case by (auto simp flip: length_page_list)
next
  case (Interior b l lf ks cs)
  obtain c where c: "c \<in> set cs" "(a, p) \<in> set (surfaces c)" using Interior.prems(3) by auto
  have "node_inv (h - 1) c" "fill_ok c" using Interior.prems(1) c(1) by auto
  then show ?case using Interior.IH [OF c(1) _ _ c(2)] entries_not_Nil by blast
qed

lemma stands_facts:
  assumes inv: "tree_inv t" and s: "stands t xs p ys it"
  shows "current_page t it = Inr p" "surface_inv p" "0 < occupants p" "fst it \<noteq> 0"
    "next_of (env t) (fst it) = (if ys = [] then 0 else fst (hd ys))"
    "preceding_of (env t) (fst it) = (if xs = [] then 0 else fst (last xs))"
    "position t it = length (concat (map (page_list \<circ> snd) xs)) + snd it"
    "contents t = concat (map (page_list \<circ> snd) xs) @ page_list p @ concat (map (page_list \<circ> snd) ys)"
proof -
  have ts: "tree_surfaces t = xs @ (fst it, p) # ys" using s by (simp add: stands_def)
  then obtain r where r: "root t = Some r" "surfaces r = xs @ (fst it, p) # ys" by (auto simp: tree_surfaces_def split: option.splits)
  have l: "linked (env t) (map fst (tree_surfaces t))" using inv by (simp add: tree_inv_def)
  then have d: "distinct (map fst xs @ fst it # map fst ys)" "0 \<notin> set (map fst xs @ fst it # map fst ys)"
    and c: "chain (env t) 0 (map fst xs @ fst it # map fst ys)" by (auto simp: linked_def ts)
  have "map_of (tree_surfaces t) (fst it) = Some p"
    unfolding ts using d(1) by (intro map_of_is_SomeI) auto
  then show "current_page t it = Inr p" by (simp add: current_page_def page_at_def)
  show "surface_inv p" "0 < occupants p"
    using nonempty_surfaces [of "level r" r "fst it" p] inv r by (auto simp: tree_inv_def)
  show "fst it \<noteq> 0" using d(2) by auto
  show "next_of (env t) (fst it) = (if ys = [] then 0 else fst (hd ys))" using chain_next [OF c] by (cases ys) auto
  have "preceding_of e a = (if xs = [] then b else fst (last xs))" if "chain e b (map fst xs @ a # zs)" for e a b zs
    using that by (induction xs arbitrary: b) auto
  from this [OF c] show "preceding_of (env t) (fst it) = (if xs = [] then 0 else fst (last xs))" .
  show "position t it = length (concat (map (page_list \<circ> snd) xs)) + snd it"
    unfolding position_def ts using it_index_skip [of it xs "(fst it, p) # ys"] d(1) by auto
  show "contents t = concat (map (page_list \<circ> snd) xs) @ page_list p @ concat (map (page_list \<circ> snd) ys)"
    using r by (simp add: contents_def entries_def)
qed

lemma page_entry:
  assumes "surface_inv p" "i < occupants p"
  shows "get_key i p = Inr (fst (page_list p ! i))" "get_value i p = Inr (snd (page_list p ! i))"
  using assms surface_invD(6) [of p i] by (auto simp: get_key_def get_value_def page_list_def surface_inv_def)

lemma on_entry:
  assumes inv: "tree_inv t" and ok: "iterator_ok t it" and i: "position t it < length (contents t)"
  shows "it_key t it = Inr (fst (contents t ! position t it))" "it_data t it = Inr (snd (contents t ! position t it))"
    "is_valid t it = Inr True"
proof -
  obtain xs p ys where s: "stands t xs p ys it" "snd it < occupants p \<or> ys = []" using ok by (auto simp: iterator_ok_def)
  note f = stands_facts [OF inv s(1)]
  have l: "snd it < occupants p" using s(2) i by (auto simp: f(2,7,8))
  have "contents t ! position t it = page_list p ! snd it" using l by (simp add: f(2,7,8) nth_append)
  then show "it_key t it = Inr (fst (contents t ! position t it))" "it_data t it = Inr (snd (contents t ! position t it))"
    "is_valid t it = Inr True"
    using l page_entry [OF f(2) l] by (simp_all add: it_key_def it_data_def is_valid_def f(1))
qed

lemma position_le:
  assumes inv: "tree_inv t" and ok: "iterator_ok t it"
  shows "position t it \<le> length (contents t)" "position t it = length (contents t) \<Longrightarrow> it = end_it t"
proof -
  obtain xs p ys where s: "stands t xs p ys it" "snd it < occupants p \<or> ys = []" using ok by (auto simp: iterator_ok_def)
  note f = stands_facts [OF inv s(1)]
  show "position t it \<le> length (contents t)" using s(1) by (simp add: f(2,7,8) stands_def)
  assume e: "position t it = length (contents t)"
  have ys: "ys = []" "snd it = occupants p" using s(1,2) e by (auto simp: f(2,7,8) stands_def)
  have "linked (env t) (map fst (tree_surfaces t))" using inv by (simp add: tree_inv_def)
  then have "last_surface (env t) = fst it" using s(1) ys(1) by (simp add: linked_def stands_def)
  moreover have "page_at t (fst it) = Some p" using f(1) by (simp add: current_page_def split: option.splits)
  ultimately show "it = end_it t" using f(4) ys(2) by (simp add: end_it_def prod_eq_iff)
qed

lemma begin_end_ok:
  assumes inv: "tree_inv t" and ne: "contents t \<noteq> []"
  shows "iterator_ok t (begin_it t)" "position t (begin_it t) = 0" "iterator_ok t (end_it t)" "position t (end_it t) = length (contents t)"
proof -
  have l: "linked (env t) (map fst (tree_surfaces t))" using inv by (simp add: tree_inv_def)
  have ts: "tree_surfaces t \<noteq> []" using ne by (auto simp: tree_surfaces_def contents_def entries_def split: option.splits)
  then obtain a p ys where hd: "tree_surfaces t = (a, p) # ys" by (metis list.exhaust prod.exhaust)
  have b: "begin_it t = (a, 0)" using l hd by (simp add: begin_it_def linked_def)
  have s: "stands t [] p ys (a, 0)" using hd by (simp add: stands_def)
  show "iterator_ok t (begin_it t)" "position t (begin_it t) = 0"
    using s stands_facts [OF inv s] by (auto simp: b iterator_ok_def)
  obtain zs c q where la: "tree_surfaces t = zs @ [(c, q)]" using ts by (metis append_butlast_last_id surj_pair)
  have s0: "stands t zs q [] (c, 0)" using la by (simp add: stands_def)
  note f = stands_facts [OF inv s0]
  have "page_at t c = Some q" using f(1) by (simp add: current_page_def split: option.splits)
  then have e: "end_it t = (c, occupants q)" using l la f(4) by (simp add: end_it_def linked_def)
  have s1: "stands t zs q [] (c, occupants q)" using la by (simp add: stands_def)
  show "iterator_ok t (end_it t)" "position t (end_it t) = length (contents t)"
    using s1 stands_facts [OF inv s1] by (auto simp: e iterator_ok_def)
qed

section \<open>Steps\<close>

lemma it_next_ok:
  assumes inv: "tree_inv t" and ok: "iterator_ok t it"
  shows "\<exists>it'. it_next t it = Inr it' \<and> iterator_ok t it' \<and> position t it' = min (Suc (position t it)) (length (contents t))"
proof -
  obtain xs p ys where s: "stands t xs p ys it" "snd it < occupants p \<or> ys = []" using ok by (auto simp: iterator_ok_def)
  note f = stands_facts [OF inv s(1)]
  show ?thesis
  proof (cases "Suc (snd it) < occupants p \<or> ys = []")
    case True
    define it' where "it' = (fst it, if Suc (snd it) < occupants p then Suc (snd it) else occupants p)"
    have s': "stands t xs p ys it'" using s(1) by (auto simp: stands_def it'_def)
    have "it_next t it = Inr it'" using True by (auto simp: it_next_def it'_def f(1,5))
    moreover have "iterator_ok t it'" by (rule iterator_okI [OF s']) (use True in \<open>auto simp: it'_def\<close>)
    moreover have "position t it' = min (Suc (position t it)) (length (contents t))"
      using stands_facts(7) [OF inv s'] True s(1) by (auto simp: f(2,7,8) it'_def stands_def)
    ultimately show ?thesis by blast
  next
    case False
    then obtain b q zs where ys: "ys = (b, q) # zs" by (metis list.exhaust prod.exhaust)
    have s': "stands t (xs @ [(fst it, p)]) q zs (b, 0)" using s(1) ys by (simp add: stands_def)
    note f' = stands_facts [OF inv s']
    have "it_next t it = Inr (b, 0)" using False f(1,5) f'(4) ys by (simp add: it_next_def)
    moreover have "iterator_ok t (b, 0)" using s' f'(3) by (auto simp: iterator_ok_def)
    moreover have "position t (b, 0) = min (Suc (position t it)) (length (contents t))"
      using False s(2) by (auto simp: f(2) f(7) f(8) f'(7) ys)
    ultimately show ?thesis by blast
  qed
qed



section \<open>Leaps\<close>







section \<open>Correctness of the iterators\<close>

text \<open>The loop of a client from an iterator to \<^verbatim>\<open>end()\<close>, and the entries it sees.\<close>

partial_function (option) scan :: "('k, 'v) btree \<Rightarrow> tree_iterator \<Rightarrow> ('k \<times> 'v) list result option" where
  "scan t it =
     (if it = end_it t then Some (Inr [])
      else
        (case bindE (it_key t it) (\<lambda>k. bindE (it_data t it) (\<lambda>v. bindE (it_next t it) (\<lambda>it'. Inr ((k, v), it')))) of
           Inl e \<Rightarrow> Some (Inl e)
         | Inr (x, it') \<Rightarrow>
             Option.bind (scan t it') (\<lambda>r. Some (bindE r (\<lambda>xs. Inr (x # xs))))))"

lemma scan_ok:
  assumes inv: "tree_inv t"
  shows "iterator_ok t it \<Longrightarrow> scan t it = Some (Inr (drop (position t it) (contents t)))"
proof (induction "length (contents t) - position t it" arbitrary: it)
  case 0
  then have "position t it = length (contents t)" using position_le(1) [OF inv 0(2)] by simp
  then show ?case using position_le(2) [OF inv 0(2)] by (subst scan.simps) simp
next
  case (Suc n)
  then have l: "position t it < length (contents t)" by simp
  have ne: "it \<noteq> end_it t" using l begin_end_ok(4) [OF inv] by (metis length_0_conv less_irrefl not_less0)
  note e = on_entry [OF inv Suc.prems l]
  obtain it' where it': "it_next t it = Inr it'" "iterator_ok t it'" "position t it' = Suc (position t it)"
    using it_next_ok [OF inv Suc.prems] l by auto
  have "scan t it' = Some (Inr (drop (position t it') (contents t)))" by (rule Suc.hyps(1) [OF _ it'(2)]) (use Suc.hyps(2) it'(3) in simp)
  then show ?case using ne e it'(1,3) Cons_nth_drop_Suc [OF l] by (subst scan.simps) simp
qed

text \<open>
  C12.  Iteration ends and sees everything.  On a well formed tree the loop from \<^verbatim>\<open>begin()\<close> with
  \<^verbatim>\<open>operator++\<close> reaches \<^verbatim>\<open>end()\<close>, no dereference on the way throws, and the keys and values it
  reads are exactly the entries of the tree in ascending order.
\<close>

theorem iteration_complete:
  assumes "tree_inv t"
  shows "scan t (begin_it t) = Some (Inr (contents t)) \<and> sorted_keys (contents t)"
proof (cases "contents t = []")
  case True
  have l: "linked (env t) (map fst (tree_surfaces t))" using assms by (simp add: tree_inv_def)
  have "root t = None" using assms True by (auto simp: tree_inv_def contents_def split: option.splits)
  then have "begin_it t = end_it t" using l by (simp add: begin_it_def end_it_def linked_def tree_surfaces_def)
  then show ?thesis using True assms by (subst scan.simps) (simp add: tree_inv_def)
next
  case False
  note b = begin_end_ok [OF assms False]
  show ?thesis using scan_ok [OF assms b(1)] assms by (simp add: b(2) tree_inv_def)
qed

theorem iteration_complete_witness:
  "\<exists>t. insert_range [(5 :: nat, ''e''), (3, ''c''), (8, ''h'')] (empty_tree 0 []) = Inr t \<and>
    scan t (begin_it t) = Some (Inr [(3, ''c''), (5, ''e''), (8, ''h'')])"
proof -
  obtain t where t: "insert_range [(5 :: nat, ''e''), (3, ''c''), (8, ''h'')] (empty_tree 0 []) = Inr t"
    "tree_inv t" using insert_range_ok [of "[(5 :: nat, ''e''), (3, ''c''), (8, ''h'')]" 0 "[]"] by blast
  have "map_option contents (case insert_range [(5 :: nat, ''e''), (3, ''c''), (8, ''h'')] (empty_tree 0 []) of Inl e \<Rightarrow> None | Inr t \<Rightarrow> Some t) =
      Some [(3, ''c''), (5, ''e''), (8, ''h'')]" by code_simp
  then show ?thesis using iteration_complete [OF t(2)] t(1) by simp
qed







end
