(* ===== verification/BlockStore.thy ===== *)
theory BlockStore
  imports Prelude "HOL-Library.AList"
begin

text \<open>
  The block store of \<^verbatim>\<open>src/src/storage/transactions/transactional_storage.h\<close>, class
  \<^verbatim>\<open>sqlite_allocator\<close>: blocks of bytes under virtual addresses, held in a cache of descriptors above
  a table of an SQLite file.  Hash maps are association lists with distinct keys, their order the
  unspecified order of iteration.  The file is its table of rows; a session is the table as the open
  connection sees it, written back by \<^verbatim>\<open>commit\<close> and dropped by \<^verbatim>\<open>rollback\<close>.  A statement that finds
  no row leaves the variables it is bound to as they were.  The store is modelled without replication
  control (\<^verbatim>\<open>repl\<close> is null) and for one thread at a time; timers and log output are left out, and
  the recycler of descriptors is always empty, because nothing is put into it.
\<close>

section \<open>Data\<close>

datatype storage_action = Read | Write | Create

text \<open>The exceptions; \<open>Out_of_range\<close> is thrown by \<^verbatim>\<open>at\<close> of a map, \<open>Std_exception\<close> is \<^verbatim>\<open>std::exception\<close>.\<close>

datatype store_error =
  Invalid_address | Invalid_storage_action | Writer_consistency_violation | Concurrent_writer_error
| Invalid_version | Invalid_writer_order | Invalid_transaction_type | Invalid_reader_count
| Replication_failure | Out_of_range | Std_exception

type_synonym 'a store_result = "store_error + 'a"

text \<open>
  Addresses are 64-bit, versions are UUIDs in their order; 0 is the null address and the empty version.
\<close>

type_synonym address = nat
type_synonym version = nat

record block_descriptor =
  desc_version :: version
  desc_clock :: u32
  desc_mod :: storage_action
  desc_use :: int
  desc_compressed :: bool
  desc_block :: buffer

type_synonym rows = "(address \<times> version \<times> buffer) list"

record sqlite_allocator =
  references :: nat
  transient :: bool
  busy :: bool
  versions :: "(address \<times> version) list"
  allocations :: "(address \<times> block_descriptor) list"
  next_address :: address
  currently_active :: address
  alloc_changes :: nat
  alloc_version :: version
  allocated_version :: version
  transacted :: bool
  alloc_clock :: u32
  alloc_use :: int
  is_new :: bool
  is_read_cache :: bool
  is_all_loaded :: bool
  alloc_result :: "address option"
  local_writes :: bool
  read_block :: buffer
  current_address :: address
  current_version :: version
  encoded_block :: buffer
  current_block :: buffer
  file_rows :: "rows option"
  session :: "rows option"

text \<open>
  What the store asks of its surroundings: the capacity of a vector (at least its size), whether
  \<^verbatim>\<open>buffer_allocation_pool.is_near_depleted()\<close>, and whether the whole file may be read into memory
  (\<^verbatim>\<open>block_read_ahead\<close> is set and the file fits below \<^verbatim>\<open>max_mem_use\<close>).
\<close>

record host =
  capacity :: "buffer \<Rightarrow> nat"
  near_depleted :: bool
  may_read_ahead :: bool

text \<open>A reference \<^verbatim>\<open>block_type &\<close> is to the end block, to the buffer of uncached reads or to a descriptor.\<close>

datatype block_ref = End_block | Read_block | Cached address

section \<open>Descriptors\<close>

definition new_descriptor :: "version \<Rightarrow> block_descriptor" where
  "new_descriptor v = \<lparr>desc_version = v, desc_clock = 0, desc_mod = Read, desc_use = 0,
     desc_compressed = False, desc_block = []\<rparr>"

definition set_storage_action :: "storage_action \<Rightarrow> block_descriptor \<Rightarrow> block_descriptor" where
  "set_storage_action action d = (if desc_mod d \<noteq> Read then d else d\<lparr>desc_mod := action\<rparr>)"

definition set_written :: "block_descriptor \<Rightarrow> block_descriptor" where
  "set_written d = d\<lparr>desc_mod := Read\<rparr>"

definition is_modified :: "block_descriptor \<Rightarrow> bool" where
  "is_modified d \<longleftrightarrow> desc_mod d \<noteq> Read"

text \<open>24 is \<^verbatim>\<open>sizeof(block_type)\<close>, 32 the allowance for the allocations table.\<close>

definition get_block_use :: "host \<Rightarrow> block_descriptor \<Rightarrow> int" where
  "get_block_use h d = int (capacity h (desc_block d)) + 24 + 32"

definition reflect_block_use :: "host \<Rightarrow> block_descriptor \<Rightarrow> int \<times> block_descriptor" where
  "reflect_block_use h d = (get_block_use h d - desc_use d, d\<lparr>desc_use := get_block_use h d\<rparr>)"

definition up_use :: "int \<Rightarrow> sqlite_allocator \<Rightarrow> sqlite_allocator" where
  "up_use c a = a\<lparr>alloc_use := alloc_use a + c\<rparr>"

definition down_use :: "int \<Rightarrow> sqlite_allocator \<Rightarrow> sqlite_allocator" where
  "down_use c a = a\<lparr>alloc_use := alloc_use a - c\<rparr>"

text \<open>\<^verbatim>\<open>up_use(reflect_block_use(d))\<close> for the descriptor in the cache at an address.\<close>

definition reflect_at :: "host \<Rightarrow> address \<Rightarrow> sqlite_allocator \<Rightarrow> sqlite_allocator" where
  "reflect_at h w a =
     (case map_of (allocations a) w of
        None \<Rightarrow> a
      | Some d \<Rightarrow> let (c, d') = reflect_block_use h d in
          up_use c (a\<lparr>allocations := AList.update w d' (allocations a)\<rparr>))"

section \<open>The file and its session\<close>

definition the_rows :: "rows option \<Rightarrow> rows" where
  "the_rows r = (case r of None \<Rightarrow> [] | Some rs \<Rightarrow> rs)"

definition get_session :: "sqlite_allocator \<Rightarrow> sqlite_allocator" where
  "get_session a =
     (case session a of
        Some r \<Rightarrow> a
      | None \<Rightarrow>
          let r = the_rows (file_rows a) in
          a\<lparr>session := Some r, file_rows := Some r, is_new := False,
            next_address := max (foldr max (map fst r) 0) (next_address a)\<rparr>)"

text \<open>\<^verbatim>\<open>INSERT OR REPLACE\<close>; outside a transaction it reaches the file at once.\<close>

definition insert_row :: "address \<Rightarrow> version \<times> buffer \<Rightarrow> sqlite_allocator \<Rightarrow> sqlite_allocator" where
  "insert_row w r a =
     (let s = map_option (AList.update w r) (session a) in
      a\<lparr>session := s, file_rows := if transacted a then file_rows a else s\<rparr>)"

definition add_buffer :: "address \<Rightarrow> version \<Rightarrow> buffer \<Rightarrow> sqlite_allocator \<Rightarrow> sqlite_allocator" where
  "add_buffer w v b a =
     insert_row w (v, b) (a\<lparr>current_address := w, current_version := v, encoded_block := b\<rparr>)"

definition get_exists :: "address \<Rightarrow> sqlite_allocator \<Rightarrow> bool \<times> sqlite_allocator" where
  "get_exists w a =
     (if is_new a then (False, a)
      else if next_address a \<le> w then (False, a)
      else let a1 = get_session a in (map_of (the_rows (session a1)) w \<noteq> None, a1))"

definition get_buffer :: "address \<Rightarrow> sqlite_allocator \<Rightarrow> (bool \<times> sqlite_allocator) store_result" where
  "get_buffer w a =
     (if w = 0 then Inl Invalid_address
      else if is_new a then Inr (False, a)
      else
        let a1 = (get_session a)\<lparr>current_block := [], current_version := 0\<rparr>;
            a2 = (case map_of (the_rows (session a1)) w of
                    None \<Rightarrow> a1
                  | Some (v, b) \<Rightarrow> a1\<lparr>current_address := w, current_version := v, encoded_block := b\<rparr>) in
        if current_address a2 = w then Inr (True, a2\<lparr>current_block := encoded_block a2\<rparr>)
        else Inr (False, a2))"

definition begin_transaction :: "sqlite_allocator \<Rightarrow> sqlite_allocator" where
  "begin_transaction a = (if transacted a then a else (get_session a)\<lparr>transacted := True\<rparr>)"

definition commit_storage :: "sqlite_allocator \<Rightarrow> sqlite_allocator" where
  "commit_storage a =
     (if transacted a then a\<lparr>file_rows := session a, transacted := False\<rparr> else a\<lparr>transacted := False\<rparr>)"

section \<open>Versions\<close>

definition has_version :: "address \<Rightarrow> sqlite_allocator \<Rightarrow> version" where
  "has_version w a = (case map_of (versions a) w of None \<Rightarrow> 0 | Some v \<Rightarrow> v)"

definition version_off :: "address \<Rightarrow> sqlite_allocator \<Rightarrow> version \<times> sqlite_allocator" where
  "version_off w a =
     (if has_version w a = 0 then (0, a\<lparr>versions := AList.update w 0 (versions a)\<rparr>)
      else (alloc_version a, a))"

definition create_block :: "address \<Rightarrow> version \<Rightarrow> sqlite_allocator \<Rightarrow> block_descriptor \<times> sqlite_allocator" where
  "create_block w v a = (new_descriptor v, a\<lparr>versions := AList.update w v (versions a)\<rparr>)"

definition recycle_block :: "host \<Rightarrow> address \<Rightarrow> sqlite_allocator \<Rightarrow> sqlite_allocator" where
  "recycle_block h w a =
     (case map_of (allocations a) w of
        None \<Rightarrow> a
      | Some d \<Rightarrow> let (c, d') = reflect_block_use h d in
          (down_use (get_block_use h d') (up_use c a))\<lparr>allocations := AList.delete w (allocations a)\<rparr>)"

definition inject :: "host \<Rightarrow> address \<Rightarrow> buffer \<Rightarrow> sqlite_allocator \<Rightarrow> bool \<times> sqlite_allocator" where
  "inject h w b a =
     (if map_of (allocations a) w = None then
        let (c, d) = reflect_block_use h ((new_descriptor 0)\<lparr>desc_block := b\<rparr>);
            (v, a1) = version_off w (up_use c a) in
        (True, a1\<lparr>allocations := AList.update w (set_storage_action Read (d\<lparr>desc_version := v\<rparr>)) (allocations a1)\<rparr>)
      else (False, a))"

section \<open>Writing back\<close>

text \<open>
  \<^verbatim>\<open>flush_back(factor, release, write_all)\<close> with the factor \<open>n / d\<close>.  The first pass collects the blocks
  to write and drops clean ones, oldest first, the second writes in the order of the addresses.
\<close>

definition above_limit :: "nat \<times> nat \<Rightarrow> int \<Rightarrow> sqlite_allocator \<Rightarrow> bool" where
  "above_limit factor before a \<longleftrightarrow> before * int (fst factor) < alloc_use a * int (snd factor)"

definition drop_block :: "host \<Rightarrow> address \<Rightarrow> block_descriptor \<Rightarrow> sqlite_allocator \<Rightarrow> sqlite_allocator" where
  "drop_block h w d a = down_use (get_block_use h d) (a\<lparr>allocations := AList.delete w (allocations a)\<rparr>)"

fun flush_select ::
    "host \<Rightarrow> nat \<times> nat \<Rightarrow> int \<Rightarrow> bool \<Rightarrow> bool \<Rightarrow> (address \<times> block_descriptor) list \<Rightarrow> sqlite_allocator \<Rightarrow>
     (address \<times> block_descriptor) list \<times> sqlite_allocator" where
  "flush_select h factor before release write_all [] a = ([], a)"
| "flush_select h factor before release write_all ((w, d) # bs) a =
     (if write_all \<or> is_modified d then
        let (ws, a') = flush_select h factor before release write_all bs a in ((w, d) # ws, a')
      else if above_limit factor before a \<and> release then
        flush_select h factor before release write_all bs
          (drop_block h w d
            (reflect_at h w (a\<lparr>versions := AList.update w (desc_version d) (versions a)\<rparr>)))
      else flush_select h factor before release write_all bs a)"

definition flush_block ::
    "host \<Rightarrow> bool \<Rightarrow> address \<Rightarrow> block_descriptor \<Rightarrow> sqlite_allocator \<Rightarrow> sqlite_allocator" where
  "flush_block h release w d a =
     (let a1 = (if local_writes a then
                  let a' = add_buffer w (desc_version d) (desc_block d)
                             (a\<lparr>versions := AList.update w (desc_version d) (versions a)\<rparr>) in
                  a'\<lparr>allocations := AList.update w (set_written d) (allocations a')\<rparr>
                else a);
          a2 = reflect_at h w a1 in
      if release then drop_block h w d a2 else a2)"

fun flush_write ::
    "host \<Rightarrow> nat \<times> nat \<Rightarrow> int \<Rightarrow> bool \<Rightarrow> (address \<times> block_descriptor) list \<Rightarrow> sqlite_allocator \<Rightarrow>
     sqlite_allocator" where
  "flush_write h factor before release [] a = a"
| "flush_write h factor before release ((w, d) # bs) a =
     (let a1 = flush_block h release w d a in
      if bs = [] \<and> \<not> above_limit factor before a1 then a1
      else flush_write h factor before release bs a1)"

definition flush_back :: "host \<Rightarrow> nat \<times> nat \<Rightarrow> bool \<Rightarrow> bool \<Rightarrow> sqlite_allocator \<Rightarrow> sqlite_allocator" where
  "flush_back h factor release write_all a =
     (let before = alloc_use a;
          a1 = fold (\<lambda>w. reflect_at h w) (map fst (allocations a)) (a\<lparr>alloc_result := None\<rparr>);
          blocks = sort_key (\<lambda>b. desc_clock (snd b)) (allocations a1);
          (by_address, a2) = flush_select h factor before release write_all blocks a1 in
      if by_address = [] \<and> \<not> above_limit factor before a2 then a2
      else
        let a3 = flush_write h factor before release (sort_key fst by_address) (begin_transaction a2);
            a4 = get_session a3 in
        if write_all then a4\<lparr>alloc_changes := 0\<rparr> else a4)"

definition check_use :: "host \<Rightarrow> sqlite_allocator \<Rightarrow> sqlite_allocator" where
  "check_use h a = (if near_depleted h then get_session (flush_back h (3, 10) True False a) else a)"

section \<open>Allocation\<close>

definition read_ref :: "block_ref \<Rightarrow> sqlite_allocator \<Rightarrow> buffer" where
  "read_ref r a =
     (case r of
        End_block \<Rightarrow> []
      | Read_block \<Rightarrow> read_block a
      | Cached w \<Rightarrow> (case map_of (allocations a) w of None \<Rightarrow> [] | Some d \<Rightarrow> desc_block d))"

text \<open>What a client does through the reference it got: it assigns the block.\<close>

definition write_ref :: "block_ref \<Rightarrow> buffer \<Rightarrow> sqlite_allocator \<Rightarrow> sqlite_allocator" where
  "write_ref r b a =
     (case r of
        End_block \<Rightarrow> a
      | Read_block \<Rightarrow> a\<lparr>read_block := b\<rparr>
      | Cached w \<Rightarrow>
          (case map_of (allocations a) w of
             None \<Rightarrow> a
           | Some d \<Rightarrow> a\<lparr>allocations := AList.update w (d\<lparr>desc_block := b\<rparr>) (allocations a)\<rparr>))"

text \<open>The end of \<^verbatim>\<open>_allocate\<close>, once \<^verbatim>\<open>result\<close> is the descriptor of the block.\<close>

definition found_block ::
    "host \<Rightarrow> address \<Rightarrow> block_descriptor \<Rightarrow> sqlite_allocator \<Rightarrow> block_ref \<times> address \<times> sqlite_allocator" where
  "found_block h w d a =
     (let (c, d1) = reflect_block_use h d;
          t = alloc_clock a + 1;
          a1 = (up_use c a)\<lparr>allocations := AList.update w (d1\<lparr>desc_clock := t\<rparr>) (allocations a),
                 alloc_clock := t, currently_active := w, allocated_version := desc_version d,
                 alloc_result := Some w\<rparr> in
      (Cached w, w, a1))"

definition start_allocate :: "storage_action \<Rightarrow> sqlite_allocator \<Rightarrow> sqlite_allocator" where
  "start_allocate how a =
     a\<lparr>alloc_changes := if how \<noteq> Read then Suc (alloc_changes a) else alloc_changes a, busy := True,
       allocated_version := 0, currently_active := 0, alloc_result := None\<rparr>"

definition allocate_existing ::
    "host \<Rightarrow> address \<Rightarrow> storage_action \<Rightarrow> sqlite_allocator \<Rightarrow>
     (block_ref \<times> address \<times> sqlite_allocator) store_result" where
  "allocate_existing h w how a =
     (case map_of (allocations a) w of
        Some d \<Rightarrow> Inr (found_block h w (set_storage_action how d) a)
      | None \<Rightarrow>
          bindE (if how = Create then Inr (False, a) else get_buffer w a) (\<lambda>(loaded, a1).
            if loaded then
              if \<not> is_read_cache a1 then
                let (v, a2) = version_off w (a1\<lparr>read_block := current_block a1, currently_active := w\<rparr>) in
                Inr (Read_block, w, a2\<lparr>allocated_version := v\<rparr>)
              else
                let (d, a2) = create_block w (current_version a1) a1 in
                Inr (found_block h w (set_storage_action how (d\<lparr>desc_block := current_block a1\<rparr>)) a2)
            else if how = Create then
              let (d, a2) = create_block w (alloc_version a1) a1 in
              Inr (found_block h w (set_storage_action how d) (a2\<lparr>next_address := max w (next_address a2)\<rparr>))
            else Inr (End_block, w, a1)))"

text \<open>\<^verbatim>\<open>_allocate(which, how)\<close>: the reference, the address and the store.\<close>

definition allocate_raw ::
    "host \<Rightarrow> address \<Rightarrow> storage_action \<Rightarrow> sqlite_allocator \<Rightarrow>
     (block_ref \<times> address \<times> sqlite_allocator) store_result" where
  "allocate_raw h which how a0 =
     (let a = start_allocate how a0 in
      if which \<noteq> 0 then allocate_existing h which how a
      else if how \<noteq> Create then Inl Invalid_storage_action
      else
        let w = Suc (next_address a);
            (d, a1) = create_block w (alloc_version a) (a\<lparr>next_address := w\<rparr>) in
        Inr (found_block h w (set_storage_action Create d) a1))"

definition allocate ::
    "host \<Rightarrow> address \<Rightarrow> storage_action \<Rightarrow> sqlite_allocator \<Rightarrow>
     (block_ref \<times> address \<times> sqlite_allocator) store_result" where
  "allocate h which how a = allocate_raw h which how (check_use h a)"

text \<open>\<^verbatim>\<open>complete\<close> ends an allocation; \<^verbatim>\<open>allocate(cpy, which, how)\<close> copies the block out and completes.\<close>

definition complete :: "host \<Rightarrow> sqlite_allocator \<Rightarrow> sqlite_allocator" where
  "complete h a =
     (let a1 = a\<lparr>allocated_version := 0\<rparr> in
      if busy a1 then
        (case alloc_result a1 of None \<Rightarrow> a1 | Some w \<Rightarrow> reflect_at h w a1)\<lparr>busy := False\<rparr>
      else a1)"

definition allocate_copy ::
    "host \<Rightarrow> address \<Rightarrow> storage_action \<Rightarrow> sqlite_allocator \<Rightarrow> (buffer \<times> address \<times> sqlite_allocator) store_result" where
  "allocate_copy h which how a =
     bindE (allocate_raw h which how a) (\<lambda>(r, w, a1). Inr (read_ref r a1, w, complete h a1))"

definition is_end :: "block_ref \<Rightarrow> bool" where
  "is_end r \<longleftrightarrow> r = End_block"

definition assign_version :: "version \<Rightarrow> sqlite_allocator \<Rightarrow> sqlite_allocator" where
  "assign_version v a =
     (case alloc_result a of
        Some w \<Rightarrow>
          if currently_active a \<noteq> 0 then
            a\<lparr>versions := AList.update (currently_active a) v (versions a),
              allocations := (case map_of (allocations a) w of
                                None \<Rightarrow> allocations a
                              | Some d \<Rightarrow> AList.update w (d\<lparr>desc_version := v\<rparr>) (allocations a))\<rparr>
          else a
      | None \<Rightarrow> a)"

definition contains :: "host \<Rightarrow> address \<Rightarrow> sqlite_allocator \<Rightarrow> (bool \<times> sqlite_allocator) store_result" where
  "contains h which a0 =
     (let a = check_use h a0 in
      if which \<noteq> 0 then
        (if map_of (allocations a) which = None then get_buffer which a else Inr (True, a))
      else Inr (False, a))"

definition initialize_address :: "address \<Rightarrow> sqlite_allocator \<Rightarrow> sqlite_allocator store_result" where
  "initialize_address which a =
     bindE (get_buffer which a) (\<lambda>(found, a1).
       if found then Inr a1
       else Inr (a1\<lparr>allocations := AList.update which (set_storage_action Create (new_descriptor 0)) (allocations a1),
                   alloc_changes := Suc (alloc_changes a1)\<rparr>))"

section \<open>Version queries\<close>

definition get_latest_version :: "address \<Rightarrow> sqlite_allocator \<Rightarrow> (version \<times> sqlite_allocator) store_result" where
  "get_latest_version w a =
     (case map_of (versions a) w of
        Some v \<Rightarrow> Inr (v, a)
      | None \<Rightarrow>
          case map_of (allocations a) w of
            Some d \<Rightarrow> Inr (desc_version d, a)
          | None \<Rightarrow>
              bindE (get_buffer w a) (\<lambda>(found, a1).
                if found then
                  Inr (current_version a1, a1\<lparr>versions := AList.update w (current_version a1) (versions a1)\<rparr>)
                else Inr (0, a1)))"

definition is_latest :: "address \<Rightarrow> version \<Rightarrow> sqlite_allocator \<Rightarrow> (bool \<times> sqlite_allocator) store_result" where
  "is_latest w latest a = bindE (get_latest_version w a) (\<lambda>(v, a1). Inr (v < latest, a1))"

definition known_version :: "address \<Rightarrow> sqlite_allocator \<Rightarrow> version \<times> sqlite_allocator" where
  "known_version w a =
     (case map_of (versions a) w of
        Some v \<Rightarrow> (v, a)
      | None \<Rightarrow>
          case map_of (allocations a) w of
            Some d \<Rightarrow> (max 0 (desc_version d), a\<lparr>versions := AList.update w (max 0 (desc_version d)) (versions a)\<rparr>)
          | None \<Rightarrow>
              let (e, a1) = get_exists w a in
              if e then (alloc_version a1, a1\<lparr>versions := AList.update w (alloc_version a1) (versions a1)\<rparr>)
              else (0, a1))"

fun get_greater_version_diff ::
    "(address \<times> version) list \<Rightarrow> sqlite_allocator \<Rightarrow> nat \<times> (address \<times> version) list \<times> sqlite_allocator" where
  "get_greater_version_diff [] a = (0, [], a)"
| "get_greater_version_diff ((w, v) # request) a =
     (let (ver, a1) = known_version w a;
          (responses, rest, a2) = get_greater_version_diff request a1 in
      if v < ver then (Suc responses, (w, ver) # rest, a2) else (responses, (w, v) # rest, a2))"

definition get_modified_descriptors :: "sqlite_allocator \<Rightarrow> (address \<times> version) list" where
  "get_modified_descriptors a =
     map (\<lambda>(w, d). (w, desc_version d)) (filter (\<lambda>(w, d). is_modified d) (allocations a))"

definition release_stale_resource_states ::
    "host \<Rightarrow> (address \<times> version) list \<Rightarrow> sqlite_allocator \<Rightarrow> sqlite_allocator" where
  "release_stale_resource_states h resources a =
     fold (\<lambda>(w, v) a. case map_of (allocations a) w of
              None \<Rightarrow> a
            | Some d \<Rightarrow> if desc_version d \<noteq> v \<and> \<not> is_modified d then recycle_block h w a else a)
       resources a"

section \<open>Transactions\<close>

definition begin_store :: "sqlite_allocator \<Rightarrow> sqlite_allocator" where
  "begin_store a = (if is_new a then a else begin_transaction a)"

definition begin_new :: "sqlite_allocator \<Rightarrow> sqlite_allocator" where
  "begin_new a = begin_transaction a"

definition modified :: "sqlite_allocator \<Rightarrow> bool" where
  "modified a \<longleftrightarrow> 0 < alloc_changes a"

definition commit :: "host \<Rightarrow> sqlite_allocator \<Rightarrow> sqlite_allocator" where
  "commit h a = commit_storage (if transacted a then flush_back h (8, 10) False False a else a)"

definition flush :: "host \<Rightarrow> sqlite_allocator \<Rightarrow> sqlite_allocator" where
  "flush h a = (if transient a then a else get_session (flush_back h (85, 100) False False a))"

text \<open>\<open>free_all\<close> is the loop that deletes every descriptor, \<^verbatim>\<open>close_session\<close> what closing leaves of the file.\<close>

definition free_all :: "host \<Rightarrow> sqlite_allocator \<Rightarrow> sqlite_allocator" where
  "free_all h a =
     (fold (\<lambda>(w, d) a. let (c, d') = reflect_block_use h d in down_use (get_block_use h d') (up_use c a))
        (allocations a) a)\<lparr>allocations := []\<rparr>"

definition close_session :: "sqlite_allocator \<Rightarrow> sqlite_allocator" where
  "close_session a =
     (let a1 = a\<lparr>session := None\<rparr> in
      if transient a1 then a1\<lparr>file_rows := None, is_new := True\<rparr> else a1)"

definition rollback :: "host \<Rightarrow> sqlite_allocator \<Rightarrow> sqlite_allocator" where
  "rollback h a =
     (free_all h (if session a \<noteq> None then close_session a else a))\<lparr>versions := [], alloc_changes := 0, transacted := False\<rparr>"

definition discard :: "host \<Rightarrow> sqlite_allocator \<Rightarrow> sqlite_allocator" where
  "discard h a =
     (if references a = 0 then
        let a1 = (if modified a \<and> \<not> transient a then commit h (begin_new a) else a);
            a2 = (if session a1 \<noteq> None then
                    close_session (if \<not> transient a1 then rollback h a1 else a1)
                  else a1) in
        (free_all h a2)\<lparr>versions := []\<rparr>
      else a)"

definition engage :: "sqlite_allocator \<Rightarrow> sqlite_allocator" where
  "engage a = a\<lparr>references := Suc (references a)\<rparr>"

definition release :: "host \<Rightarrow> sqlite_allocator \<Rightarrow> sqlite_allocator" where
  "release h a = discard h (a\<lparr>references := references a - 1\<rparr>)"

definition reduce_perm :: "host \<Rightarrow> sqlite_allocator \<Rightarrow> sqlite_allocator" where
  "reduce_perm h a =
     (if transient a then a
      else get_session (if 1024 * 1024 < alloc_use a then flush_back h (45, 100) True False a else a))"

definition reduce :: "host \<Rightarrow> sqlite_allocator \<Rightarrow> sqlite_allocator" where
  "reduce h a = (if transient a \<or> alloc_version a \<noteq> 0 then a else reduce_perm h a)"

section \<open>Moving blocks\<close>

text \<open>\<^verbatim>\<open>get_addresses\<close>: every address of an open session and of the cache, with its descriptor if cached.\<close>

definition get_addresses :: "sqlite_allocator \<Rightarrow> (address \<times> block_descriptor option) list" where
  "get_addresses a =
     fold (\<lambda>(w, d). AList.update w (Some d)) (allocations a)
       (map (\<lambda>(w, r). (w, None)) (the_rows (session a)))"

definition get_modified_addresses :: "sqlite_allocator \<Rightarrow> address list" where
  "get_modified_addresses a =
     sort (remdups (map fst (the_rows (session a)) @ map fst (filter (\<lambda>(w, d). is_modified d) (allocations a))))"

definition move_block ::
    "host \<Rightarrow> address \<times> block_descriptor option \<Rightarrow> sqlite_allocator \<times> sqlite_allocator \<Rightarrow>
     (sqlite_allocator \<times> sqlite_allocator) store_result" where
  "move_block h entry = (\<lambda>(src, dest0).
     let at = fst entry; dest = check_use h dest0 in
     case snd entry of
       Some current \<Rightarrow>
         bindE (allocate h at Create dest) (\<lambda>(d, w, dest1).
           if desc_version current \<le> allocated_version dest1 then Inl Invalid_version
           else
             let dest2 = complete h (assign_version (desc_version current) (write_ref d (desc_block current) dest1));
                 src1 = write_ref (Cached at) (read_ref d dest1) src in
             Inr (recycle_block h at (src1\<lparr>versions := AList.delete at (versions src1)\<rparr>), dest2))
     | None \<Rightarrow>
         bindE (allocate_raw h at Read src) (\<lambda>(r, w, src1).
           bindE (allocate h at Create dest) (\<lambda>(d, w', dest1).
             if allocated_version src1 \<le> allocated_version dest1 then Inl Invalid_version
             else
               let dest2 = complete h (assign_version (allocated_version src1) (write_ref d (read_ref r src1) dest1));
                   src2 = complete h (write_ref r (read_ref d dest1) src1) in
               Inr (recycle_block h at (src2\<lparr>versions := AList.delete at (versions src2)\<rparr>), dest2))))"

definition move ::
    "host \<Rightarrow> sqlite_allocator \<Rightarrow> sqlite_allocator \<Rightarrow> (sqlite_allocator \<times> sqlite_allocator) store_result" where
  "move h src dest =
     bindE (foldE (move_block h) (get_addresses src) (src, dest)) (\<lambda>(src1, dest1).
       Inr (rollback h (src1\<lparr>alloc_changes := 0, versions := [], transient := True\<rparr>), dest1))"

text \<open>\<^verbatim>\<open>journal(name)\<close>: the pages it adds to the journal.\<close>

definition journal_block ::
    "host \<Rightarrow> address \<Rightarrow> (address \<times> buffer) list \<times> sqlite_allocator \<Rightarrow>
     ((address \<times> buffer) list \<times> sqlite_allocator) store_result" where
  "journal_block h at = (\<lambda>(pages, a).
     bindE (allocate h at Read a) (\<lambda>(r, w, a1).
       if is_end r then Inl Invalid_address
       else Inr (pages @ [(at, read_ref r a1)], complete h a1)))"

definition journal :: "host \<Rightarrow> sqlite_allocator \<Rightarrow> ((address \<times> buffer) list \<times> sqlite_allocator) store_result" where
  "journal h a = foldE (journal_block h) (get_modified_addresses a) ([], a)"

section \<open>Reading ahead\<close>

definition read_ahead :: "host \<Rightarrow> address \<Rightarrow> nat \<Rightarrow> sqlite_allocator \<Rightarrow> sqlite_allocator" where
  "read_ahead h start count a =
     (let a1 = get_session a;
          blocks = take count (filter (\<lambda>(w, v, b). start \<le> w) (sort_key fst (the_rows (session a1)))) in
      fold (\<lambda>(w, v, b) a. snd (inject h w b a)) blocks a1)"

definition load_all :: "host \<Rightarrow> sqlite_allocator \<Rightarrow> sqlite_allocator" where
  "load_all h a =
     (if \<not> is_all_loaded a \<and> may_read_ahead h
      then (read_ahead h 0 (next_address a) a)\<lparr>is_all_loaded := True\<rparr> else a)"

section \<open>Construction\<close>

definition new_allocator :: "bool \<Rightarrow> rows option \<Rightarrow> sqlite_allocator" where
  "new_allocator temporary file =
     (let a = \<lparr>references = 0, transient = False, busy = False, versions = [], allocations = [], next_address = 32,
               currently_active = 0, alloc_changes = 0, alloc_version = 0, allocated_version = 0,
               transacted = False, alloc_clock = 0, alloc_use = 0, is_new = True, is_read_cache = True,
               is_all_loaded = False, alloc_result = None, local_writes = True, read_block = [],
               current_address = 0, current_version = 0, encoded_block = [], current_block = [],
               file_rows = file, session = None\<rparr> in
      if temporary \<or> file = None then a else get_session (a\<lparr>is_new := False\<rparr>))"

definition set_allocation_start :: "address \<Rightarrow> sqlite_allocator \<Rightarrow> sqlite_allocator" where
  "set_allocation_start start a = a\<lparr>next_address := max start (next_address a)\<rparr>"

end
