(* ===== verification/Journal.thy ===== *)
theory Journal
  imports BlockStore
begin

text \<open>
  The journal of \<^verbatim>\<open>src/src/storage/transactions/journal.cpp\<close>: the bytes of its entries, the buffers they go
  through on their way to the file, and the reader recovery uses.  The program is compiled for LP64, so
  that \<^verbatim>\<open>long\<close> has 64 bits and \<^verbatim>\<open>log_entry\<close> no padding, on a little endian machine.  A
  \<^verbatim>\<open>std::string\<close> is its bytes.  Log output, timers and the size of the journal that is
  reported elsewhere are left out.
\<close>

section \<open>Words in memory\<close>

definition store_word :: "u64 \<Rightarrow> buffer" where
  "store_word x = map (\<lambda>i. ucast (drop_bit (8 * i) x)) [0..<8]"

primrec read_word :: "buffer \<Rightarrow> u64" where
  "read_word [] = 0"
| "read_word (b # bs) = ucast b OR push_bit 8 (read_word bs)"

section \<open>Entries\<close>

type_synonym store_name = buffer

record log_entry =
  le_sequence :: u64
  le_command :: u64
  le_name_size :: u64
  le_address :: u64
  le_buffer_size :: u64

definition JOURNAL_PAGE :: u32 where "JOURNAL_PAGE = 0"

definition JOURNAL_COMMIT :: u32 where "JOURNAL_COMMIT = 1"

definition JOURNAL_ROLLBACK :: u32 where "JOURNAL_ROLLBACK = 2"

definition entry_bytes :: "log_entry \<Rightarrow> buffer" where
  "entry_bytes e =
     store_word (le_sequence e) @ store_word (le_command e) @ store_word (le_name_size e) @ store_word (le_address e) @
     store_word (le_buffer_size e)"

definition entry_size :: nat where
  "entry_size = 40"

text \<open>The entry in memory after the bytes read so far were copied over zeros.\<close>

definition pad :: "nat \<Rightarrow> buffer \<Rightarrow> buffer" where
  "pad n bs = bs @ replicate (n - length bs) 0"

definition entry_of :: "buffer \<Rightarrow> log_entry" where
  "entry_of bs =
     (let p = pad entry_size bs in
      \<lparr>le_sequence = read_word (take 8 p), le_command = read_word (take 8 (drop 8 p)),
       le_name_size = read_word (take 8 (drop 16 p)), le_address = read_word (take 8 (drop 24 p)),
       le_buffer_size = read_word (take 8 (drop 32 p))\<rparr>)"

section \<open>Writing\<close>

text \<open>
  \<open>journal_ostr\<close> are the bytes the stream has taken, \<open>journal_file\<close> those a \<^verbatim>\<open>pubsync\<close> has brought to the
  file.
\<close>

record journal_state =
  journal_buffer :: buffer
  journal_ostr :: buffer
  journal_file :: buffer
  sequence :: u64
  last_synch :: u64
  participants :: "store_name list"

definition write_raw :: "journal_state \<Rightarrow> journal_state" where
  "write_raw j = j\<lparr>journal_ostr := journal_ostr j @ journal_buffer j, journal_buffer := []\<rparr>"

definition journal_add_entry :: "u32 \<Rightarrow> store_name \<Rightarrow> address \<Rightarrow> buffer \<Rightarrow> journal_state \<Rightarrow> journal_state" where
  "journal_add_entry command nm w b j =
     (let e = \<lparr>le_sequence = sequence j + 1, le_command = ucast command, le_name_size = of_nat (length nm),
               le_address = of_nat w, le_buffer_size = of_nat (length b)\<rparr>;
          j1 = j\<lparr>sequence := sequence j + 1, journal_buffer := journal_buffer j @ entry_bytes e @ nm @ b\<rparr> in
      if 4000000 < length (journal_buffer j1) then write_raw j1 else j1)"

definition flush_buffer :: "journal_state \<Rightarrow> journal_state" where
  "flush_buffer j = (if 0 < length (journal_buffer j) then write_raw j else j)"

definition flush_stream :: "journal_state \<Rightarrow> journal_state" where
  "flush_stream j = j\<lparr>journal_file := journal_file j @ journal_ostr j, journal_ostr := []\<rparr>"

definition commit_name :: store_name where
  "commit_name = [0x63, 0x6F, 0x6D, 0x6D, 0x69, 0x74]"

text \<open>The first half of \<^verbatim>\<open>synch\<close>: a commit boundary, and everything to the disk.\<close>

definition mark_commit :: "journal_state \<Rightarrow> journal_state" where
  "mark_commit j =
     (if last_synch j \<noteq> sequence j then flush_stream (flush_buffer (journal_add_entry JOURNAL_COMMIT commit_name 0 [] j)) else j)"

definition new_journal_state :: "buffer \<Rightarrow> journal_state" where
  "new_journal_state file =
     \<lparr>journal_buffer = [], journal_ostr = [], journal_file = file, sequence = 0, last_synch = 0, participants = []\<rparr>"

definition engage_participant :: "store_name \<Rightarrow> journal_state \<Rightarrow> journal_state" where
  "engage_participant nm j = (if nm \<in> set (participants j) then j else j\<lparr>participants := nm # participants j\<rparr>)"

definition release_participant :: "store_name \<Rightarrow> journal_state \<Rightarrow> journal_state" where
  "release_participant nm j = j\<lparr>participants := removeAll nm (participants j)\<rparr>"

section \<open>Reading\<close>

text \<open>
  A reader is the rest of the stream and whether it is good.  A read past the end takes what there is and
  makes it bad; a bad stream reads nothing.
\<close>

type_synonym reader = "buffer \<times> bool"

definition read_raw :: "nat \<Rightarrow> reader \<Rightarrow> buffer \<times> reader" where
  "read_raw n r = (if snd r then (take n (fst r), drop n (fst r), n \<le> length (fst r)) else ([], r))"

record command =
  cmd_sequence :: u64
  cmd_command :: u32
  cmd_name :: store_name
  cmd_address :: address
  cmd_buffer :: buffer

definition load_command :: "reader \<Rightarrow> command \<times> reader" where
  "load_command r =
     (let (b, r1) = read_raw entry_size r; e = entry_of b;
          (nm, r2) = read_raw (unat (le_name_size e)) r1;
          (buf, r3) = (if le_buffer_size e \<noteq> 0 then read_raw (unat (le_buffer_size e)) r2 else ([], r2)) in
      (\<lparr>cmd_sequence = le_sequence e, cmd_command = ucast (le_command e), cmd_name = pad (unat (le_name_size e)) nm,
        cmd_address = unat (le_address e), cmd_buffer = pad (unat (le_buffer_size e)) buf\<rparr>, r3))"

text \<open>The bytes a reader can still give; a command that leaves the stream good has taken some.\<close>

definition reader_size :: "reader \<Rightarrow> nat" where
  "reader_size r = (if snd r then Suc (length (fst r)) else 0)"

lemma read_raw_less: "snd r \<Longrightarrow> 0 < n \<Longrightarrow> reader_size (snd (read_raw n r)) < reader_size r"
  by (auto simp: read_raw_def reader_size_def)

lemma read_raw_le: "reader_size (snd (read_raw n r)) \<le> reader_size r"
  by (auto simp: read_raw_def reader_size_def)

lemma load_command_less: "snd r \<Longrightarrow> load_command r = (c, r') \<Longrightarrow> reader_size r' < reader_size r"
proof -
  assume s: "snd r" and l: "load_command r = (c, r')"
  have 1: "reader_size (snd (read_raw entry_size r)) < reader_size r" by (rule read_raw_less [OF s]) (simp add: entry_size_def)
  show ?thesis
    using l read_raw_le
    by (auto simp: load_command_def Let_def split: prod.splits if_splits
        intro: le_less_trans [OF _ 1] order.trans [OF _ read_raw_le])
       (metis 1 le_less_trans read_raw_le snd_conv)+
qed

section \<open>The bytes of an entry\<close>

lemma length_store_word [simp]: "length (store_word x) = 8"
  by (simp add: store_word_def)

lemma length_entry_bytes [simp]: "length (entry_bytes e) = entry_size"
  by (simp add: entry_bytes_def entry_size_def)

lemma read_bytes: "read_word (map (\<lambda>i. ucast (drop_bit (8 * i) x)) [k..<k + n]) = take_bit (8 * n) (drop_bit (8 * k) x)"
proof (induction n arbitrary: k)
  case (Suc n)
  have u: "[k..<k + Suc n] = k # [Suc k..<Suc k + n]" by (simp add: upt_conv_Cons)
  have "ucast (ucast (drop_bit (8 * k) x) :: u8) OR push_bit 8 (take_bit (8 * n) (drop_bit (8 + 8 * k) x)) =
      take_bit (8 + 8 * n) (drop_bit (8 * k) x)"
    by (rule bit_word_eqI) (auto simp: bit_simps algebra_simps dest: bit_imp_le_length)
  then show ?case using Suc [of "Suc k"] unfolding u by simp
qed simp

lemma read_zeros [simp]: "read_word (bs @ replicate n 0) = read_word bs"
proof (induction bs)
  case Nil
  show ?case by (induction n) simp_all
qed simp

lemma read_store: "read_word (take k (store_word x)) = take_bit (8 * min k 8) x"
proof -
  have "take k (store_word x) = map (\<lambda>i. ucast (drop_bit (8 * i) x)) [0..<0 + min k 8]"
    by (cases "k \<le> 8") (simp_all add: store_word_def take_map take_upt)
  then show ?thesis using read_bytes [of x 0 "min k 8"] by simp
qed

lemma nth_pad: "j < n \<Longrightarrow> pad n bs ! j = (if j < length bs then bs ! j else 0)"
  by (simp add: pad_def nth_append)

lemma length_pad: "length bs \<le> n \<Longrightarrow> length (pad n bs) = n"
  by (simp add: pad_def)

lemma pad_slice:
  assumes "length xs = entry_size" "i + 8 \<le> entry_size"
  shows "take 8 (drop i (pad entry_size (take k xs))) = pad 8 (take (k - i) (take 8 (drop i xs)))"
proof (rule nth_equalityI)
  have l: "length (pad entry_size (take k xs)) = entry_size" by (rule length_pad) (simp add: assms(1))
  show "length (take 8 (drop i (pad entry_size (take k xs)))) = length (pad 8 (take (k - i) (take 8 (drop i xs))))"
    using assms l by (simp add: length_pad)
  fix j assume "j < length (take 8 (drop i (pad entry_size (take k xs))))"
  then have j: "j < 8" by simp
  then have "pad entry_size (take k xs) ! (i + j) = (if i + j < k then xs ! (i + j) else 0)"
    using assms by (simp add: nth_pad)
  moreover have "pad 8 (take (k - i) (take 8 (drop i xs))) ! j = (if i + j < k then xs ! (i + j) else 0)"
    using j assms by (auto simp: nth_pad)
  ultimately show "take 8 (drop i (pad entry_size (take k xs))) ! j = pad 8 (take (k - i) (take 8 (drop i xs))) ! j"
    using j l assms by simp
qed

lemma entry_of_bytes:
  "entry_of (take k (entry_bytes e)) =
     \<lparr>le_sequence = take_bit (8 * min k 8) (le_sequence e), le_command = take_bit (8 * min (k - 8) 8) (le_command e),
      le_name_size = take_bit (8 * min (k - 16) 8) (le_name_size e), le_address = take_bit (8 * min (k - 24) 8) (le_address e),
      le_buffer_size = take_bit (8 * min (k - 32) 8) (le_buffer_size e)\<rparr>"
proof -
  have f: "take 8 (drop 0 (entry_bytes e)) = store_word (le_sequence e)" "take 8 (drop 8 (entry_bytes e)) = store_word (le_command e)"
    "take 8 (drop 16 (entry_bytes e)) = store_word (le_name_size e)" "take 8 (drop 24 (entry_bytes e)) = store_word (le_address e)"
    "take 8 (drop 32 (entry_bytes e)) = store_word (le_buffer_size e)"
    by (simp_all add: entry_bytes_def)
  have s: "take 8 (drop i (pad entry_size (take k (entry_bytes e)))) = pad 8 (take (k - i) (take 8 (drop i (entry_bytes e))))"
    if "i + 8 \<le> entry_size" for i using pad_slice [OF _ that, of "entry_bytes e" k] by simp
  have r: "read_word (pad 8 (take j (store_word x))) = take_bit (8 * min j 8) x" for j x by (simp add: pad_def read_store)
  show ?thesis
    using s [of 0] s [of 8] s [of 16] s [of 24] s [of 32] unfolding entry_of_def Let_def f
    by (simp add: entry_size_def r)
qed

lemma entry_of_entry [simp]: "entry_of (entry_bytes e) = e"
  using entry_of_bytes [of entry_size e] by (simp add: entry_size_def take_bit_word_eq_self)

end
