(* ===== verification/BlockCache.thy ===== *)
theory BlockCache
  imports BlockStore
begin

text \<open>
  The cache of the block store is transparent: evicting and writing back blocks never changes the
  block found at an address.
\<close>

section \<open>Association lists\<close>

lemma keys_update: "map fst (AList.update k v al) = (if k \<in> fst ` set al then map fst al else map fst al @ [k])"
  by (simp add: update_keys)

lemma map_of_AList [simp]:
  "map_of (AList.update k v al) = (map_of al)(k \<mapsto> v)" "map_of (AList.delete k al) = (map_of al)(k := None)"
  by (simp_all add: update_conv' delete_conv')

lemma map_of_distinct: "distinct (map fst al) \<Longrightarrow> (k, v) \<in> set al \<longleftrightarrow> map_of al k = Some v"
  by (auto intro: map_of_is_SomeI map_of_SomeD)

lemma the_rows_simps [simp]: "the_rows (Some r) = r" "the_rows None = []"
  by (simp_all add: the_rows_def)

section \<open>What a client sees\<close>

definition cache :: "sqlite_allocator \<Rightarrow> address \<rightharpoonup> storage_action \<times> buffer" where
  "cache a w = map_option (\<lambda>d. (desc_mod d, desc_block d)) (map_of (allocations a) w)"

definition stored_rows :: "sqlite_allocator \<Rightarrow> rows" where
  "stored_rows a =
     (if is_new a then [] else the_rows (if session a = None then file_rows a else session a))"

definition stored :: "sqlite_allocator \<Rightarrow> address \<rightharpoonup> buffer" where
  "stored a w = map_option snd (map_of (stored_rows a) w)"

definition view :: "sqlite_allocator \<Rightarrow> address \<rightharpoonup> buffer" where
  "view a = stored a ++ (\<lambda>w. map_option snd (cache a w))"

text \<open>
  The invariant: keys are distinct and not above \<^verbatim>\<open>next\<close>, a block that is not modified is the one in
  the table, the session and the file agree outside a transaction, and the variables bound to the
  statements hold the row of the address they name.
\<close>

definition store_inv :: "sqlite_allocator \<Rightarrow> bool" where
  "store_inv a \<longleftrightarrow>
     distinct (map fst (allocations a)) \<and> distinct (map fst (stored_rows a)) \<and>
     (\<forall>w. w \<in> dom (cache a) \<union> dom (stored a) \<longrightarrow> w \<noteq> 0 \<and> w \<le> next_address a) \<and>
     (\<forall>w b. cache a w = Some (Read, b) \<longrightarrow> stored a w = Some b) \<and>
     (is_new a \<longrightarrow> session a = None \<and> file_rows a = None) \<and> (\<not> is_new a \<longrightarrow> file_rows a \<noteq> None) \<and>
     (transacted a \<longrightarrow> session a \<noteq> None) \<and> (\<not> transacted a \<and> session a \<noteq> None \<longrightarrow> file_rows a = session a) \<and>
     (current_address a \<noteq> 0 \<longrightarrow> stored a (current_address a) = Some (encoded_block a))"

text \<open>The fields the view of the store does not depend on.\<close>

lemma cache_update [simp]:
  "cache (a\<lparr>transacted := x1\<rparr>) = cache a"
  "cache (a\<lparr>versions := x2\<rparr>) = cache a"
  "cache (a\<lparr>alloc_changes := x3\<rparr>) = cache a"
  "cache (a\<lparr>alloc_use := x4\<rparr>) = cache a"
  "cache (a\<lparr>alloc_result := x5\<rparr>) = cache a"
  "cache (a\<lparr>busy := x6\<rparr>) = cache a"
  "cache (a\<lparr>allocated_version := x7\<rparr>) = cache a"
  "cache (a\<lparr>currently_active := x8\<rparr>) = cache a"
  "cache (a\<lparr>alloc_clock := x9\<rparr>) = cache a"
  "cache (a\<lparr>transient := x10\<rparr>) = cache a"
  "cache (a\<lparr>read_block := x11\<rparr>) = cache a"
  "cache (a\<lparr>current_block := x12\<rparr>) = cache a"
  "cache (a\<lparr>current_version := x13\<rparr>) = cache a"
  "cache (a\<lparr>next_address := x14\<rparr>) = cache a"
  "cache (a\<lparr>current_address := x15\<rparr>) = cache a"
  "cache (a\<lparr>encoded_block := x16\<rparr>) = cache a"
  "cache (a\<lparr>references := x17\<rparr>) = cache a"
  "cache (a\<lparr>alloc_version := x18\<rparr>) = cache a"
  by (simp_all add: cache_def [abs_def])

lemma stored_rows_update [simp]:
  "stored_rows (a\<lparr>transacted := x19\<rparr>) = stored_rows a"
  "stored_rows (a\<lparr>versions := x20\<rparr>) = stored_rows a"
  "stored_rows (a\<lparr>alloc_changes := x21\<rparr>) = stored_rows a"
  "stored_rows (a\<lparr>alloc_use := x22\<rparr>) = stored_rows a"
  "stored_rows (a\<lparr>alloc_result := x23\<rparr>) = stored_rows a"
  "stored_rows (a\<lparr>busy := x24\<rparr>) = stored_rows a"
  "stored_rows (a\<lparr>allocated_version := x25\<rparr>) = stored_rows a"
  "stored_rows (a\<lparr>currently_active := x26\<rparr>) = stored_rows a"
  "stored_rows (a\<lparr>alloc_clock := x27\<rparr>) = stored_rows a"
  "stored_rows (a\<lparr>transient := x28\<rparr>) = stored_rows a"
  "stored_rows (a\<lparr>read_block := x29\<rparr>) = stored_rows a"
  "stored_rows (a\<lparr>current_block := x30\<rparr>) = stored_rows a"
  "stored_rows (a\<lparr>current_version := x31\<rparr>) = stored_rows a"
  "stored_rows (a\<lparr>next_address := x32\<rparr>) = stored_rows a"
  "stored_rows (a\<lparr>current_address := x33\<rparr>) = stored_rows a"
  "stored_rows (a\<lparr>encoded_block := x34\<rparr>) = stored_rows a"
  "stored_rows (a\<lparr>references := x35\<rparr>) = stored_rows a"
  "stored_rows (a\<lparr>alloc_version := x36\<rparr>) = stored_rows a"
  "stored_rows (a\<lparr>allocations := y36\<rparr>) = stored_rows a"
  by (simp_all add: stored_rows_def)

lemma stored_update [simp]:
  "stored (a\<lparr>transacted := x37\<rparr>) = stored a"
  "stored (a\<lparr>versions := x38\<rparr>) = stored a"
  "stored (a\<lparr>alloc_changes := x39\<rparr>) = stored a"
  "stored (a\<lparr>alloc_use := x40\<rparr>) = stored a"
  "stored (a\<lparr>alloc_result := x41\<rparr>) = stored a"
  "stored (a\<lparr>busy := x42\<rparr>) = stored a"
  "stored (a\<lparr>allocated_version := x43\<rparr>) = stored a"
  "stored (a\<lparr>currently_active := x44\<rparr>) = stored a"
  "stored (a\<lparr>alloc_clock := x45\<rparr>) = stored a"
  "stored (a\<lparr>transient := x46\<rparr>) = stored a"
  "stored (a\<lparr>read_block := x47\<rparr>) = stored a"
  "stored (a\<lparr>current_block := x48\<rparr>) = stored a"
  "stored (a\<lparr>current_version := x49\<rparr>) = stored a"
  "stored (a\<lparr>next_address := x50\<rparr>) = stored a"
  "stored (a\<lparr>current_address := x51\<rparr>) = stored a"
  "stored (a\<lparr>encoded_block := x52\<rparr>) = stored a"
  "stored (a\<lparr>references := x53\<rparr>) = stored a"
  "stored (a\<lparr>alloc_version := x54\<rparr>) = stored a"
  "stored (a\<lparr>allocations := y54\<rparr>) = stored a"
  by (simp_all add: stored_def [abs_def])

lemma view_update [simp]:
  "view (a\<lparr>transacted := x55\<rparr>) = view a"
  "view (a\<lparr>versions := x56\<rparr>) = view a"
  "view (a\<lparr>alloc_changes := x57\<rparr>) = view a"
  "view (a\<lparr>alloc_use := x58\<rparr>) = view a"
  "view (a\<lparr>alloc_result := x59\<rparr>) = view a"
  "view (a\<lparr>busy := x60\<rparr>) = view a"
  "view (a\<lparr>allocated_version := x61\<rparr>) = view a"
  "view (a\<lparr>currently_active := x62\<rparr>) = view a"
  "view (a\<lparr>alloc_clock := x63\<rparr>) = view a"
  "view (a\<lparr>transient := x64\<rparr>) = view a"
  "view (a\<lparr>read_block := x65\<rparr>) = view a"
  "view (a\<lparr>current_block := x66\<rparr>) = view a"
  "view (a\<lparr>current_version := x67\<rparr>) = view a"
  "view (a\<lparr>next_address := x68\<rparr>) = view a"
  "view (a\<lparr>current_address := x69\<rparr>) = view a"
  "view (a\<lparr>encoded_block := x70\<rparr>) = view a"
  "view (a\<lparr>references := x71\<rparr>) = view a"
  "view (a\<lparr>alloc_version := x72\<rparr>) = view a"
  by (simp_all add: view_def)

text \<open>Operations that only touch the accounting.\<close>

definition same_store :: "sqlite_allocator \<Rightarrow> sqlite_allocator \<Rightarrow> bool" where
  "same_store a a' \<longleftrightarrow> map fst (allocations a') = map fst (allocations a) \<and> cache a' = cache a \<and>
     stored_rows a' = stored_rows a \<and> next_address a' = next_address a \<and> is_new a' = is_new a \<and>
     session a' = session a \<and> file_rows a' = file_rows a \<and> transacted a' = transacted a \<and>
     current_address a' = current_address a \<and> encoded_block a' = encoded_block a \<and> local_writes a' = local_writes a"

lemma same_store_refl [simp]: "same_store a a"
  by (simp add: same_store_def)

lemma same_store_trans: "same_store a b \<Longrightarrow> same_store b c \<Longrightarrow> same_store a c"
  by (simp add: same_store_def)

lemma same_store_inv: "same_store a a' \<Longrightarrow> store_inv a' = store_inv a"
  by (simp add: same_store_def store_inv_def stored_def [abs_def])

lemma same_store_view: "same_store a a' \<Longrightarrow> view a' = view a"
  by (simp add: same_store_def view_def stored_def [abs_def])

lemma same_store_stored: "same_store a a' \<Longrightarrow> stored a' = stored a"
  by (simp add: same_store_def stored_def [abs_def])

lemma reflect_at_same: "same_store a (reflect_at h w a)"
proof (cases "map_of (allocations a) w")
  case (Some d)
  then have "w \<in> fst ` set (allocations a)" by (metis domI dom_map_of_conv_image_fst)
  then show ?thesis using Some
    by (auto simp: same_store_def reflect_at_def reflect_block_use_def up_use_def cache_def stored_rows_def
        keys_update fun_eq_iff)
qed (simp add: reflect_at_def)

lemma fold_reflect_same: "same_store a (fold (reflect_at h) ws a)"
  by (induction ws arbitrary: a) (auto intro: same_store_trans reflect_at_same)

section \<open>Sessions\<close>

lemma get_session_simps [simp]:
  "allocations (get_session a) = allocations a" "local_writes (get_session a) = local_writes a"
  "transacted (get_session a) = transacted a" "session (get_session a) \<noteq> None"
  "current_address (get_session a) = current_address a" "encoded_block (get_session a) = encoded_block a"
  "alloc_version (get_session a) = alloc_version a" "versions (get_session a) = versions a"
  by (auto simp: get_session_def Let_def split: option.splits)

lemma get_session_ok:
  assumes "store_inv a"
  shows "store_inv (get_session a)" "view (get_session a) = view a" "stored_rows (get_session a) = stored_rows a"
    "cache (get_session a) = cache a" "\<not> is_new (get_session a)" "next_address a \<le> next_address (get_session a)"
proof -
  have rows: "stored_rows (get_session a) = stored_rows a"
    using assms by (auto simp: get_session_def stored_rows_def store_inv_def Let_def split: option.splits)
  have c: "cache (get_session a) = cache a" by (simp add: cache_def fun_eq_iff)
  have n: "next_address a \<le> next_address (get_session a)" by (auto simp: get_session_def Let_def split: option.splits)
  have new: "\<not> is_new (get_session a)" using assms by (auto simp: get_session_def store_inv_def Let_def split: option.splits)
  have s: "stored (get_session a) = stored a" using rows by (simp add: stored_def fun_eq_iff)
  show "stored_rows (get_session a) = stored_rows a" "cache (get_session a) = cache a" "\<not> is_new (get_session a)"
    "next_address a \<le> next_address (get_session a)" by (fact rows c new n)+
  show "view (get_session a) = view a" by (simp add: view_def c s)
  have f: "file_rows (get_session a) \<noteq> None" "\<not> transacted a \<longrightarrow> file_rows (get_session a) = session (get_session a)"
    using assms by (auto simp: get_session_def store_inv_def Let_def split: option.splits)
  show "store_inv (get_session a)"
    using assms rows s c n new f unfolding store_inv_def by (auto intro: order.trans)
qed

lemma begin_transaction_ok:
  assumes "store_inv a"
  shows "store_inv (begin_transaction a)" "view (begin_transaction a) = view a" "cache (begin_transaction a) = cache a"
    "stored_rows (begin_transaction a) = stored_rows a" "\<not> is_new (begin_transaction a)" "transacted (begin_transaction a)"
    "allocations (begin_transaction a) = allocations a" "local_writes (begin_transaction a) = local_writes a"
proof -
  note g = get_session_ok [OF assms]
  have up: "store_inv (b\<lparr>transacted := True\<rparr>)" "view (b\<lparr>transacted := True\<rparr>) = view b"
    "cache (b\<lparr>transacted := True\<rparr>) = cache b" "stored_rows (b\<lparr>transacted := True\<rparr>) = stored_rows b"
    if "store_inv b" "session b \<noteq> None" for b
    using that by (auto simp: store_inv_def)
  show "store_inv (begin_transaction a)" "view (begin_transaction a) = view a" "cache (begin_transaction a) = cache a"
    "stored_rows (begin_transaction a) = stored_rows a" "\<not> is_new (begin_transaction a)" "transacted (begin_transaction a)"
    "allocations (begin_transaction a) = allocations a" "local_writes (begin_transaction a) = local_writes a"
    using assms g up [OF g(1)] by (auto simp: begin_transaction_def store_inv_def)
qed

section \<open>Dropping and writing blocks\<close>

text \<open>The part of the state a list of descriptors is a snapshot of.\<close>

definition snapshot :: "(address \<times> block_descriptor) list \<Rightarrow> sqlite_allocator \<Rightarrow> bool" where
  "snapshot bs a \<longleftrightarrow> distinct (map fst bs) \<and> (\<forall>(w, d)\<in>set bs. cache a w = Some (desc_mod d, desc_block d))"

lemma snapshot_Cons [simp]:
  "snapshot ((w, d) # bs) a \<longleftrightarrow>
   w \<notin> fst ` set bs \<and> cache a w = Some (desc_mod d, desc_block d) \<and> snapshot bs a"
  by (auto simp: snapshot_def)

lemma snapshot_cache:
  assumes "\<And>x. x \<in> fst ` set bs \<Longrightarrow> cache a' x = cache a x" shows "snapshot bs a' = snapshot bs a"
  using assms by (fastforce simp: snapshot_def)

lemma drop_block_simps [simp]:
  "allocations (drop_block h w d a) = AList.delete w (allocations a)" "session (drop_block h w d a) = session a"
  "file_rows (drop_block h w d a) = file_rows a" "transacted (drop_block h w d a) = transacted a"
  "is_new (drop_block h w d a) = is_new a" "next_address (drop_block h w d a) = next_address a"
  "current_address (drop_block h w d a) = current_address a" "encoded_block (drop_block h w d a) = encoded_block a"
  "local_writes (drop_block h w d a) = local_writes a" "stored_rows (drop_block h w d a) = stored_rows a"
  "cache (drop_block h w d a) = (cache a)(w := None)"
  by (auto simp: drop_block_def down_use_def stored_rows_def cache_def fun_eq_iff)

lemma drop_block_ok:
  assumes "store_inv a" "cache a w = Some (m, b)" "stored a w = Some b"
  shows "store_inv (drop_block h w d a)" "view (drop_block h w d a) = view a"
proof -
  have s: "stored (drop_block h w d a) = stored a" by (simp add: stored_def fun_eq_iff)
  show "view (drop_block h w d a) = view a"
    using assms(2,3) by (auto simp: view_def s map_add_def fun_eq_iff split: option.splits)
  show "store_inv (drop_block h w d a)"
    using assms(1) unfolding store_inv_def s drop_block_simps
    by (auto simp: distinct_delete split: if_splits)
qed

lemma same_store_versions [simp]: "same_store a (a\<lparr>versions := v\<rparr>)"
  by (simp add: same_store_def cache_def [abs_def] stored_rows_def)

lemma flush_select_ok:
  "flush_select h f before rel all bs a = (ws, a') \<Longrightarrow> store_inv a \<Longrightarrow> snapshot bs a \<Longrightarrow>
   store_inv a' \<and> view a' = view a \<and> stored_rows a' = stored_rows a \<and> local_writes a' = local_writes a \<and>
   ws = filter (\<lambda>(w, d). all \<or> is_modified d) bs \<and> snapshot ws a' \<and>
   (\<forall>x. x \<notin> fst ` set bs \<longrightarrow> cache a' x = cache a x) \<and>
   cache a' \<subseteq>\<^sub>m cache a"
proof (induction h f before rel all bs a arbitrary: ws a' rule: flush_select.induct)
  case (2 h f before rel all w d bs a)
  have w: "w \<notin> fst ` set bs" "cache a w = Some (desc_mod d, desc_block d)" "snapshot bs a" using "2.prems"(3) by auto
  show ?case
  proof (cases "all \<or> is_modified d")
    case True
    then obtain ws' where ws': "flush_select h f before rel all bs a = (ws', a')" "ws = (w, d) # ws'"
      using "2.prems"(1) by (auto split: prod.splits)
    have IH: "store_inv a'" "view a' = view a" "stored_rows a' = stored_rows a" "local_writes a' = local_writes a"
      "ws' = filter (\<lambda>(w, d). all \<or> is_modified d) bs" "snapshot ws' a'"
      "\<And>x. x \<notin> fst ` set bs \<Longrightarrow> cache a' x = cache a x"
      "cache a' \<subseteq>\<^sub>m cache a"
      using "2.IH"(1) [OF True ws'(1) "2.prems"(2) w(3)] by blast+
    have "w \<notin> fst ` set ws'" using w(1) unfolding IH(5) by auto
    then show ?thesis using IH True w ws'(2) by simp
  next
    case clean: False
    then have st: "stored a w = Some (desc_block d)" using "2.prems"(2) w(2) by (auto simp: store_inv_def is_modified_def)
    show ?thesis
    proof (cases "above_limit f before a \<and> rel")
      case True
      define a1 where "a1 = reflect_at h w (a\<lparr>versions := AList.update w (desc_version d) (versions a)\<rparr>)"
      define a2 where "a2 = drop_block h w d a1"
      have s: "same_store a a1"
        unfolding a1_def by (rule same_store_trans [OF same_store_versions reflect_at_same])
      then have a1: "store_inv a1" "view a1 = view a" "cache a1 = cache a" "stored_rows a1 = stored_rows a"
          "stored a1 w = Some (desc_block d)" "local_writes a1 = local_writes a"
        using "2.prems"(2) st by (simp_all add: same_store_inv same_store_view) (simp_all add: same_store_def stored_def)
      have a2: "store_inv a2" "view a2 = view a" "cache a2 = (cache a)(w := None)" "stored_rows a2 = stored_rows a"
        "local_writes a2 = local_writes a"
        using drop_block_ok [OF a1(1) _ a1(5), of _ h d] a1 w(2) by (simp_all add: a2_def)
      have f: "flush_select h f before rel all bs a2 = (ws, a')"
        using "2.prems"(1) clean True by (simp add: a2_def a1_def)
      have "cache a2 x = cache a x" if "x \<in> fst ` set bs" for x using that w(1) a2(3) by auto
      then have sn: "snapshot bs a2" using w(3) snapshot_cache by blast
      have IH: "store_inv a'" "view a' = view a2" "stored_rows a' = stored_rows a2" "local_writes a' = local_writes a2"
        "ws = filter (\<lambda>(w, d). all \<or> is_modified d) bs" "snapshot ws a'"
        "\<And>x. x \<notin> fst ` set bs \<Longrightarrow> cache a' x = cache a2 x"
        "cache a' \<subseteq>\<^sub>m cache a2"
        using "2.IH"(2) [OF clean True f [unfolded a2_def a1_def]] a2(1) sn unfolding a2_def a1_def by blast+
      have "cache a' \<subseteq>\<^sub>m cache a" using IH(8) a2(3) by (auto simp: map_le_def split: if_splits)
      then show ?thesis using IH(1-7) a2 clean by simp
    next
      case False
      then have "flush_select h f before rel all bs a = (ws, a')" using "2.prems"(1) clean by auto
      from "2.IH"(3) [OF clean False this "2.prems"(2) w(3)] show ?thesis using clean by auto
    qed
  qed
qed (auto simp: snapshot_def)

lemma reflect_at_transacted [simp]: "transacted (reflect_at h w a) = transacted a"
  using reflect_at_same [of a h w] by (simp add: same_store_def)

lemma flush_select_transacted: "transacted (snd (flush_select h f before rel all bs a)) = transacted a"
  by (induction h f before rel all bs a rule: flush_select.induct) (auto split: prod.splits)

lemma add_buffer_simps [simp]:
  "allocations (add_buffer w v b a) = allocations a" "local_writes (add_buffer w v b a) = local_writes a"
  "transacted (add_buffer w v b a) = transacted a" "cache (add_buffer w v b a) = cache a"
  "is_new (add_buffer w v b a) = is_new a" "next_address (add_buffer w v b a) = next_address a"
  "current_address (add_buffer w v b a) = w" "encoded_block (add_buffer w v b a) = b"
  "session (add_buffer w v b a) = map_option (AList.update w (v, b)) (session a)"
  by (simp_all add: add_buffer_def insert_row_def Let_def cache_def [abs_def])

lemma add_buffer_ok:
  assumes inv: "store_inv a" and t: "transacted a" and c: "cache a w = Some (m, b)"
  shows "store_inv (add_buffer w v b a)" "view (add_buffer w v b a) = view a"
    "stored (add_buffer w v b a) = (stored a)(w \<mapsto> b)"
proof -
  obtain r where r: "session a = Some r" "\<not> is_new a" "distinct (map fst r)" "stored_rows a = r"
    using inv t by (auto simp: store_inv_def stored_rows_def)
  have rows: "stored_rows (add_buffer w v b a) = AList.update w (v, b) r" using r by (simp add: stored_rows_def)
  have f: "file_rows (add_buffer w v b a) = file_rows a" using t by (simp add: add_buffer_def insert_row_def Let_def)
  show st: "stored (add_buffer w v b a) = (stored a)(w \<mapsto> b)" by (simp add: stored_def rows r(4) fun_eq_iff)
  show "view (add_buffer w v b a) = view a" using c by (auto simp: view_def st map_add_def fun_eq_iff split: option.splits)
  have "w \<noteq> 0 \<and> w \<le> next_address a" using inv c by (auto simp: store_inv_def)
  then show "store_inv (add_buffer w v b a)"
    using inv c r t f unfolding store_inv_def rows st add_buffer_simps
    by (auto simp: distinct_update)
qed

text \<open>Marking the block written.\<close>

lemma written_ok:
  assumes inv: "store_inv a" and c: "cache a w = Some (m, desc_block d)" and s: "stored a w = Some (desc_block d)"
  defines "a' \<equiv> a\<lparr>allocations := AList.update w (set_written d) (allocations a)\<rparr>"
  shows "store_inv a'" "view a' = view a" "cache a' = (cache a)(w \<mapsto> (Read, desc_block d))" "stored a' = stored a"
proof -
  have k: "w \<in> fst ` set (allocations a)"
    using c by (auto simp: cache_def dom_map_of_conv_image_fst [symmetric])
  show c': "cache a' = (cache a)(w \<mapsto> (Read, desc_block d))" by (auto simp: a'_def cache_def set_written_def fun_eq_iff)
  show s': "stored a' = stored a" by (simp add: a'_def stored_def stored_rows_def fun_eq_iff)
  have r: "stored_rows a' = stored_rows a" by (simp add: a'_def stored_rows_def)
  show "view a' = view a" using c by (auto simp: view_def c' s' map_add_def fun_eq_iff split: option.splits)
  show "store_inv a'" using inv c s k unfolding store_inv_def c' s' r
    by (auto simp: a'_def distinct_update)
qed

lemma flush_block_ok:
  assumes inv: "store_inv a" and t: "transacted a" and lw: "local_writes a" and c: "cache a w = Some (desc_mod d, desc_block d)"
  shows "store_inv (flush_block h rel w d a)" "view (flush_block h rel w d a) = view a" "transacted (flush_block h rel w d a)"
    "local_writes (flush_block h rel w d a)"
    "cache (flush_block h rel w d a) = (cache a)(w := if rel then None else Some (Read, desc_block d))"
proof -
  define a1 where "a1 = add_buffer w (desc_version d) (desc_block d) (a\<lparr>versions := AList.update w (desc_version d) (versions a)\<rparr>)"
  define a2 where "a2 = reflect_at h w (a1\<lparr>allocations := AList.update w (set_written d) (allocations a1)\<rparr>)"
  have inv0: "store_inv (a\<lparr>versions := AList.update w (desc_version d) (versions a)\<rparr>)"
    using inv by (simp add: same_store_inv [OF same_store_versions])
  have a1: "store_inv a1" "view a1 = view a" "stored a1 w = Some (desc_block d)" "cache a1 = cache a" "transacted a1" "local_writes a1"
    using add_buffer_ok [OF inv0, of w "desc_mod d" "desc_block d" "desc_version d"] t c lw by (simp_all add: a1_def)
  have c1: "cache a1 w = Some (desc_mod d, desc_block d)" using a1(4) c by simp
  have s: "same_store (a1\<lparr>allocations := AList.update w (set_written d) (allocations a1)\<rparr>) a2"
    unfolding a2_def by (rule reflect_at_same)
  have a2: "store_inv a2" "view a2 = view a" "cache a2 = (cache a)(w \<mapsto> (Read, desc_block d))" "transacted a2" "local_writes a2"
    "stored a2 w = Some (desc_block d)"
    using written_ok [OF a1(1) c1 a1(3)] same_store_inv [OF s] same_store_view [OF s] same_store_stored [OF s] s a1
    by (simp_all add: same_store_def)
  have eq: "flush_block h rel w d a = (if rel then drop_block h w d a2 else a2)"
    using lw by (simp add: flush_block_def a2_def a1_def Let_def)
  show "store_inv (flush_block h rel w d a)" "view (flush_block h rel w d a) = view a" "transacted (flush_block h rel w d a)"
    "local_writes (flush_block h rel w d a)"
    "cache (flush_block h rel w d a) = (cache a)(w := if rel then None else Some (Read, desc_block d))"
    using a2 drop_block_ok [OF a2(1) _ a2(6)] by (auto simp: eq)
qed

definition clean_at :: "sqlite_allocator \<Rightarrow> address \<Rightarrow> bool" where
  "clean_at a w \<longleftrightarrow> (\<forall>m b. cache a w = Some (m, b) \<longrightarrow> m = Read)"

lemma flush_write_ok:
  "store_inv a \<Longrightarrow> transacted a \<Longrightarrow> local_writes a \<Longrightarrow> snapshot bs a \<Longrightarrow>
   store_inv (flush_write h f before rel bs a) \<and> view (flush_write h f before rel bs a) = view a \<and>
   transacted (flush_write h f before rel bs a) \<and> local_writes (flush_write h f before rel bs a) \<and>
   (\<forall>x. if x \<in> fst ` set bs then clean_at (flush_write h f before rel bs a) x
        else cache (flush_write h f before rel bs a) x = cache a x)"
proof (induction h f before rel bs a rule: flush_write.induct)
  case (2 h f before rel w d bs a)
  define a1 where "a1 = flush_block h rel w d a"
  have c: "cache a w = Some (desc_mod d, desc_block d)" "w \<notin> fst ` set bs" "snapshot bs a" using "2.prems"(4) by auto
  have a1: "store_inv a1" "view a1 = view a" "transacted a1" "local_writes a1"
    "cache a1 = (cache a)(w := if rel then None else Some (Read, desc_block d))"
    using flush_block_ok [OF "2.prems"(1-3) c(1)] by (simp_all add: a1_def)
  have cl: "clean_at a1 w" using a1(5) by (auto simp: clean_at_def)
  have "cache a1 x = cache a x" if "x \<in> fst ` set bs" for x using that c(2) a1(5) by auto
  then have sn: "snapshot bs a1" using c(3) snapshot_cache by blast
  show ?case
  proof (cases "bs = [] \<and> \<not> above_limit f before a1")
    case True
    then show ?thesis using a1 cl by (simp add: a1_def [symmetric] Let_def)
  next
    case False
    have eq: "flush_write h f before rel ((w, d) # bs) a = flush_write h f before rel bs a1"
      using False by (auto simp: a1_def Let_def)
    have IH: "store_inv (flush_write h f before rel bs a1)" "view (flush_write h f before rel bs a1) = view a1"
      "transacted (flush_write h f before rel bs a1)" "local_writes (flush_write h f before rel bs a1)"
      "\<And>x. if x \<in> fst ` set bs then clean_at (flush_write h f before rel bs a1) x
        else cache (flush_write h f before rel bs a1) x = cache a1 x"
      using "2.IH" [OF a1_def False a1(1,3,4) sn] by blast+
    have all: "\<forall>x. if x \<in> fst ` set ((w, d) # bs) then clean_at (flush_write h f before rel bs a1) x
        else cache (flush_write h f before rel bs a1) x = cache a x"
    proof
      fix x show "if x \<in> fst ` set ((w, d) # bs) then clean_at (flush_write h f before rel bs a1) x
        else cache (flush_write h f before rel bs a1) x = cache a x"
        using IH(5) [of x] cl c(2) a1(5) by (auto simp: clean_at_def split: if_splits)
    qed
    show ?thesis unfolding eq by (intro conjI IH(1,3,4) all) (simp add: IH(2) a1(2))
  qed
qed simp

end
