(* ===== verification/BlockStable.thy ===== *)
theory BlockStable
  imports BlockStore
begin

text \<open>
  Relations between a store and what it becomes that the operations of the allocator respect: what they
  do to the cache and to the variables they work with does not matter, and rows are only written inside
  a transaction of the file.  The relations are proved for every operation at once.
\<close>

section \<open>The contract\<close>

definition same_core :: "sqlite_allocator \<Rightarrow> sqlite_allocator \<Rightarrow> bool" where
  "same_core a b \<longleftrightarrow> file_rows b = file_rows a \<and> session b = session a \<and> transacted b = transacted a \<and> transient b = transient a \<and>
     references b = references a \<and> is_read_cache b = is_read_cache a \<and> alloc_version b = alloc_version a \<and> is_new b = is_new a \<and>
     next_address a \<le> next_address b"

lemma same_core_refl [simp]: "same_core a a"
  by (simp add: same_core_def)

lemma same_core_trans: "same_core a b \<Longrightarrow> same_core b c \<Longrightarrow> same_core a c"
  by (simp add: same_core_def)

lemma core_reflect: "same_core a (reflect_at h w a)"
  by (auto simp: same_core_def reflect_at_def reflect_block_use_def up_use_def Let_def split: option.splits)

lemma core_fold_reflect: "same_core a (fold (reflect_at h) ws a)"
  by (induction ws arbitrary: a) (auto intro: same_core_trans core_reflect)

lemma core_drop: "same_core a (drop_block h w d a)"
  by (simp add: same_core_def drop_block_def down_use_def)

lemma core_select: "same_core a (snd (flush_select h f before rel all bs a))"
proof (induction h f before rel all bs a rule: flush_select.induct)
  case (2 h f before rel all w d bs a)
  have "same_core a (drop_block h w d (reflect_at h w (a\<lparr>versions := AList.update w (desc_version d) (versions a)\<rparr>)))"
    by (rule same_core_trans [OF _ same_core_trans [OF core_reflect core_drop]]) (simp add: same_core_def)
  then show ?case using 2 by (auto split: prod.splits intro: same_core_trans)
qed simp

lemma core_found: "same_core a (snd (snd (found_block h w d a)))"
  by (simp add: found_block_def reflect_block_use_def up_use_def Let_def same_core_def)

lemma core_complete: "same_core a (complete h a)"
  using core_reflect [of "a\<lparr>allocated_version := 0\<rparr>" h]
  by (auto simp: complete_def same_core_def Let_def split: option.splits)

lemma core_write: "same_core a (write_ref r b a)"
  by (auto simp: same_core_def write_ref_def split: block_ref.splits option.splits)

lemma core_assign: "same_core a (assign_version v a)"
  by (auto simp: same_core_def assign_version_def split: option.splits)

lemma core_recycle: "same_core a (recycle_block h w a)"
  by (auto simp: same_core_def recycle_block_def reflect_block_use_def up_use_def down_use_def Let_def split: option.splits)

locale stable_store =
  fixes rel :: "sqlite_allocator \<Rightarrow> sqlite_allocator \<Rightarrow> bool"
  assumes trans_ok: "rel a b \<Longrightarrow> rel b c \<Longrightarrow> rel a c"
    and core_ok: "same_core a b \<Longrightarrow> rel a b"
    and session_ok: "rel a (get_session a)"
    and begin_ok: "rel a (begin_transaction a)"
    and insert_ok: "transacted a \<Longrightarrow> rel a (insert_row w r a)"
begin

lemma stable_refl: "rel a a"
  by (rule core_ok) simp

lemma after_session: "rel (get_session a) b \<Longrightarrow> rel a b"
  by (rule trans_ok [OF session_ok])

lemma stable_add_buffer:
  assumes "transacted a" shows "rel a (add_buffer w v b a)"
  unfolding add_buffer_def
  by (rule trans_ok [OF core_ok insert_ok]) (simp_all add: same_core_def assms)

lemma stable_flush_block:
  assumes "transacted a" shows "rel a (flush_block h r w d a)"
proof -
  define a1 where "a1 = (if local_writes a then
      (let a' = add_buffer w (desc_version d) (desc_block d) (a\<lparr>versions := AList.update w (desc_version d) (versions a)\<rparr>)
       in a'\<lparr>allocations := AList.update w (set_written d) (allocations a')\<rparr>) else a)"
  define a0 where "a0 = a\<lparr>versions := AList.update w (desc_version d) (versions a)\<rparr>"
  have 1: "rel a a0" by (rule core_ok) (simp add: same_core_def a0_def)
  have 2: "rel a0 (add_buffer w (desc_version d) (desc_block d) a0)" by (rule stable_add_buffer) (simp add: a0_def assms)
  have 3: "rel b (b\<lparr>allocations := x\<rparr>)" for b x by (rule core_ok) (simp add: same_core_def)
  have "rel a a1" unfolding a1_def Let_def a0_def [symmetric] using trans_ok [OF trans_ok [OF 1 2] 3] stable_refl by simp
  then have "rel a (reflect_at h w a1)" by (rule trans_ok [OF _ core_ok [OF core_reflect]])
  moreover from this have "rel a (drop_block h w d (reflect_at h w a1))" by (rule trans_ok [OF _ core_ok [OF core_drop]])
  moreover have "flush_block h r w d a = (if r then drop_block h w d (reflect_at h w a1) else reflect_at h w a1)"
    by (simp only: flush_block_def Let_def a1_def)
  ultimately show ?thesis by simp
qed

end

lemma transacted_core: "same_core a b \<Longrightarrow> transacted b = transacted a"
  by (simp add: same_core_def)

lemma transacted_flush_block: "transacted (flush_block h r w d a) = transacted a"
proof -
  have "transacted (add_buffer w v b a) = transacted a" for v b a by (simp add: add_buffer_def insert_row_def Let_def)
  then show ?thesis
    by (simp add: flush_block_def Let_def transacted_core [OF core_drop] transacted_core [OF core_reflect])
qed

lemma transacted_begin: "transacted (begin_transaction a)"
  by (simp add: begin_transaction_def)

context stable_store
begin

lemma stable_flush_write: "transacted a \<Longrightarrow> rel a (flush_write h f before r bs a)"
proof (induction h f before r bs a rule: flush_write.induct)
  case (2 h f before r w d bs a)
  have "rel a (flush_block h r w d a)" by (rule stable_flush_block [OF "2.prems"])
  moreover have "transacted (flush_block h r w d a)" using "2.prems" by (simp add: transacted_flush_block)
  ultimately show ?case using "2.IH" [OF refl] trans_ok [of a "flush_block h r w d a"] by (simp add: Let_def)
qed (simp add: stable_refl)

lemma stable_flush_back: "rel a (flush_back h f r all a)"
proof -
  define a1 where "a1 = fold (reflect_at h) (map fst (allocations a)) (a\<lparr>alloc_result := None\<rparr>)"
  define bs where "bs = sort_key (\<lambda>b. desc_clock (snd b)) (allocations a1)"
  obtain ws a2 where sel: "flush_select h f (alloc_use a) r all bs a1 = (ws, a2)" by force
  have "same_core a (a\<lparr>alloc_result := None\<rparr>)" by (simp add: same_core_def)
  then have "same_core a a1" unfolding a1_def by (rule same_core_trans [OF _ core_fold_reflect])
  then have "same_core a a2" using same_core_trans [OF _ core_select [of a1 h f "alloc_use a" r all bs]] sel by simp
  then have k2: "rel a a2" by (rule core_ok)
  have k3: "rel a (get_session (flush_write h f (alloc_use a) r (sort_key fst ws) (begin_transaction a2)))"
    by (rule trans_ok [OF k2 trans_ok [OF begin_ok trans_ok [OF stable_flush_write session_ok]]]) (rule transacted_begin)
  have "flush_back h f r all a = (if ws = [] \<and> \<not> above_limit f (alloc_use a) a2 then a2
      else let a4 = get_session (flush_write h f (alloc_use a) r (sort_key fst ws) (begin_transaction a2)) in
        if all then a4\<lparr>alloc_changes := 0\<rparr> else a4)"
    by (simp add: flush_back_def Let_def a1_def [symmetric] bs_def [symmetric] sel)
  moreover have "rel b (b\<lparr>alloc_changes := 0\<rparr>)" for b by (rule core_ok) (simp add: same_core_def)
  ultimately show ?thesis using k2 k3 trans_ok by (simp add: Let_def)
qed

lemma stable_check_use: "rel a (check_use h a)"
  using trans_ok [OF stable_flush_back session_ok] stable_refl by (simp add: check_use_def)

lemma stable_get_buffer:
  assumes "get_buffer w a = Inr (found, a')" shows "rel a a'"
  using assms
  by (auto simp: get_buffer_def Let_def stable_refl split: if_splits option.splits prod.splits intro!: after_session [of a])
    (auto intro!: core_ok simp: same_core_def)

lemma stable_allocate_existing:
  assumes "allocate_existing h w how a = Inr (r, w', a')" shows "rel a a'"
proof -
  have f: "same_core b a'" if "found_block h w d b = (r, w', a')" for d b using core_found [of b h w d] that by simp
  show ?thesis
  proof (cases "map_of (allocations a) w")
    case (Some d)
    then show ?thesis using assms core_ok [OF f] by (simp add: allocate_existing_def)
  next
    case None
    then obtain l a1 where a1: "(if how = Create then Inr (False, a) else get_buffer w a) = Inr (l, a1)"
      using assms by (auto simp: allocate_existing_def bindE_Inr_iff)
    then have k1: "rel a a1" using stable_get_buffer stable_refl by (auto split: if_splits)
    have "same_core a1 a'"
      using assms None a1 unfolding allocate_existing_def
      by (auto simp: Let_def create_block_def split: if_splits prod.splits dest!: f)
        (auto simp: same_core_def version_off_def split: if_splits)
    then show ?thesis by (rule trans_ok [OF k1 core_ok])
  qed
qed

lemma stable_allocate_raw:
  assumes "allocate_raw h w how a = Inr (r, w', a')" shows "rel a a'"
proof -
  define b where "b = start_allocate how a"
  have b: "rel a b" by (rule core_ok) (simp add: b_def start_allocate_def same_core_def)
  have "rel b a'"
  proof (cases "w = 0")
    case False
    then show ?thesis using assms stable_allocate_existing by (simp add: allocate_raw_def b_def Let_def)
  next
    case True
    define c where "c = b\<lparr>next_address := Suc (next_address b), versions := AList.update (Suc (next_address b)) (alloc_version b) (versions b)\<rparr>"
    have "same_core b c" by (simp add: c_def same_core_def)
    moreover have "(r, w', a') = found_block h (Suc (next_address b)) (set_storage_action Create (new_descriptor (alloc_version b))) c"
      using assms True by (simp add: allocate_raw_def b_def [symmetric] create_block_def Let_def c_def split: if_splits)
    then have "same_core c a'" by (metis core_found snd_conv)
    ultimately show ?thesis using same_core_trans core_ok by blast
  qed
  with b show ?thesis by (rule trans_ok)
qed

lemma stable_allocate: "allocate h w how a = Inr (r, w', a') \<Longrightarrow> rel a a'"
  unfolding allocate_def by (rule trans_ok [OF stable_check_use stable_allocate_raw])

lemma stable_journal_block: "journal_block h w (ps, a) = Inr (ps', a') \<Longrightarrow> rel a a'"
  by (auto simp: journal_block_def bindE_Inr_iff split: if_splits intro: trans_ok [OF stable_allocate core_ok [OF core_complete]])

lemma stable_journal: "foldE (journal_block h) ws (ps, a) = Inr (ps', a') \<Longrightarrow> rel a a'"
proof (induction ws arbitrary: ps a)
  case (Cons w ws)
  then show ?case by (auto simp: bindE_Inr_iff intro: trans_ok [OF stable_journal_block])
qed (simp add: stable_refl)

text \<open>Moving into a store.\<close>

lemma stable_move_block: "move_block h p (src, dest) = Inr (src', dest') \<Longrightarrow> rel dest dest'"
proof -
  assume m: "move_block h p (src, dest) = Inr (src', dest')"
  have c: "rel b (complete h (assign_version v (write_ref r x b)))" for b v r x
    by (intro core_ok same_core_trans [OF same_core_trans [OF core_write core_assign] core_complete])
  obtain r w b v x where "allocate h (fst p) Create (check_use h dest) = Inr (r, w, b)"
    "dest' = complete h (assign_version v (write_ref r x b))"
    using m by (cases "snd p") (auto simp: move_block_def bindE_Inr_iff Let_def split: if_splits)
  then show ?thesis using trans_ok [OF trans_ok [OF stable_check_use stable_allocate] c] by blast
qed

lemma stable_move_blocks: "foldE (move_block h) ps (src, dest) = Inr (src', dest') \<Longrightarrow> rel dest dest'"
proof (induction ps arbitrary: src dest)
  case (Cons p ps)
  then show ?case by (auto simp: bindE_Inr_iff intro: trans_ok [OF stable_move_block])
qed (simp add: stable_refl)

lemma stable_move: "move h src dest = Inr (src', dest') \<Longrightarrow> rel dest dest'"
  by (auto simp: move_def bindE_Inr_iff dest: stable_move_blocks)

lemma stable_reduce_perm: "rel a (reduce_perm h a)"
  using stable_refl session_ok trans_ok [OF stable_flush_back session_ok] by (simp add: reduce_perm_def)

end

section \<open>The file\<close>

text \<open>The operations leave the rows of the file as they are; only a commit changes them.\<close>

definition leaves_file :: "sqlite_allocator \<Rightarrow> sqlite_allocator \<Rightarrow> bool" where
  "leaves_file a b \<longleftrightarrow> the_rows (file_rows b) = the_rows (file_rows a)"

interpretation leaves_file: stable_store leaves_file
proof
  fix a b w r
  show "leaves_file a (get_session a)" for a
    by (simp add: leaves_file_def get_session_def Let_def the_rows_def split: option.splits)
  then show "leaves_file a (begin_transaction a)" for a by (simp add: begin_transaction_def leaves_file_def)
  show "leaves_file a b" if "same_core a b" using that by (simp add: leaves_file_def same_core_def)
  show "leaves_file a (insert_row w r a)" if "transacted a" using that by (simp add: leaves_file_def insert_row_def Let_def)
qed (simp add: leaves_file_def)

end
