(* ===== verification/BlockAlloc.thy ===== *)
theory BlockAlloc
  imports BlockCache BlockStable "HOL-Library.Multiset"
begin

text \<open>
  Proofs about the allocator of the block store: writing back, allocation of fresh addresses,
  committing, rolling back and reading preserve its invariant and show the blocks they should.
\<close>

section \<open>Writing back\<close>

lemma same_store_result [simp]: "same_store a (a\<lparr>alloc_result := r\<rparr>)"
  by (simp add: same_store_def)

lemma snapshot_allocations: "distinct (map fst (allocations a)) \<Longrightarrow> snapshot (allocations a) a"
  by (auto simp: snapshot_def cache_def)

lemma snapshot_sort: "snapshot (sort_key f bs) a = snapshot bs a"
proof -
  have "mset (map fst (sort_key f bs)) = mset (map fst bs)" by simp
  then have "distinct (map fst (sort_key f bs)) = distinct (map fst bs)" by (rule mset_eq_imp_distinct_iff)
  then show ?thesis by (simp add: snapshot_def)
qed

lemma flush_back_ok:
  assumes inv: "store_inv a" and lw: "local_writes a"
  shows "store_inv (flush_back h f rel all a)" "view (flush_back h f rel all a) = view a"
    "local_writes (flush_back h f rel all a)" "clean_at (flush_back h f rel all a) w"
    "transacted a \<Longrightarrow> transacted (flush_back h f rel all a)"
proof -
  define a1 where "a1 = fold (reflect_at h) (map fst (allocations a)) (a\<lparr>alloc_result := None\<rparr>)"
  have s: "same_store a a1" unfolding a1_def by (rule same_store_trans [OF same_store_result fold_reflect_same])
  have a1: "store_inv a1" "view a1 = view a" "local_writes a1" "cache a1 = cache a" "transacted a1 = transacted a"
    using s inv lw by (simp_all add: same_store_inv same_store_view) (simp_all add: same_store_def)
  define bs where "bs = sort_key (\<lambda>b. desc_clock (snd b)) (allocations a1)"
  have sn: "snapshot bs a1"
    unfolding bs_def snapshot_sort using a1(1) by (intro snapshot_allocations) (simp add: store_inv_def)
  obtain ws a2 where sel: "flush_select h f (alloc_use a) rel all bs a1 = (ws, a2)" by force
  have a2: "store_inv a2" "view a2 = view a" "local_writes a2" "ws = filter (\<lambda>(w, d). all \<or> is_modified d) bs"
    "snapshot ws a2" "cache a2 \<subseteq>\<^sub>m cache a1"
    using flush_select_ok [OF sel a1(1) sn] a1 by auto
  have t2: "transacted a2 = transacted a" using flush_select_transacted [of h f "alloc_use a" rel all bs a1] sel a1(5) by simp
  have clean2: "clean_at a2 x" if "x \<notin> fst ` set ws" for x
  proof -
    have "m = Read" if c: "cache a2 x = Some (m, b)" for m b
    proof -
      have "cache a1 x = Some (m, b)" using a2(6) c by (metis domI map_le_def)
      then obtain d where d: "map_of (allocations a1) x = Some d" "desc_mod d = m" by (auto simp: cache_def)
      then have "(x, d) \<in> set bs" by (simp add: bs_def map_of_SomeD)
      then have "\<not> is_modified d" using \<open>x \<notin> fst ` set ws\<close> by (force simp: a2(4))
      then show ?thesis using d by (simp add: is_modified_def)
    qed
    then show ?thesis by (auto simp: clean_at_def)
  qed
  define b2 where "b2 = begin_transaction a2"
  note b = begin_transaction_ok [OF a2(1)]
  define a3 where "a3 = flush_write h f (alloc_use a) rel (sort_key fst ws) b2"
  have b2: "store_inv b2" "transacted b2" "local_writes b2" "view b2 = view a" using b a2 by (simp_all add: b2_def)
  have sn2: "snapshot (sort_key fst ws) b2"
    unfolding snapshot_sort using a2(5) b(3) by (simp add: snapshot_def b2_def)
  note fw = flush_write_ok [OF b2(1-3) sn2, of h f "alloc_use a" rel, folded a3_def, unfolded set_sort]
  have a3: "store_inv a3" "view a3 = view a" "transacted a3" "local_writes a3"
    and a35: "\<And>x. if x \<in> fst ` set ws then clean_at a3 x else cache a3 x = cache b2 x"
    using fw b2(4) by metis+
  have clean3: "clean_at a3 x" for x
    using a35 [of x] clean2 [of x] b(3) by (cases "x \<in> fst ` set ws") (simp_all add: clean_at_def b2_def)
  note g = get_session_ok [OF a3(1)]
  have eq: "flush_back h f rel all a = (if ws = [] \<and> \<not> above_limit f (alloc_use a) a2 then a2
      else if all then (get_session a3)\<lparr>alloc_changes := 0\<rparr> else get_session a3)"
    by (simp add: flush_back_def Let_def a1_def [symmetric] bs_def [symmetric] sel a3_def b2_def)
  have clean0: "ws = [] \<Longrightarrow> clean_at a2 w" using clean2 by simp
  have inv4: "store_inv ((get_session a3)\<lparr>alloc_changes := 0\<rparr>)" using g(1) by (simp add: store_inv_def)
  show "store_inv (flush_back h f rel all a)" "view (flush_back h f rel all a) = view a"
    "local_writes (flush_back h f rel all a)" "clean_at (flush_back h f rel all a) w"
    "transacted a \<Longrightarrow> transacted (flush_back h f rel all a)"
    using a2(1-3) a3 g inv4 clean0 clean3 [of w] t2 by (auto simp: eq clean_at_def)
qed

text \<open>What writing back leaves alone.\<close>

definition opened :: "sqlite_allocator \<Rightarrow> bool" where
  "opened a \<longleftrightarrow> is_new a \<or> session a \<noteq> None"

lemma opened_update [simp]:
  "opened (a\<lparr>versions := x0\<rparr>) = opened a"
  "opened (a\<lparr>file_rows := y0\<rparr>) = opened a"
  "opened (a\<lparr>allocations := x1\<rparr>) = opened a"
  "opened (a\<lparr>alloc_use := x2\<rparr>) = opened a"
  "opened (a\<lparr>alloc_result := x3\<rparr>) = opened a"
  "opened (a\<lparr>transacted := x4\<rparr>) = opened a"
  "opened (a\<lparr>alloc_changes := x5\<rparr>) = opened a"
  "opened (a\<lparr>busy := x6\<rparr>) = opened a"
  "opened (a\<lparr>allocated_version := x7\<rparr>) = opened a"
  "opened (a\<lparr>currently_active := x8\<rparr>) = opened a"
  "opened (a\<lparr>alloc_clock := x9\<rparr>) = opened a"
  "opened (a\<lparr>next_address := x10\<rparr>) = opened a"
  "opened (a\<lparr>read_block := x11\<rparr>) = opened a"
  "opened (a\<lparr>transient := x12\<rparr>) = opened a"
  "opened (a\<lparr>references := x13\<rparr>) = opened a"
  "opened (a\<lparr>alloc_version := x14\<rparr>) = opened a"
  "opened (a\<lparr>current_address := x15\<rparr>) = opened a"
  "opened (a\<lparr>current_version := x16\<rparr>) = opened a"
  "opened (a\<lparr>current_block := x17\<rparr>) = opened a"
  "opened (a\<lparr>encoded_block := x18\<rparr>) = opened a"
  "opened (a\<lparr>is_all_loaded := x19\<rparr>) = opened a"
  by (simp_all add: opened_def)

lemma opened_session [simp]: "opened (get_session a)"
  by (auto simp: opened_def get_session_def Let_def split: option.splits)

lemma opened_add_buffer [simp]: "opened (add_buffer w v b a) = opened a"
  by (simp add: opened_def add_buffer_def insert_row_def Let_def)

definition kept :: "sqlite_allocator \<Rightarrow> sqlite_allocator \<Rightarrow> bool" where
  "kept a a' \<longleftrightarrow> is_read_cache a' = is_read_cache a \<and> alloc_version a' = alloc_version a \<and>
     transient a' = transient a \<and> references a' = references a \<and> next_address a \<le> next_address a' \<and>
     (opened a \<longrightarrow> opened a')"

lemma kept_refl [simp]: "kept a a" by (simp add: kept_def)

lemma kept_trans [trans]: "kept a b \<Longrightarrow> kept b c \<Longrightarrow> kept a c" by (simp add: kept_def)

lemma kept_session: "kept a (get_session a)"
  by (auto simp: kept_def opened_def get_session_def Let_def split: option.splits)

lemma kept_begin: "kept a (begin_transaction a)"
  using kept_session [of a] by (auto simp: kept_def begin_transaction_def)

interpretation kept: stable_store kept
proof
  fix a b c w r
  show "kept a b \<Longrightarrow> kept b c \<Longrightarrow> kept a c" by (rule kept_trans)
  show "same_core a b \<Longrightarrow> kept a b" by (simp add: same_core_def kept_def opened_def)
  show "kept a (get_session a)" "kept a (begin_transaction a)" by (rule kept_session kept_begin)+
  show "kept a (insert_row w r a)" by (simp add: kept_def opened_def insert_row_def Let_def)
qed

lemmas kept_flush_back = kept.stable_flush_back and kept_check_use = kept.stable_check_use

section \<open>Durability\<close>

lemma clean_stored:
  assumes "store_inv a" "\<And>w. clean_at a w" shows "stored a = view a"
proof
  fix w
  show "stored a w = view a w"
  proof (cases "cache a w")
    case (Some mb)
    then obtain b where "cache a w = Some (Read, b)" using assms(2) [of w] by (cases mb) (auto simp: clean_at_def)
    then show ?thesis using assms(1) by (auto simp: view_def map_add_def store_inv_def)
  qed (simp add: view_def map_add_def)
qed

lemma commit_ok:
  assumes inv: "store_inv a" and lw: "local_writes a" and t: "transacted a"
  shows "store_inv (commit h a)" "view (commit h a) = view a" "\<not> transacted (commit h a)" "local_writes (commit h a)"
    "\<exists>r. file_rows (commit h a) = Some r \<and> distinct (map fst r) \<and> (\<lambda>w. map_option snd (map_of r w)) = view a"
proof -
  define b where "b = flush_back h (8, 10) False False a"
  have b: "store_inv b" "view b = view a" "local_writes b" "\<And>w. clean_at b w" "transacted b"
    using flush_back_ok [OF inv lw, of h "(8, 10)" False False] t by (simp_all add: b_def)
  have c: "commit h a = b\<lparr>file_rows := session b, transacted := False\<rparr>"
    using t b(5) by (simp add: commit_def b_def [symmetric] commit_storage_def)
  obtain r where r: "session b = Some r" "\<not> is_new b" "stored_rows b = r" "distinct (map fst r)"
    using b(1,5) by (auto simp: store_inv_def stored_rows_def)
  have rows: "stored_rows (commit h a) = r" using r by (simp add: c stored_rows_def)
  have st: "stored (commit h a) = stored b" by (simp add: stored_def rows r(3) fun_eq_iff)
  have ca: "cache (commit h a) = cache b" by (simp add: c cache_def [abs_def])
  show "view (commit h a) = view a" using b(2) by (simp add: view_def st ca)
  show "store_inv (commit h a)"
    using b(1) r unfolding store_inv_def rows st ca by (simp add: c)
  show "\<not> transacted (commit h a)" "local_writes (commit h a)" using b(3) by (simp_all add: c)
  have "(\<lambda>w. map_option snd (map_of r w)) = view a"
    using clean_stored [OF b(1,4)] b(2) r(3) by (simp add: stored_def [abs_def])
  then show "\<exists>r. file_rows (commit h a) = Some r \<and> distinct (map fst r) \<and> (\<lambda>w. map_option snd (map_of r w)) = view a"
    using r by (auto simp: c)
qed

lemma foldr_max_ge: "w \<in> set ws \<Longrightarrow> w \<le> foldr max ws (0 :: nat)"
  by (induction ws) auto

lemma new_allocator_ok:
  assumes "distinct (map fst r)" "0 \<notin> fst ` set r"
  shows "store_inv (new_allocator False (Some r))" "view (new_allocator False (Some r)) = (\<lambda>w. map_option snd (map_of r w))"
    "local_writes (new_allocator False (Some r))"
proof -
  have rows: "stored_rows (new_allocator False (Some r)) = r"
    by (simp add: new_allocator_def get_session_def Let_def stored_rows_def)
  have ca: "cache (new_allocator False (Some r)) = Map.empty"
    by (simp add: new_allocator_def cache_def [abs_def])
  show "view (new_allocator False (Some r)) = (\<lambda>w. map_option snd (map_of r w))"
    by (simp add: view_def ca stored_def [abs_def] rows)
  show "local_writes (new_allocator False (Some r))" by (simp add: new_allocator_def)
  have "w \<noteq> 0 \<and> w \<le> max (foldr max (map fst r) 0) 32" if "map_of r w \<noteq> None" for w
  proof -
    have "w \<in> set (map fst r)" using that by (metis domI dom_map_of_conv_image_fst list.set_map not_None_eq)
    then show ?thesis using foldr_max_ge [of w "map fst r"] assms(2) by (metis image_set max.coboundedI1)
  qed
  then have "\<forall>w. w \<in> dom (stored (new_allocator False (Some r))) \<longrightarrow> w \<noteq> 0 \<and> w \<le> max (foldr max (map fst r) 0) 32"
    by (simp add: stored_def rows domIff)
  then show "store_inv (new_allocator False (Some r))"
    using assms(1) unfolding store_inv_def rows ca
    by (simp add: new_allocator_def get_session_def Let_def)
qed

section \<open>Allocation\<close>

text \<open>The store up to what allocation records about the current block.\<close>

lemma start_allocate_same: "same_store a (start_allocate how a)"
  by (simp add: same_store_def start_allocate_def cache_def [abs_def] stored_rows_def)

lemma get_buffer_ok:
  assumes inv: "store_inv a" and w: "w \<noteq> 0"
  shows "\<exists>a'. get_buffer w a = Inr (stored a w \<noteq> None, a') \<and> store_inv a' \<and> view a' = view a \<and> cache a' = cache a \<and>
    stored a' = stored a \<and> (stored a w \<noteq> None \<longrightarrow> current_block a' = the (stored a w)) \<and> local_writes a' = local_writes a \<and>
    allocations a' = allocations a \<and> next_address a \<le> next_address a'"
proof (cases "is_new a")
  case True
  then have "stored a w = None" by (simp add: stored_def stored_rows_def)
  then show ?thesis using True w inv by (simp add: get_buffer_def)
next
  case False
  define b where "b = (get_session a)\<lparr>current_block := [], current_version := 0\<rparr>"
  note g = get_session_ok [OF inv]
  have inv_upd: "store_inv (c\<lparr>current_block := x, current_version := y\<rparr>) = store_inv c" for c x y
    by (simp add: store_inv_def)
  have inv_upd': "store_inv (c\<lparr>current_block := x\<rparr>) = store_inv c" for c x
    by (simp add: store_inv_def)
  have b: "store_inv b" "view b = view a" "cache b = cache a" "stored b = stored a" "local_writes b = local_writes a"
    "allocations b = allocations a" "next_address a \<le> next_address b" "the_rows (session b) = stored_rows a"
    "current_address b = current_address a" "encoded_block b = encoded_block a"
    using g inv_upd by (simp_all add: b_def stored_def [abs_def]) (auto simp: stored_rows_def split: if_splits)
  show ?thesis
  proof (cases "map_of (stored_rows a) w")
    case None
    then have s: "stored a w = None" by (simp add: stored_def)
    then have "current_address b \<noteq> w" using inv w b(9) by (auto simp: store_inv_def)
    then show ?thesis using False w None b s by (simp add: get_buffer_def b_def [symmetric] Let_def)
  next
    case (Some vb)
    obtain v bl where vb: "vb = (v, bl)" by force
    have s: "stored a w = Some bl" using Some vb by (simp add: stored_def)
    define c where "c = b\<lparr>current_address := w, current_version := v, encoded_block := bl\<rparr>"
    have c: "store_inv c" "view c = view a" "cache c = cache a" "stored c = stored a"
      using b s by (simp_all add: c_def store_inv_def)
    have "get_buffer w a = Inr (True, c\<lparr>current_block := bl\<rparr>)"
      using False w Some vb b(8) by (simp add: get_buffer_def b_def [symmetric] Let_def c_def)
    then show ?thesis using c s b inv_upd' by (simp add: c_def)
  qed
qed

lemma get_buffer_read_cache: "get_buffer w a = Inr (found, a') \<Longrightarrow> is_read_cache a' = is_read_cache a"
  by (auto simp: get_buffer_def get_session_def Let_def split: if_splits option.splits prod.splits)

lemma check_use_ok:
  assumes "store_inv a" "local_writes a"
  shows "store_inv (check_use h a)" "view (check_use h a) = view a" "local_writes (check_use h a)"
  using flush_back_ok [OF assms, of h "(3, 10)" True False] get_session_ok assms by (auto simp: check_use_def)

text \<open>Installing a descriptor.\<close>

lemma found_block_ok:
  assumes inv: "store_inv a" and w: "w \<noteq> 0" "w \<le> next_address a" and clean: "desc_mod d = Read \<Longrightarrow> stored a w = Some (desc_block d)"
  obtains a' where "found_block h w d a = (Cached w, w, a')" "store_inv a'" "cache a' = (cache a)(w \<mapsto> (desc_mod d, desc_block d))"
    "stored a' = stored a" "view a' = (view a)(w \<mapsto> desc_block d)" "read_ref (Cached w) a' = desc_block d"
    "local_writes a' = local_writes a" "next_address a' = next_address a" "allocated_version a' = desc_version d"
    "alloc_result a' = Some w" "currently_active a' = w"
proof -
  define a' where "a' = snd (snd (found_block h w d a))"
  have fb: "found_block h w d a = (Cached w, w, a')"
    by (simp add: a'_def found_block_def reflect_block_use_def Let_def)
  have ca: "cache a' = (cache a)(w \<mapsto> (desc_mod d, desc_block d))"
    by (auto simp: a'_def found_block_def reflect_block_use_def up_use_def Let_def cache_def fun_eq_iff)
  have rows: "stored_rows a' = stored_rows a"
    by (simp add: a'_def found_block_def reflect_block_use_def up_use_def Let_def stored_rows_def)
  have st: "stored a' = stored a" by (simp add: stored_def [abs_def] rows)
  have vw: "view a' = (view a)(w \<mapsto> desc_block d)" by (auto simp: view_def st ca map_add_def fun_eq_iff)
  have "distinct (map fst (allocations a'))"
    using inv by (simp add: a'_def found_block_def reflect_block_use_def up_use_def Let_def distinct_update store_inv_def)
  then have "store_inv a'"
    using inv w clean unfolding store_inv_def ca st rows
    by (auto simp: a'_def found_block_def reflect_block_use_def up_use_def Let_def)
  moreover have "read_ref (Cached w) a' = desc_block d" "local_writes a' = local_writes a" "next_address a' = next_address a"
    "allocated_version a' = desc_version d" "alloc_result a' = Some w" "currently_active a' = w"
    by (simp_all add: a'_def found_block_def reflect_block_use_def up_use_def Let_def read_ref_def)
  ultimately show thesis using that fb ca st vw by blast
qed

lemma view_dom:
  "store_inv a \<Longrightarrow> view a w \<noteq> None \<Longrightarrow> w \<noteq> 0 \<and> w \<le> next_address a"
  unfolding store_inv_def view_def by (auto simp: map_add_def split: option.splits)

lemma store_inv_update [simp]:
  "store_inv (a\<lparr>versions := x1\<rparr>) = store_inv a" "store_inv (a\<lparr>read_block := x2\<rparr>) = store_inv a"
  "store_inv (a\<lparr>currently_active := x3\<rparr>) = store_inv a" "store_inv (a\<lparr>allocated_version := x4\<rparr>) = store_inv a"
  "store_inv (a\<lparr>alloc_changes := x5\<rparr>) = store_inv a" "store_inv (a\<lparr>busy := x6\<rparr>) = store_inv a"
  "store_inv (a\<lparr>transient := x7\<rparr>) = store_inv a" "store_inv (a\<lparr>alloc_version := x8\<rparr>) = store_inv a"
  by (simp_all add: store_inv_def)

lemma create_block_simps [simp]:
  "create_block w v a = (new_descriptor v, a\<lparr>versions := AList.update w v (versions a)\<rparr>)"
  by (simp add: create_block_def)

lemma action_simps [simp]:
  "desc_block (set_storage_action how d) = desc_block d" "desc_version (set_storage_action how d) = desc_version d"
  "desc_mod (set_storage_action how d) = (if desc_mod d = Read then how else desc_mod d)"
  "desc_mod (new_descriptor v) = Read" "desc_block (new_descriptor v) = []" "desc_version (new_descriptor v) = v"
  by (auto simp: set_storage_action_def new_descriptor_def)

text \<open>A block that is there: its content is what the store shows, and the store is unchanged.\<close>

lemma allocate_there:
  assumes inv: "store_inv a" and w: "view a w = Some b" and how: "how \<noteq> Create" and rc: "is_read_cache a \<or> how = Read"
  shows "\<exists>r a'. allocate_existing h w how a = Inr (r, w, a') \<and> r \<noteq> End_block \<and> read_ref r a' = b \<and> store_inv a' \<and>
    view a' = view a \<and> stored a' = stored a \<and> local_writes a' = local_writes a \<and> next_address a \<le> next_address a' \<and>
    (how = Write \<longrightarrow> r = Cached w \<and> (\<exists>m. m \<noteq> Read \<and> cache a' w = Some (m, b)))"
proof (cases "map_of (allocations a) w")
  case (Some d)
  have c: "cache a w = Some (desc_mod d, desc_block d)" using Some by (simp add: cache_def)
  then have b: "desc_block d = b" using w by (simp add: view_def map_add_def)
  have cl: "desc_mod (set_storage_action how d) = Read \<Longrightarrow> stored a w = Some (desc_block (set_storage_action how d))"
    using c inv by (auto simp: store_inv_def split: if_splits)
  have w0: "w \<noteq> 0" "w \<le> next_address a" using view_dom [OF inv, of w] w by auto
  obtain a' where a': "found_block h w (set_storage_action how d) a = (Cached w, w, a')" "store_inv a'"
    "cache a' w = Some (desc_mod (set_storage_action how d), desc_block d)" "stored a' = stored a"
    "view a' = (view a)(w \<mapsto> desc_block d)" "read_ref (Cached w) a' = desc_block d" "local_writes a' = local_writes a"
    "next_address a' = next_address a"
    by (rule found_block_ok [OF inv w0 cl, of h]) simp_all
  have "view a' = view a" using a'(5) w b by auto
  moreover have "allocate_existing h w how a = Inr (Cached w, w, a')" using Some a'(1) by (simp add: allocate_existing_def)
  ultimately show ?thesis using a' b how by auto
next
  case None
  then have c: "cache a w = None" by (simp add: cache_def)
  then have s: "stored a w = Some b" using w by (simp add: view_def map_add_def)
  have w0: "w \<noteq> 0" "w \<le> next_address a" using view_dom [OF inv, of w] w by auto
  obtain a1 where a1: "get_buffer w a = Inr (True, a1)" "store_inv a1" "view a1 = view a" "cache a1 = cache a" "stored a1 = stored a"
    "current_block a1 = b" "local_writes a1 = local_writes a" "allocations a1 = allocations a" "next_address a \<le> next_address a1"
    using get_buffer_ok [OF inv w0(1)] s by auto
  show ?thesis
  proof (cases "is_read_cache a1")
    case True
    define a2 where "a2 = a1\<lparr>versions := AList.update w (current_version a1) (versions a1)\<rparr>"
    define d where "d = set_storage_action how ((new_descriptor (current_version a1))\<lparr>desc_block := b\<rparr>)"
    have a2: "store_inv a2" "stored a2 w = Some (desc_block d)" "w \<le> next_address a2"
      using a1 s w0 by (simp_all add: a2_def d_def)
    obtain a' where a': "found_block h w d a2 = (Cached w, w, a')" "store_inv a'"
      "cache a' w = Some (desc_mod d, desc_block d)" "stored a' = stored a2"
      "view a' = (view a2)(w \<mapsto> desc_block d)" "read_ref (Cached w) a' = desc_block d" "local_writes a' = local_writes a2"
      "next_address a' = next_address a2"
      by (rule found_block_ok [OF a2(1) w0(1) a2(3) a2(2), of h]) simp_all
    have "view a' = view a" using a'(5) w a1(3) by (auto simp: a2_def d_def)
    moreover have "allocate_existing h w how a = Inr (Cached w, w, a')"
      using None how True a1 a'(1) by (simp add: allocate_existing_def a2_def d_def Let_def)
    moreover have "desc_block d = b" "how = Write \<longrightarrow> desc_mod d \<noteq> Read" by (simp_all add: d_def new_descriptor_def)
    ultimately show ?thesis using a' a1 by (auto simp: a2_def)
  next
    case False
    then have r: "how = Read" using rc get_buffer_read_cache [of w a] a1(1) by auto
    show ?thesis using None r False a1
      by (auto simp: allocate_existing_def version_off_def read_ref_def Let_def)
  qed
qed

lemma allocate_absent:
  assumes inv: "store_inv a" and w: "view a w = None" "w \<noteq> 0" and how: "how \<noteq> Create"
  shows "\<exists>a'. allocate_existing h w how a = Inr (End_block, w, a') \<and> store_inv a' \<and> view a' = view a \<and>
    stored a' = stored a \<and> local_writes a' = local_writes a \<and> next_address a \<le> next_address a'"
proof -
  have c: "cache a w = None" "stored a w = None" using w by (auto simp: view_def map_add_def split: option.splits)
  then have "map_of (allocations a) w = None" by (simp add: cache_def)
  then show ?thesis using get_buffer_ok [OF inv w(2)] c how by (auto simp: allocate_existing_def)
qed

lemma allocate_create_at:
  assumes inv: "store_inv a" and w: "w \<noteq> 0"
  shows "\<exists>a' b m. allocate_existing h w Create a = Inr (Cached w, w, a') \<and> store_inv a' \<and> stored a' = stored a \<and>
    m \<noteq> Read \<and> cache a' w = Some (m, b) \<and> view a' = (view a)(w \<mapsto> b) \<and> local_writes a' = local_writes a \<and>
    next_address a' = max w (next_address a) \<and> (cache a w = None \<longrightarrow> allocated_version a' = alloc_version a) \<and>
    (\<forall>d. map_of (allocations a) w = Some d \<longrightarrow> allocated_version a' = desc_version d) \<and>
    alloc_result a' = Some w \<and> currently_active a' = w"
proof (cases "map_of (allocations a) w")
  case (Some d)
  then have c: "cache a w = Some (desc_mod d, desc_block d)" by (simp add: cache_def)
  then have le: "w \<le> next_address a" using inv by (auto simp: store_inv_def)
  define d' where "d' = set_storage_action Create d"
  have d': "desc_mod d' \<noteq> Read" "desc_block d' = desc_block d" "desc_version d' = desc_version d" by (simp_all add: d'_def)
  obtain a' where a': "found_block h w d' a = (Cached w, w, a')" "store_inv a'"
    "cache a' w = Some (desc_mod d', desc_block d)" "stored a' = stored a"
    "view a' = (view a)(w \<mapsto> desc_block d)" "local_writes a' = local_writes a"
    "next_address a' = next_address a" "allocated_version a' = desc_version d" "alloc_result a' = Some w" "currently_active a' = w"
    by (rule found_block_ok [OF inv w le, of d' h]) (simp_all add: d')
  moreover have "allocate_existing h w Create a = Inr (Cached w, w, a')" using Some a'(1) by (simp add: allocate_existing_def d'_def)
  ultimately show ?thesis using Some c le d'(1)
    by (intro exI [of _ a'] exI [of _ "desc_block d"] exI [of _ "desc_mod d'"]) simp
next
  case None
  define a1 where "a1 = a\<lparr>versions := AList.update w (alloc_version a) (versions a), next_address := max w (next_address a)\<rparr>"
  have inv1: "store_inv a1" using inv w unfolding store_inv_def by (auto simp: a1_def)
  define d where "d = set_storage_action Create (new_descriptor (alloc_version a))"
  have d: "desc_mod d = Create" "desc_block d = []" "desc_version d = alloc_version a" by (simp_all add: d_def)
  obtain a' where a': "found_block h w d a1 = (Cached w, w, a')" "store_inv a'"
    "cache a' w = Some (Create, [])" "stored a' = stored a1" "view a' = (view a1)(w \<mapsto> [])" "local_writes a' = local_writes a1"
    "next_address a' = next_address a1" "allocated_version a' = alloc_version a" "alloc_result a' = Some w" "currently_active a' = w"
    by (rule found_block_ok [OF inv1 w, of d h]) (simp_all add: a1_def d)
  moreover have "allocate_existing h w Create a = Inr (Cached w, w, a')"
    using None a'(1) by (simp add: allocate_existing_def a1_def d_def Let_def)
  ultimately show ?thesis using None
    by (intro exI [of _ a'] exI [of _ "[]"] exI [of _ Create]) (simp add: a1_def)
qed

text \<open>The three actions on a well formed store.\<close>

lemma allocate_start:
  fixes how h
  assumes "store_inv a" "local_writes a"
  defines "b \<equiv> start_allocate how (check_use h a)"
  shows "store_inv b" "view b = view a" "local_writes b" "kept a b"
proof -
  have s: "same_store (check_use h a) b" unfolding b_def by (rule start_allocate_same)
  show "kept a b" using kept_check_use [of a h] by (simp add: b_def start_allocate_def kept_def)
  show "store_inv b" "view b = view a" "local_writes b"
    using check_use_ok [OF assms(1,2), of h] s by (simp_all add: same_store_inv same_store_view) (simp add: same_store_def)
qed

lemma allocate_read_ok:
  assumes inv: "store_inv a" "local_writes a" and w: "w \<noteq> 0"
  shows "\<exists>r a'. allocate h w Read a = Inr (r, w, a') \<and> store_inv a' \<and> view a' = view a \<and> local_writes a' \<and>
    (r = End_block \<longleftrightarrow> view a w = None) \<and> (\<forall>b. view a w = Some b \<longrightarrow> read_ref r a' = b)"
proof -
  define c where "c = start_allocate Read (check_use h a)"
  note c = allocate_start [OF inv, of Read h, folded c_def]
  have eq: "allocate h w Read a = allocate_existing h w Read c" using w by (simp add: allocate_def allocate_raw_def c_def Let_def)
  show ?thesis
  proof (cases "view a w")
    case None
    then show ?thesis using allocate_absent [OF c(1), of w Read h] c w by (auto simp: eq)
  next
    case (Some b)
    then show ?thesis using allocate_there [OF c(1), of w b Read h] c by (auto simp: eq)
  qed
qed

lemma allocate_write_ok:
  assumes inv: "store_inv a" "local_writes a" "is_read_cache a" and w: "w \<noteq> 0"
  shows "\<exists>r a'. allocate h w Write a = Inr (r, w, a') \<and> store_inv a' \<and> view a' = view a \<and> local_writes a' \<and>
    (case view a w of None \<Rightarrow> r = End_block
     | Some b \<Rightarrow> r = Cached w \<and> (\<exists>m. m \<noteq> Read \<and> cache a' w = Some (m, b)))"
proof -
  define c where "c = start_allocate Write (check_use h a)"
  note c = allocate_start [OF inv(1,2), of Write h, folded c_def]
  have rc: "is_read_cache c" using inv(3) c(4) by (simp add: kept_def)
  have eq: "allocate h w Write a = allocate_existing h w Write c" using w by (simp add: allocate_def allocate_raw_def c_def Let_def)
  show ?thesis
  proof (cases "view a w")
    case None
    then show ?thesis using allocate_absent [OF c(1), of w Write h] c w by (auto simp: eq)
  next
    case (Some b)
    then show ?thesis using allocate_there [OF c(1), of w b Write h] c rc by (auto simp: eq)
  qed
qed

lemma allocate_new_ok:
  assumes inv: "store_inv a" "local_writes a"
  shows "\<exists>w a'. allocate h 0 Create a = Inr (Cached w, w, a') \<and> store_inv a' \<and> local_writes a' \<and>
    view a w = None \<and> next_address a < w \<and> next_address a' = w \<and> view a' = (view a)(w \<mapsto> []) \<and> cache a' w = Some (Create, [])"
proof -
  define c where "c = start_allocate Create (check_use h a)"
  note c = allocate_start [OF inv, of Create h, folded c_def]
  define w where "w = Suc (next_address c)"
  define c1 where "c1 = c\<lparr>next_address := w, versions := AList.update w (alloc_version c) (versions c)\<rparr>"
  define d where "d = set_storage_action Create (new_descriptor (alloc_version c))"
  have inv1: "store_inv c1" using c(1) unfolding store_inv_def by (auto simp: c1_def w_def)
  obtain a' where a': "found_block h w d c1 = (Cached w, w, a')" "store_inv a'" "view a' = (view c1)(w \<mapsto> [])"
    "cache a' w = Some (Create, [])" "local_writes a' = local_writes c1" "next_address a' = next_address c1"
    by (rule found_block_ok [OF inv1, of w d h]) (simp_all add: c1_def w_def d_def)
  have "allocate h 0 Create a = Inr (Cached w, w, a')"
    using a'(1) by (simp add: allocate_def allocate_raw_def c_def [symmetric] w_def [symmetric] Let_def c1_def d_def)
  moreover have "view a w = None" using view_dom [OF c(1), of w] c(2) by (cases "view a w") (auto simp: w_def)
  moreover have "next_address a < w"
    using c(4) by (simp add: w_def kept_def)
  ultimately show ?thesis using a' c by (auto simp: c1_def)
qed

end
