(* ===== verification/BlockVersions.thy ===== *)
theory BlockVersions
  imports BlockAlloc
begin

text \<open>
  Every block carries the version of the store it was created in.  The operations of a store bring no
  versions in except its own and those they are given.
\<close>

section \<open>The versions of a store\<close>

definition within :: "(version \<Rightarrow> bool) \<Rightarrow> sqlite_allocator \<Rightarrow> bool" where
  "within P a \<longleftrightarrow> (\<forall>(w, d) \<in> set (allocations a). P (desc_version d)) \<and>
     (\<forall>(w, v, b) \<in> set (the_rows (session a)). P v) \<and> (\<forall>(w, v, b) \<in> set (the_rows (file_rows a)). P v)"

lemma set_AList_update: "set (AList.update k v al) \<subseteq> insert (k, v) (set al)"
  by (induction al) auto

lemma set_AList_delete: "set (AList.delete k al) \<subseteq> set al"
  by (induction al) auto

lemma within_update [simp]:
  "within P (a\<lparr>versions := x1\<rparr>) = within P a" "within P (a\<lparr>alloc_result := x2\<rparr>) = within P a"
  "within P (a\<lparr>alloc_use := x3\<rparr>) = within P a" "within P (a\<lparr>transacted := x4\<rparr>) = within P a"
  "within P (a\<lparr>alloc_changes := x5\<rparr>) = within P a" "within P (a\<lparr>busy := x6\<rparr>) = within P a"
  "within P (a\<lparr>allocated_version := x7\<rparr>) = within P a" "within P (a\<lparr>currently_active := x8\<rparr>) = within P a"
  "within P (a\<lparr>alloc_clock := x9\<rparr>) = within P a" "within P (a\<lparr>next_address := x10\<rparr>) = within P a"
  "within P (a\<lparr>transient := x11\<rparr>) = within P a" "within P (a\<lparr>references := x12\<rparr>) = within P a"
  "within P (a\<lparr>alloc_version := x13\<rparr>) = within P a"
  by (simp_all add: within_def)

lemma within_allocations:
  assumes "within P a" "set al \<subseteq> insert (w, d) (set (allocations a))" "P (desc_version d)"
  shows "within P (a\<lparr>allocations := al\<rparr>)"
  using assms unfolding within_def by auto

lemma within_put: "within P a \<Longrightarrow> P (desc_version d) \<Longrightarrow> within P (a\<lparr>allocations := AList.update w d (allocations a)\<rparr>)"
  by (rule within_allocations [OF _ set_AList_update])

lemma within_lookup: "within P a \<Longrightarrow> map_of (allocations a) w = Some d \<Longrightarrow> P (desc_version d)"
  by (auto simp: within_def dest!: map_of_SomeD)

lemma within_delete: "within P a \<Longrightarrow> within P (a\<lparr>allocations := AList.delete w (allocations a)\<rparr>)"
  using set_AList_delete [of w "allocations a"] by (auto simp: within_def)

lemma within_reflect: "within P a \<Longrightarrow> within P (reflect_at h w a)"
proof (cases "map_of (allocations a) w")
  case (Some d)
  assume P: "within P a"
  define d' where "d' = d\<lparr>desc_use := get_block_use h d\<rparr>"
  have "P (desc_version d')" using within_lookup [OF P Some] by (simp add: d'_def)
  from within_put [OF P this, of w] show ?thesis
    using Some by (simp add: reflect_at_def reflect_block_use_def up_use_def d'_def)
qed (simp add: reflect_at_def)

lemma within_fold_reflect: "within P a \<Longrightarrow> within P (fold (reflect_at h) ws a)"
  by (induction ws arbitrary: a) (simp_all add: within_reflect)

lemma within_drop: "within P a \<Longrightarrow> within P (drop_block h w d a)"
  using within_delete [of P a w] by (simp add: drop_block_def down_use_def)

lemma within_session: "within P a \<Longrightarrow> within P (get_session a)"
  by (cases "session a") (auto simp: within_def get_session_def the_rows_def Let_def split: option.splits)

lemma within_begin: "within P a \<Longrightarrow> within P (begin_transaction a)"
  by (simp add: begin_transaction_def within_session)

lemma within_add_buffer:
  assumes "within P a" "P v" shows "within P (add_buffer w v b a)"
proof -
  define r where "r = map_option (AList.update w (v, b)) (session a)"
  have "\<forall>(w, v, b) \<in> set (the_rows r). P v"
  proof (cases "session a")
    case (Some s)
    then have "\<forall>(w, v, b) \<in> set s. P v" using assms(1) by (simp add: within_def)
    then show ?thesis using assms(2) Some set_AList_update [of w "(v, b)" s] by (auto simp: r_def)
  qed (simp add: r_def)
  then show ?thesis using assms(1) by (auto simp: add_buffer_def insert_row_def within_def Let_def r_def)
qed

lemma flush_select_subset: "set (fst (flush_select h f before rel all bs a)) \<subseteq> set bs"
  by (induction h f before rel all bs a rule: flush_select.induct) (auto split: prod.splits)

lemma within_flush_select: "within P a \<Longrightarrow> within P (snd (flush_select h f before rel all bs a))"
  by (induction h f before rel all bs a rule: flush_select.induct)
     (auto simp: within_drop within_reflect split_beta)

lemma within_flush_block:
  assumes "within P a" "P (desc_version d)" shows "within P (flush_block h rel w d a)"
proof -
  define a1 where "a1 = (if local_writes a then
      (let a' = add_buffer w (desc_version d) (desc_block d) (a\<lparr>versions := AList.update w (desc_version d) (versions a)\<rparr>)
       in a'\<lparr>allocations := AList.update w (set_written d) (allocations a')\<rparr>) else a)"
  have "P (desc_version (set_written d))" using assms(2) by (simp add: set_written_def)
  then have "within P a1" using assms unfolding a1_def Let_def by (simp only: split: if_split)
    (auto intro!: within_add_buffer within_put simp del: add_buffer_simps)
  moreover have "flush_block h rel w d a = (if rel then drop_block h w d (reflect_at h w a1) else reflect_at h w a1)"
    by (simp only: flush_block_def Let_def a1_def)
  ultimately show ?thesis by (simp add: within_drop within_reflect)
qed

lemma within_flush_write:
  "within P a \<Longrightarrow> \<forall>(w, d) \<in> set bs. P (desc_version d) \<Longrightarrow> within P (flush_write h f before rel bs a)"
  by (induction h f before rel bs a rule: flush_write.induct) (auto simp: Let_def intro: within_flush_block)

lemma within_flush_back:
  assumes P: "within P a" shows "within P (flush_back h f rel all a)"
proof -
  define a1 where "a1 = fold (reflect_at h) (map fst (allocations a)) (a\<lparr>alloc_result := None\<rparr>)"
  define bs where "bs = sort_key (\<lambda>b. desc_clock (snd b)) (allocations a1)"
  obtain ws a2 where sel: "flush_select h f (alloc_use a) rel all bs a1 = (ws, a2)" by force
  have a1: "within P a1" using P by (simp add: a1_def within_fold_reflect)
  then have "\<forall>(w, d) \<in> set bs. P (desc_version d)" by (simp add: bs_def within_def)
  moreover have "set ws \<subseteq> set bs" using flush_select_subset [of h f "alloc_use a" rel all bs a1] sel by simp
  ultimately have ws: "\<forall>(w, d) \<in> set (sort_key fst ws). P (desc_version d)" unfolding set_sort by blast
  have a2: "within P a2" using within_flush_select [OF a1, of h f "alloc_use a" rel all bs] sel by simp
  have a3: "within P (flush_write h f (alloc_use a) rel (sort_key fst ws) (begin_transaction a2))"
    using a2 ws by (simp add: within_flush_write within_begin)
  have "flush_back h f rel all a = (if ws = [] \<and> \<not> above_limit f (alloc_use a) a2 then a2
      else let a4 = get_session (flush_write h f (alloc_use a) rel (sort_key fst ws) (begin_transaction a2)) in
        if all then a4\<lparr>alloc_changes := 0\<rparr> else a4)"
    by (simp add: flush_back_def Let_def a1_def [symmetric] bs_def [symmetric] sel)
  then show ?thesis using a2 within_session [OF a3] by (simp add: Let_def)
qed

lemma within_check_use: "within P a \<Longrightarrow> within P (check_use h a)"
  by (simp add: check_use_def within_flush_back within_session)

lemma within_commit: "within P a \<Longrightarrow> within P (commit h a)"
  using within_flush_back [of P a h "(8, 10)" False False]
  by (auto simp: commit_def commit_storage_def within_def)

lemma within_get_buffer: "get_buffer w a = Inr (f, a') \<Longrightarrow> within P a \<Longrightarrow> within P a'"
  using within_session [of P a]
  by (auto simp: get_buffer_def within_def Let_def split: if_splits option.splits)

lemma within_found: "within P a \<Longrightarrow> P (desc_version d) \<Longrightarrow> within P (snd (snd (found_block h w d a)))"
proof -
  assume P: "within P a" "P (desc_version d)"
  define d' where "d' = d\<lparr>desc_use := get_block_use h d, desc_clock := alloc_clock a + 1\<rparr>"
  have "P (desc_version d')" using P(2) by (simp add: d'_def)
  from within_put [OF P(1) this, of w] show ?thesis
    by (simp add: found_block_def reflect_block_use_def up_use_def Let_def d'_def within_def)
qed

text \<open>A block that is found in the table has the version of its row.\<close>

lemma loaded_version:
  assumes inv: "store_inv a" and w: "w \<noteq> 0" "get_buffer w a = Inr (True, a')" and P: "within P a"
  shows "P (current_version a')"
proof -
  have new: "\<not> is_new a" using w(1,2) by (auto simp: get_buffer_def split: if_splits)
  obtain v b where "map_of (stored_rows a) w = Some (v, b)"
    using get_buffer_ok [OF inv w(1)] w(2) by (auto simp: stored_def)
  then have r: "map_of (the_rows (session (get_session a))) w = Some (v, b)"
    using get_session_ok(3,5) [OF inv] by (simp add: stored_rows_def)
  then have "P v" using within_session [OF P] by (auto simp: within_def dest!: map_of_SomeD)
  moreover have "current_version a' = v" using w new r by (auto simp: get_buffer_def Let_def)
  ultimately show ?thesis by simp
qed

lemma within_existing:
  assumes inv: "store_inv a" and w: "w \<noteq> 0" and P: "within P a" "how = Create \<Longrightarrow> P (alloc_version a)"
    and r: "allocate_existing h w how a = Inr (r, w', a')"
  shows "within P a'"
proof -
  have f: "within P a'" if "found_block h w d b = (r, w', a')" "within P b" "P (desc_version d)" for d b
    using within_found [OF that(2,3), of h w] that(1) by simp
  show ?thesis
  proof (cases "map_of (allocations a) w")
    case (Some d)
    then show ?thesis using r f [of "set_storage_action how d" a] P(1) within_lookup [OF P(1) Some] by (simp add: allocate_existing_def)
  next
    case None
    show ?thesis
    proof (cases "how = Create")
      case True
      then show ?thesis
        using r None f [of "set_storage_action how (new_descriptor (alloc_version a))"
            "a\<lparr>versions := AList.update w (alloc_version a) (versions a), next_address := max w (next_address a)\<rparr>"] P
        by (simp add: allocate_existing_def Let_def)
    next
      case False
      then obtain l a1 where a1: "get_buffer w a = Inr (l, a1)" using r None by (auto simp: allocate_existing_def bindE_Inr_iff)
      note P1 = within_get_buffer [OF a1 P(1)]
      show ?thesis
      proof (cases l)
        case True
        then have cv: "P (current_version a1)" using loaded_version [OF inv w _ P(1)] a1 by simp
        have u: "within P (b\<lparr>read_block := x, currently_active := y\<rparr>) = within P b" "within P (snd (version_off w b)) = within P b" for b x y
          by (simp_all add: within_def version_off_def)
        show ?thesis
        proof (cases "is_read_cache a1")
          case rc: True
          show ?thesis
            using r None False True a1 rc P1 cv
              f [of "set_storage_action how ((new_descriptor (current_version a1))\<lparr>desc_block := current_block a1\<rparr>)"
                "a1\<lparr>versions := AList.update w (current_version a1) (versions a1)\<rparr>"]
            by (simp add: allocate_existing_def Let_def)
        next
          case rc: False
          obtain v c where c: "version_off w (a1\<lparr>read_block := current_block a1, currently_active := w\<rparr>) = (v, c)" by force
          then have "within P c" using u P1 by (metis snd_conv)
          moreover have "a' = c\<lparr>allocated_version := v\<rparr>"
            using r None False True a1 rc c by (simp add: allocate_existing_def Let_def)
          ultimately show ?thesis by simp
        qed
      next
        case l: False
        then show ?thesis using r None False a1 P1 by (simp add: allocate_existing_def)
      qed
    qed
  qed
qed

lemma within_allocate:
  assumes inv: "store_inv a" "local_writes a" and P: "within P a" "how = Create \<Longrightarrow> P (alloc_version a)"
    and r: "allocate h w how a = Inr (r, w', a')"
  shows "within P a'"
proof -
  define b where "b = start_allocate how (check_use h a)"
  note b = allocate_start [OF inv, of how h, folded b_def]
  have Pb: "within P b" "how = Create \<Longrightarrow> P (alloc_version b)"
    using within_check_use [OF P(1), of h] P(2) b(4) by (simp_all add: b_def start_allocate_def within_def kept_def)
  show ?thesis
  proof (cases "w = 0")
    case False
    then show ?thesis using within_existing [OF b(1) False Pb(1), of how h] Pb(2) r
      by (simp add: allocate_def allocate_raw_def b_def [symmetric] Let_def)
  next
    case True
    define c where "c = b\<lparr>next_address := Suc (next_address b), versions := AList.update (Suc (next_address b)) (alloc_version b) (versions b)\<rparr>"
    define d where "d = set_storage_action Create (new_descriptor (alloc_version b))"
    have e: "found_block h (Suc (next_address b)) d c = (r, w', a')" "how = Create"
      using r True by (simp_all add: allocate_def allocate_raw_def b_def [symmetric] Let_def c_def d_def split: if_splits)
    have "within P c" "P (desc_version d)" using Pb e(2) by (simp_all add: c_def d_def)
    from within_found [OF this, of h "Suc (next_address b)"] show ?thesis using e(1) by simp
  qed
qed

lemma within_complete: "within P a \<Longrightarrow> within P (complete h a)"
  by (auto simp: complete_def within_reflect Let_def split: option.splits)

lemma within_write: "within P a \<Longrightarrow> within P (write_ref r b a)"
proof (cases r)
  case (Cached w)
  assume P: "within P a"
  show ?thesis
  proof (cases "map_of (allocations a) w")
    case (Some d)
    have "P (desc_version (d\<lparr>desc_block := b\<rparr>))" using within_lookup [OF P Some] by simp
    from within_put [OF P this, of w] show ?thesis using Some Cached by (simp add: write_ref_def)
  qed (simp add: write_ref_def Cached P)
qed (simp_all add: write_ref_def within_def)

lemma within_assign: "within P a \<Longrightarrow> P v \<Longrightarrow> within P (assign_version v a)"
proof (cases "alloc_result a")
  case (Some w)
  assume P: "within P a" "P v"
  show ?thesis
  proof (cases "map_of (allocations a) w")
    case s: (Some d)
    have "P (desc_version (d\<lparr>desc_version := v\<rparr>))" using P(2) by simp
    from within_put [OF P(1) this, of w] show ?thesis using s Some P(1) by (simp add: assign_version_def within_def)
  qed (simp add: assign_version_def Some P)
qed (simp add: assign_version_def)

end
