(* ===== verification/BlockMove.thy ===== *)
theory BlockMove
  imports BlockVersions
begin

text \<open>Writing through a reference, merging one store into another, and giving up a transaction.\<close>

section \<open>Writing\<close>

lemma write_ref_ok:
  assumes inv: "store_inv a" and c: "cache a w = Some (m, b0)" and m: "m \<noteq> Read"
  shows "store_inv (write_ref (Cached w) b a)" "view (write_ref (Cached w) b a) = (view a)(w \<mapsto> b)"
    "cache (write_ref (Cached w) b a) = (cache a)(w \<mapsto> (m, b))"
    "stored (write_ref (Cached w) b a) = stored a"
proof -
  obtain d where d: "map_of (allocations a) w = Some d" "desc_mod d = m" using c by (auto simp: cache_def)
  have eq: "write_ref (Cached w) b a = a\<lparr>allocations := AList.update w (d\<lparr>desc_block := b\<rparr>) (allocations a)\<rparr>"
    using d by (simp add: write_ref_def)
  show ca: "cache (write_ref (Cached w) b a) = (cache a)(w \<mapsto> (m, b))"
    using d by (auto simp: eq cache_def fun_eq_iff)
  have rows: "stored_rows (write_ref (Cached w) b a) = stored_rows a" by (simp add: eq stored_rows_def)
  show st: "stored (write_ref (Cached w) b a) = stored a" by (simp add: stored_def [abs_def] rows)
  show "view (write_ref (Cached w) b a) = (view a)(w \<mapsto> b)" by (auto simp: view_def st ca map_add_def fun_eq_iff)
  have "w \<in> dom (cache a)" using c by auto
  then show "store_inv (write_ref (Cached w) b a)"
    using inv m unfolding store_inv_def ca st rows by (auto simp: eq distinct_update)
qed

lemma complete_same: "same_store a (complete h a)"
proof -
  have s: "same_store a (a\<lparr>allocated_version := 0\<rparr>)" "same_store b (b\<lparr>busy := False\<rparr>)" for b
    by (simp_all add: same_store_def)
  show ?thesis
    using s same_store_trans [OF s(1) same_store_trans [OF reflect_at_same s(2)]] same_store_trans [OF s(1) s(2)]
    by (auto simp: complete_def Let_def split: option.splits)
qed

lemma complete_ok:
  assumes "store_inv a"
  shows "store_inv (complete h a)" "view (complete h a) = view a" "cache (complete h a) = cache a"
    "stored (complete h a) = stored a" "local_writes (complete h a) = local_writes a"
    "next_address (complete h a) = next_address a"
  using complete_same [of a h] assms by (simp_all add: same_store_inv same_store_view same_store_stored) (simp_all add: same_store_def)

lemma assign_version_same: "same_store a (assign_version v a)"
proof (cases "alloc_result a")
  case (Some w)
  show ?thesis
  proof (cases "map_of (allocations a) w")
    case s: (Some d)
    then have "w \<in> fst ` set (allocations a)" by (metis domI dom_map_of_conv_image_fst)
    then show ?thesis using s Some
      by (auto simp: same_store_def assign_version_def cache_def stored_rows_def keys_update fun_eq_iff)
  qed (use Some in \<open>simp add: same_store_def assign_version_def cache_def [abs_def] stored_rows_def\<close>)
qed (simp add: assign_version_def)

section \<open>Versions of the cached blocks\<close>

definition all_versions :: "(address \<Rightarrow> version \<Rightarrow> bool) \<Rightarrow> sqlite_allocator \<Rightarrow> bool" where
  "all_versions P a \<longleftrightarrow> (\<forall>w d. map_of (allocations a) w = Some d \<longrightarrow> P w (desc_version d))"

lemma all_versions_update [simp]:
  "all_versions P (a\<lparr>versions := x1\<rparr>) = all_versions P a" "all_versions P (a\<lparr>alloc_result := x2\<rparr>) = all_versions P a"
  "all_versions P (a\<lparr>alloc_use := x3\<rparr>) = all_versions P a" "all_versions P (a\<lparr>transacted := x4\<rparr>) = all_versions P a"
  "all_versions P (a\<lparr>alloc_changes := x5\<rparr>) = all_versions P a" "all_versions P (get_session a) = all_versions P a"
  "all_versions P (add_buffer w v b a) = all_versions P a"
  by (simp_all add: all_versions_def)

lemma all_versions_reflect [simp]: "all_versions P (reflect_at h w a) = all_versions P a"
  by (auto simp: all_versions_def reflect_at_def reflect_block_use_def up_use_def Let_def split: option.splits)

lemma all_versions_fold_reflect [simp]: "all_versions P (fold (reflect_at h) ws a) = all_versions P a"
  by (induction ws arbitrary: a) simp_all

lemma all_versions_drop: "all_versions P a \<Longrightarrow> all_versions P (drop_block h w d a)"
  by (auto simp: all_versions_def split: if_splits)

lemma all_versions_begin [simp]: "all_versions P (begin_transaction a) = all_versions P a"
  by (simp add: begin_transaction_def)

lemma all_versions_flush_select:
  "all_versions P a \<Longrightarrow> all_versions P (snd (flush_select h f before rel all bs a))"
  by (induction h f before rel all bs a rule: flush_select.induct)
     (auto simp: all_versions_drop split_beta)

lemma all_versions_flush_block:
  assumes "all_versions P a" "P w (desc_version d)"
  shows "all_versions P (flush_block h rel w d a)"
proof -
  define a1 where "a1 = (if local_writes a then
      (let a' = add_buffer w (desc_version d) (desc_block d) (a\<lparr>versions := AList.update w (desc_version d) (versions a)\<rparr>)
       in a'\<lparr>allocations := AList.update w (set_written d) (allocations a')\<rparr>) else a)"
  have "all_versions P a1" using assms by (auto simp: a1_def Let_def all_versions_def set_written_def)
  moreover have "flush_block h rel w d a = (if rel then drop_block h w d (reflect_at h w a1) else reflect_at h w a1)"
    by (simp only: flush_block_def Let_def a1_def)
  ultimately show ?thesis by (simp add: all_versions_drop)
qed

lemma all_versions_flush_write:
  "all_versions P a \<Longrightarrow> \<forall>(w, d) \<in> set bs. P w (desc_version d) \<Longrightarrow> all_versions P (flush_write h f before rel bs a)"
  by (induction h f before rel bs a rule: flush_write.induct) (auto simp: Let_def intro: all_versions_flush_block)

lemma all_versions_flush_back:
  assumes inv: "distinct (map fst (allocations a))" and P: "all_versions P a"
  shows "all_versions P (flush_back h f rel all a)"
proof -
  define a1 where "a1 = fold (reflect_at h) (map fst (allocations a)) (a\<lparr>alloc_result := None\<rparr>)"
  define bs where "bs = sort_key (\<lambda>b. desc_clock (snd b)) (allocations a1)"
  obtain ws a2 where sel: "flush_select h f (alloc_use a) rel all bs a1 = (ws, a2)" by force
  have a1: "all_versions P a1" using P by (simp add: a1_def)
  have "same_store (a\<lparr>alloc_result := None\<rparr>) a1" unfolding a1_def by (rule fold_reflect_same)
  then have "distinct (map fst (allocations a1))" using inv by (simp add: same_store_def)
  then have "map_of (allocations a1) w = Some d" if "(w, d) \<in> set bs" for w d
    using that by (simp add: bs_def)
  then have "\<forall>(w, d) \<in> set bs. P w (desc_version d)" using a1 unfolding all_versions_def by blast
  moreover have "set ws \<subseteq> set bs" using flush_select_subset [of h f "alloc_use a" rel all bs a1] sel by simp
  ultimately have ws: "\<forall>(w, d) \<in> set (sort_key fst ws). P w (desc_version d)" unfolding set_sort by blast
  have a2: "all_versions P a2" using all_versions_flush_select [OF a1, of h f "alloc_use a" rel all bs] sel by simp
  have a3: "all_versions P (flush_write h f (alloc_use a) rel (sort_key fst ws) (begin_transaction a2))"
    using a2 ws by (simp add: all_versions_flush_write)
  have "flush_back h f rel all a = (if ws = [] \<and> \<not> above_limit f (alloc_use a) a2 then a2
      else let a4 = get_session (flush_write h f (alloc_use a) rel (sort_key fst ws) (begin_transaction a2)) in
        if all then a4\<lparr>alloc_changes := 0\<rparr> else a4)"
    by (simp add: flush_back_def Let_def a1_def [symmetric] bs_def [symmetric] sel)
  then show ?thesis using a2 a3 by (simp add: Let_def)
qed

lemma all_versions_check_use:
  "distinct (map fst (allocations a)) \<Longrightarrow> all_versions P a \<Longrightarrow> all_versions P (check_use h a)"
  by (simp add: check_use_def all_versions_flush_back)

lemma found_block_versions:
  assumes "all_versions P a" "P w (desc_version d)"
  shows "all_versions P (snd (snd (found_block h w d a)))" "kept a (snd (snd (found_block h w d a)))"
    "allocated_version (snd (snd (found_block h w d a))) = desc_version d"
  using assms
  by (auto simp: found_block_def reflect_block_use_def up_use_def Let_def all_versions_def kept_def)

lemma create_versions:
  assumes P: "all_versions P a" "P w (alloc_version a)" and r: "allocate_existing h w Create a = Inr (r, w', a')"
  shows "all_versions P a'" "kept a a'" "P w (allocated_version a')"
proof -
  define d c where "d = (case map_of (allocations a) w of Some d \<Rightarrow> d | None \<Rightarrow> new_descriptor (alloc_version a))"
    and "c = (if map_of (allocations a) w = None then
      a\<lparr>versions := AList.update w (alloc_version a) (versions a), next_address := max w (next_address a)\<rparr> else a)"
  have eq: "(r, w', a') = found_block h w (set_storage_action Create d) c"
    using r by (auto simp: allocate_existing_def d_def c_def Let_def split: option.splits)
  then have a': "a' = snd (snd (found_block h w (set_storage_action Create d) c))" by (metis snd_conv)
  have c: "all_versions P c" "kept a c" using P by (simp_all add: c_def all_versions_def kept_def)
  have d: "P w (desc_version (set_storage_action Create d))"
    using P by (auto simp: d_def all_versions_def split: option.splits)
  note f = found_block_versions [OF c(1) d, of h, folded a']
  show "all_versions P a'" "P w (allocated_version a')" using f d by simp_all
  show "kept a a'" by (rule kept_trans [OF c(2) f(2)])
qed

text \<open>Creating a block at an address, whether or not there is one.\<close>

lemma allocate_create_ok:
  assumes inv: "store_inv a" "local_writes a" and w: "w \<noteq> 0" and P: "all_versions P a" "P w (alloc_version a)"
  shows "\<exists>a' b m. allocate h w Create a = Inr (Cached w, w, a') \<and> store_inv a' \<and> local_writes a' \<and>
    m \<noteq> Read \<and> cache a' w = Some (m, b) \<and> view a' = (view a)(w \<mapsto> b) \<and> all_versions P a' \<and> kept a a' \<and>
    P w (allocated_version a') \<and> alloc_result a' = Some w \<and> currently_active a' = w"
proof -
  define c where "c = start_allocate Create (check_use h a)"
  note c = allocate_start [OF inv, of Create h, folded c_def]
  have "all_versions P (check_use h a)"
    using inv(1) P(1) by (simp add: all_versions_check_use store_inv_def)
  then have Pc: "all_versions P c" "P w (alloc_version c)"
    using P(2) c(4) by (simp_all add: c_def start_allocate_def all_versions_def kept_def)
  have eq: "allocate h w Create a = allocate_existing h w Create c"
    using w by (simp add: allocate_def allocate_raw_def c_def Let_def)
  obtain a' b m where a': "allocate_existing h w Create c = Inr (Cached w, w, a')" "store_inv a'" "m \<noteq> Read"
    "cache a' w = Some (m, b)" "view a' = (view c)(w \<mapsto> b)" "local_writes a' = local_writes c"
    "alloc_result a' = Some w" "currently_active a' = w"
    using allocate_create_at [OF c(1) w, of h] by blast
  note v = create_versions [OF Pc a'(1)]
  show ?thesis
    using a' c v kept_trans [OF c(4) v(2)] by (intro exI [of _ a'] exI [of _ b] exI [of _ m]) (simp add: eq)
qed

section \<open>Moving\<close>

text \<open>What \<^verbatim>\<open>move\<close> does at the destination: the block at the address and its version are replaced.\<close>

definition put_version :: "host \<Rightarrow> address \<Rightarrow> version \<Rightarrow> buffer \<Rightarrow> sqlite_allocator \<Rightarrow> sqlite_allocator" where
  "put_version h w v b a = complete h (assign_version v (write_ref (Cached w) b a))"

lemma all_versions_write [simp]: "all_versions P (write_ref r b a) = all_versions P a"
  by (auto simp: all_versions_def write_ref_def split: block_ref.splits option.splits)

lemma kept_complete: "kept a (complete h a)"
  by (rule kept.core_ok [OF core_complete])

lemma all_versions_complete [simp]: "all_versions P (complete h a) = all_versions P a"
proof -
  have u: "all_versions P (b\<lparr>allocated_version := 0\<rparr>) = all_versions P b" "all_versions P (b\<lparr>busy := False\<rparr>) = all_versions P b" for b
    by (simp_all add: all_versions_def)
  show ?thesis by (simp add: complete_def Let_def u split: option.splits)
qed

lemma put_version_ok:
  assumes inv: "store_inv a" and c: "cache a w = Some (m, b0)" "m \<noteq> Read" and P: "all_versions P a" "P w v"
    and r: "alloc_result a = Some w"
  shows "store_inv (put_version h w v b a)" "view (put_version h w v b a) = (view a)(w \<mapsto> b)"
    "local_writes (put_version h w v b a) = local_writes a" "all_versions P (put_version h w v b a)"
    "kept a (put_version h w v b a)"
proof -
  define a1 where "a1 = write_ref (Cached w) b a"
  define a2 where "a2 = assign_version v a1"
  note wr = write_ref_ok [OF inv c, of b, folded a1_def]
  have s: "same_store a1 a2" unfolding a2_def by (rule assign_version_same)
  have a2: "store_inv a2" "view a2 = (view a)(w \<mapsto> b)" using wr s by (simp_all add: same_store_inv same_store_view)
  have eq: "put_version h w v b a = complete h a2" by (simp add: put_version_def a2_def a1_def)
  show "store_inv (put_version h w v b a)" "view (put_version h w v b a) = (view a)(w \<mapsto> b)"
    using complete_ok [OF a2(1), of h] a2(2) by (simp_all add: eq)
  have l: "local_writes a1 = local_writes a" "alloc_result a1 = Some w" "kept a a1"
    using r by (auto simp: a1_def write_ref_def kept_def split: option.splits)
  have P1: "all_versions P a1" using P(1) by (simp add: a1_def)
  show "local_writes (put_version h w v b a) = local_writes a"
    using complete_ok(5) [OF a2(1), of h] s l(1) by (simp add: eq same_store_def)
  have "kept a1 a2" "all_versions P a2"
    using l P1 P(2) by (auto simp: a2_def assign_version_def kept_def all_versions_def split: option.splits)
  moreover note kept_complete [of a2 h] all_versions_complete [of P h a2]
  ultimately show "all_versions P (put_version h w v b a)" "kept a (put_version h w v b a)"
    using kept_trans [OF l(3)] kept_trans unfolding eq by blast+
qed

text \<open>What it does at the source: the block is forgotten.\<close>

definition forgets :: "address \<Rightarrow> sqlite_allocator \<Rightarrow> sqlite_allocator \<Rightarrow> bool" where
  "forgets w a a' \<longleftrightarrow> store_inv a' \<and> stored_rows a' = stored_rows a \<and> is_read_cache a' = is_read_cache a \<and>
     map_of (allocations a') = (map_of (allocations a))(w := None) \<and> (opened a \<longrightarrow> opened a')"

lemma recycle_forgets:
  assumes inv: "store_inv a"
    and b: "stored_rows b = stored_rows a" "is_read_cache b = is_read_cache a" "next_address b = next_address a"
      "is_new b = is_new a" "session b = session a" "file_rows b = file_rows a" "transacted b = transacted a"
      "current_address b = current_address a" "encoded_block b = encoded_block a" "distinct (map fst (allocations b))"
    and al: "\<And>x. x \<noteq> w \<Longrightarrow> map_of (allocations b) x = map_of (allocations a) x"
  shows "forgets w a (recycle_block h w (b\<lparr>versions := v\<rparr>))"
proof -
  define c where "c = recycle_block h w (b\<lparr>versions := v\<rparr>)"
  have c: "allocations c = AList.delete w (allocations b)" "stored_rows c = stored_rows a" "is_read_cache c = is_read_cache a"
    "next_address c = next_address a" "is_new c = is_new a" "session c = session a" "file_rows c = file_rows a"
    "transacted c = transacted a" "current_address c = current_address a" "encoded_block c = encoded_block a"
    using b by (auto simp: c_def recycle_block_def reflect_block_use_def up_use_def down_use_def Let_def stored_rows_def
        delete_idem map_of_eq_None_iff split: option.splits)
  have m: "map_of (allocations c) = (map_of (allocations a))(w := None)" using al by (auto simp: c(1))
  have ca: "cache c = (cache a)(w := None)" by (simp add: cache_def m fun_eq_iff)
  have st: "stored c = stored a" by (simp add: stored_def [abs_def] c(2))
  have "store_inv c"
    using inv b(10) unfolding store_inv_def ca st c by (auto simp: distinct_delete split: if_splits)
  then show ?thesis using m c by (simp add: forgets_def opened_def c_def)
qed

lemma write_recycle_forgets:
  assumes inv: "store_inv a"
  shows "forgets w a (recycle_block h w ((write_ref (Cached w) x a)\<lparr>versions := v\<rparr>))"
    "alloc_result a = Some w \<Longrightarrow> forgets w a (recycle_block h w ((complete h (write_ref (Cached w) x a))\<lparr>versions := v\<rparr>))"
proof -
  define b where "b = write_ref (Cached w) x a"
  have b: "stored_rows b = stored_rows a" "is_read_cache b = is_read_cache a" "next_address b = next_address a"
      "is_new b = is_new a" "session b = session a" "file_rows b = file_rows a" "transacted b = transacted a"
      "current_address b = current_address a" "encoded_block b = encoded_block a" "distinct (map fst (allocations b))"
      "alloc_result b = alloc_result a"
    using inv by (auto simp: b_def write_ref_def stored_rows_def distinct_update store_inv_def split: option.splits)
  have al: "map_of (allocations b) y = map_of (allocations a) y" if "y \<noteq> w" for y
    using that by (auto simp: b_def write_ref_def split: option.splits)
  show "forgets w a (recycle_block h w ((write_ref (Cached w) x a)\<lparr>versions := v\<rparr>))"
    unfolding b_def [symmetric] by (rule recycle_forgets [OF inv b(1-10) al])
  assume r: "alloc_result a = Some w"
  have s: "same_store b (complete h b)" by (rule complete_same)
  have al': "map_of (allocations (complete h b)) y = map_of (allocations a) y" if "y \<noteq> w" for y
    using that al b(11) r by (auto simp: complete_def reflect_at_def reflect_block_use_def up_use_def Let_def split: option.splits)
  have rc: "is_read_cache (complete h b) = is_read_cache a" using kept_complete [of b h] b(2) by (simp add: kept_def)
  show "forgets w a (recycle_block h w ((complete h (write_ref (Cached w) x a))\<lparr>versions := v\<rparr>))"
    unfolding b_def [symmetric] by (rule recycle_forgets [OF inv _ rc _ _ _ _ _ _ _ _ al']) (use s b in \<open>simp_all add: same_store_def\<close>)
qed

text \<open>Reading a row of the table into the cache.\<close>

lemma read_row:
  assumes inv: "store_inv a" and rc: "is_read_cache a" and w: "map_of (allocations a) w = None"
    "map_of (stored_rows a) w = Some (v, b)"
  shows "\<exists>a'. allocate_raw h w Read a = Inr (Cached w, w, a') \<and> allocated_version a' = v \<and> read_ref (Cached w) a' = b \<and>
    store_inv a' \<and> is_read_cache a' \<and> alloc_result a' = Some w \<and> stored_rows a' = stored_rows a \<and>
    opened a' \<and> (\<forall>x. x \<noteq> w \<longrightarrow> map_of (allocations a') x = map_of (allocations a) x)"
proof -
  define a0 where "a0 = start_allocate Read a"
  have s: "same_store a a0" unfolding a0_def by (rule start_allocate_same)
  have a0: "store_inv a0" "stored_rows a0 = stored_rows a" "allocations a0 = allocations a" "is_read_cache a0"
    using s inv rc by (simp_all add: same_store_inv) (simp_all add: same_store_def a0_def start_allocate_def)
  note g = get_session_ok [OF a0(1)]
  have st: "stored a0 w = Some b" using w(2) a0(2) by (simp add: stored_def)
  then have w0: "w \<noteq> 0" "w \<le> next_address a0" using a0(1) by (auto simp: store_inv_def)
  have new: "\<not> is_new a0" using a0(2) w(2) by (auto simp: stored_rows_def split: if_splits)
  have rows: "map_of (the_rows (session (get_session a0))) w = Some (v, b)"
    using g(3,5) w(2) a0(2) by (simp add: stored_rows_def)
  define a1 where "a1 = (get_session a0)\<lparr>current_block := b, current_version := v, current_address := w, encoded_block := b\<rparr>"
  have get: "get_buffer w a0 = Inr (True, a1)"
    using new w0 rows by (simp add: get_buffer_def a1_def Let_def)
  obtain a1' where g': "get_buffer w a0 = Inr (True, a1')" "store_inv a1'" "stored a1' = stored a0" "next_address a0 \<le> next_address a1'"
    using get_buffer_ok [OF a0(1) w0(1)] st by auto
  have e: "a1' = a1" using g'(1) get by simp
  have a1: "store_inv a1" "stored a1 w = Some b" "w \<le> next_address a1" using g' st w0 by (simp_all add: e)
  have f1: "allocations a1 = allocations a" "is_read_cache a1" "current_version a1 = v" "current_block a1 = b"
    using a0 kept_session [of a0] by (simp_all add: a1_def kept_def)
  have r1: "stored_rows a1 = stored_rows a" using g(3) a0(2) by (simp add: a1_def)
  define a2 where "a2 = a1\<lparr>versions := AList.update w v (versions a1)\<rparr>"
  define d where "d = set_storage_action Read ((new_descriptor v)\<lparr>desc_block := b\<rparr>)"
  define a' where "a' = snd (snd (found_block h w d a2))"
  have a2: "store_inv a2" "stored a2 w = Some (desc_block d)" "w \<le> next_address a2" using a1 by (simp_all add: a2_def d_def)
  have f: "found_block h w d a2 = (Cached w, w, a') \<and> store_inv a' \<and> read_ref (Cached w) a' = b \<and> allocated_version a' = v \<and>
      alloc_result a' = Some w"
    unfolding a'_def by (rule found_block_ok [OF a2(1) w0(1) a2(3) a2(2), of h]) (simp_all add: d_def new_descriptor_def set_storage_action_def)
  have "allocate_raw h w Read a = Inr (Cached w, w, a')"
    using w0 w(1) a0 get f1 f unfolding allocate_raw_def a0_def [symmetric]
    by (simp add: allocate_existing_def a2_def d_def Let_def)
  moreover have "opened a'"
    by (simp add: a'_def found_block_def reflect_block_use_def up_use_def Let_def a2_def a1_def opened_def)
  moreover have "is_read_cache a'" "stored_rows a' = stored_rows a" "\<forall>x. x \<noteq> w \<longrightarrow> map_of (allocations a') x = map_of (allocations a) x"
    using f1 r1 by (simp_all add: a'_def found_block_def reflect_block_use_def up_use_def Let_def a2_def)
  ultimately show ?thesis using f by blast
qed

definition movable :: "version \<Rightarrow> sqlite_allocator \<Rightarrow> address \<times> block_descriptor option \<Rightarrow> bool" where
  "movable V a e \<longleftrightarrow> snd e = map_of (allocations a) (fst e) \<and>
     (case snd e of Some d \<Rightarrow> V < desc_version d
      | None \<Rightarrow> \<exists>v b. map_of (stored_rows a) (fst e) = Some (v, b) \<and> V < v)"

lemma movable_forget: "forgets w a a' \<Longrightarrow> fst e \<noteq> w \<Longrightarrow> movable V a e \<Longrightarrow> movable V a' e"
  by (auto simp: movable_def forgets_def split: option.splits)

lemma view_forget: "forgets w a a' \<Longrightarrow> x \<noteq> w \<Longrightarrow> view a' x = view a x"
  by (simp add: forgets_def view_def stored_def cache_def map_add_def cong: option.case_cong)

definition dest_ok :: "version \<Rightarrow> address set \<Rightarrow> sqlite_allocator \<Rightarrow> bool" where
  "dest_ok V ks a \<longleftrightarrow> store_inv a \<and> local_writes a \<and> alloc_version a \<le> V \<and> all_versions (\<lambda>x v. x \<in> ks \<longrightarrow> v \<le> V) a"

lemma dest_ok_mono: "dest_ok V ks a \<Longrightarrow> ks' \<subseteq> ks \<Longrightarrow> dest_ok V ks' a"
  by (auto simp: dest_ok_def all_versions_def)

lemma dest_check_use:
  assumes "dest_ok V ks a" shows "dest_ok V ks (check_use h a)" "view (check_use h a) = view a"
proof -
  have "distinct (map fst (allocations a))" using assms by (simp add: dest_ok_def store_inv_def)
  then show "dest_ok V ks (check_use h a)" "view (check_use h a) = view a"
    using assms check_use_ok [of a h] kept_check_use [of a h]
    by (simp_all add: dest_ok_def all_versions_check_use kept_def)
qed

text \<open>Creating the block at the destination and filling it.\<close>

lemma dest_put:
  assumes a: "dest_ok V ks a" and w: "w \<noteq> 0" "w \<in> ks"
  obtains a1 where "allocate h w Create a = Inr (Cached w, w, a1)" "allocated_version a1 \<le> V"
    "dest_ok V (ks - {w}) (put_version h w v b a1)" "view (put_version h w v b a1) = (view a)(w \<mapsto> b)"
    "kept a (put_version h w v b a1)"
    "\<forall>P. within P a \<longrightarrow> P (alloc_version a) \<longrightarrow> P v \<longrightarrow> within P (put_version h w v b a1)"
proof -
  let ?P = "\<lambda>x v. x \<in> ks \<longrightarrow> v \<le> V" and ?Q = "\<lambda>x v. x \<in> ks - {w} \<longrightarrow> v \<le> V"
  obtain a1 b1 m where a1: "allocate h w Create a = Inr (Cached w, w, a1)" "store_inv a1" "local_writes a1" "m \<noteq> Read"
    "cache a1 w = Some (m, b1)" "view a1 = (view a)(w \<mapsto> b1)" "all_versions ?P a1" "kept a a1" "?P w (allocated_version a1)"
    "alloc_result a1 = Some w"
    using allocate_create_ok [of a w ?P h] a w unfolding dest_ok_def by blast
  have Q: "all_versions ?Q a1" using a1(7) by (auto simp: all_versions_def)
  have "?Q w v" by simp
  note p = put_version_ok [OF a1(2,5,4) Q this a1(10), of h b]
  have k: "kept a (put_version h w v b a1)" by (rule kept_trans [OF a1(8) p(5)])
  have inv: "store_inv a" "local_writes a" using a by (simp_all add: dest_ok_def)
  have wi: "within P (put_version h w v b a1)" if "within P a" "P (alloc_version a)" "P v" for P
    unfolding put_version_def
    by (rule within_complete [OF within_assign [OF within_write [OF within_allocate [OF inv that(1,2) a1(1)]] that(3)]])
  from k have "alloc_version (put_version h w v b a1) \<le> V" using a by (simp add: dest_ok_def kept_def)
  then have d: "dest_ok V (ks - {w}) (put_version h w v b a1)" unfolding dest_ok_def using p a1(3) by blast
  have vw: "view (put_version h w v b a1) = (view a)(w \<mapsto> b)" using a1(6) p(2) by simp
  have le: "allocated_version a1 \<le> V" using a1(9) w(2) by simp
  show thesis by (rule that [OF a1(1) le d vw k]) (intro allI impI wi)
qed

definition carries :: "(version \<Rightarrow> bool) \<Rightarrow> sqlite_allocator \<Rightarrow> bool" where
  "carries P a \<longleftrightarrow> (\<forall>w d. map_of (allocations a) w = Some d \<longrightarrow> P (desc_version d)) \<and>
     (\<forall>w v b. map_of (stored_rows a) w = Some (v, b) \<longrightarrow> P v)"

lemma carries_forget: "forgets w a a' \<Longrightarrow> carries P a \<Longrightarrow> carries P a'"
  by (auto simp: carries_def forgets_def split: if_splits)

lemma within_carries: "within P a \<Longrightarrow> carries P a"
  by (auto simp: carries_def within_def stored_rows_def dest!: map_of_SomeD split: if_splits)

lemma move_block_ok:
  assumes src: "store_inv src" "is_read_cache src" "movable V src (w, e)" and dest: "dest_ok V ks dest" "w \<in> ks"
  shows "\<exists>src' dest'. move_block h (w, e) (src, dest) = Inr (src', dest') \<and> forgets w src src' \<and>
    dest_ok V (ks - {w}) dest' \<and> view dest' = (view dest)(w := view src w) \<and> kept dest dest' \<and>
    (\<forall>P. carries P src \<longrightarrow> within P dest \<longrightarrow> P (alloc_version dest) \<longrightarrow> within P dest')"
proof -
  define dest1 where "dest1 = check_use h dest"
  note d1 = dest_check_use [OF dest(1), of h, folded dest1_def]
  have k1: "kept dest dest1" "\<And>P. within P dest \<Longrightarrow> within P dest1"
    by (simp_all add: dest1_def kept_check_use within_check_use)
  then have al: "alloc_version dest1 = alloc_version dest" by (simp add: kept_def)
  have vw: "\<exists>b. view src w = Some b" using src(3)
    by (auto simp: movable_def view_def cache_def stored_def map_add_def split: option.splits)
  then have w0: "w \<noteq> 0" using view_dom [OF src(1), of w] by auto
  show ?thesis
  proof (cases e)
    case (Some d)
    then have m: "map_of (allocations src) w = Some d" "V < desc_version d" using src(3) by (auto simp: movable_def)
    then have v: "view src w = Some (desc_block d)" by (simp add: view_def cache_def map_add_def)
    obtain a1 where a1: "allocate h w Create dest1 = Inr (Cached w, w, a1)" "allocated_version a1 \<le> V"
      "dest_ok V (ks - {w}) (put_version h w (desc_version d) (desc_block d) a1)"
      "view (put_version h w (desc_version d) (desc_block d) a1) = (view dest1)(w \<mapsto> desc_block d)"
      "kept dest1 (put_version h w (desc_version d) (desc_block d) a1)"
      "\<forall>P. within P dest1 \<longrightarrow> P (alloc_version dest1) \<longrightarrow> P (desc_version d) \<longrightarrow>
        within P (put_version h w (desc_version d) (desc_block d) a1)"
      by (rule dest_put [OF d1(1) w0 dest(2), of h "desc_version d" "desc_block d"]) (rule that; assumption)
    have wi: "within P (put_version h w (desc_version d) (desc_block d) a1)"
      if "carries P src" "within P dest" "P (alloc_version dest)" for P
      by (rule a1(6) [rule_format, OF k1(2) [OF that(2)]]) (use that(1,3) m(1) al in \<open>auto simp: carries_def\<close>)
    have nle: "\<not> desc_version d \<le> allocated_version a1" using a1(2) m(2) by simp
    define src' where "src' = recycle_block h w ((write_ref (Cached w) (read_ref (Cached w) a1) src)
      \<lparr>versions := AList.delete w (versions (write_ref (Cached w) (read_ref (Cached w) a1) src))\<rparr>)"
    have f: "forgets w src src'" unfolding src'_def by (rule write_recycle_forgets(1) [OF src(1)])
    have eq: "move_block h (w, e) (src, dest) = Inr (src', put_version h w (desc_version d) (desc_block d) a1)"
      using a1(1) nle Some by (simp add: move_block_def dest1_def [symmetric] put_version_def Let_def src'_def)
    have vd: "view (put_version h w (desc_version d) (desc_block d) a1) = (view dest)(w := view src w)"
      using a1(4) d1(2) v by simp
    show ?thesis
      by (rule exI, rule exI, intro conjI, rule eq, rule f, rule a1(3), rule vd, rule kept_trans [OF k1(1) a1(5)])
        (intro allI impI wi)
  next
    case None
    then obtain v b where m: "map_of (allocations src) w = None" "map_of (stored_rows src) w = Some (v, b)" "V < v"
      using src(3) by (auto simp: movable_def)
    then have vb: "view src w = Some b" by (simp add: view_def cache_def stored_def map_add_def)
    obtain s1 where s1: "allocate_raw h w Read src = Inr (Cached w, w, s1)" "allocated_version s1 = v" "read_ref (Cached w) s1 = b"
      "store_inv s1" "is_read_cache s1" "alloc_result s1 = Some w" "stored_rows s1 = stored_rows src" "opened s1"
      "\<forall>x. x \<noteq> w \<longrightarrow> map_of (allocations s1) x = map_of (allocations src) x"
      using read_row [OF src(1,2) m(1,2), of h] by blast
    have f: "forgets w src s2" if "forgets w s1 s2" for s2
    proof -
      have "map_of (allocations s2) = (map_of (allocations src))(w := None)"
        using that s1(9) by (auto simp: forgets_def)
      then show ?thesis using that s1(5,7,8) src(2) by (simp add: forgets_def)
    qed
    obtain a1 where a1: "allocate h w Create dest1 = Inr (Cached w, w, a1)" "allocated_version a1 \<le> V"
      "dest_ok V (ks - {w}) (put_version h w v b a1)" "view (put_version h w v b a1) = (view dest1)(w \<mapsto> b)"
      "kept dest1 (put_version h w v b a1)"
      "\<forall>P. within P dest1 \<longrightarrow> P (alloc_version dest1) \<longrightarrow> P v \<longrightarrow> within P (put_version h w v b a1)"
      by (rule dest_put [OF d1(1) w0 dest(2), of h v b]) (rule that; assumption)
    have wi: "within P (put_version h w v b a1)" if "carries P src" "within P dest" "P (alloc_version dest)" for P
      by (rule a1(6) [rule_format, OF k1(2) [OF that(2)]]) (use that(1,3) m(2) al in \<open>(force simp: carries_def)+\<close>)
    have nle: "\<not> v \<le> allocated_version a1" using a1(2) m(3) by simp
    define src' where "src' = recycle_block h w ((complete h (write_ref (Cached w) (read_ref (Cached w) a1) s1))
      \<lparr>versions := AList.delete w (versions (complete h (write_ref (Cached w) (read_ref (Cached w) a1) s1)))\<rparr>)"
    have fs: "forgets w src src'" unfolding src'_def by (rule f [OF write_recycle_forgets(2) [OF s1(4,6)]])
    have eq: "move_block h (w, e) (src, dest) = Inr (src', put_version h w v b a1)"
      using a1(1) nle None s1(1-3) by (simp add: move_block_def dest1_def [symmetric] put_version_def Let_def src'_def)
    have vd: "view (put_version h w v b a1) = (view dest)(w := view src w)" using a1(4) d1(2) vb by simp
    show ?thesis
      by (rule exI, rule exI, intro conjI, rule eq, rule fs, rule a1(3), rule vd, rule kept_trans [OF k1(1) a1(5)])
        (intro allI impI wi)
  qed
qed

lemma move_blocks_ok:
  assumes "store_inv src" "is_read_cache src" "distinct (map fst es)" "\<And>e. e \<in> set es \<Longrightarrow> movable V src e"
    "dest_ok V (fst ` set es) dest" "opened src"
  shows "\<exists>src' dest'. foldE (move_block h) es (src, dest) = Inr (src', dest') \<and> store_inv src' \<and> opened src' \<and>
    store_inv dest' \<and> local_writes dest' \<and> view dest' = view dest ++ (view src |` (fst ` set es)) \<and> kept dest dest' \<and>
    (\<forall>P. carries P src \<longrightarrow> within P dest \<longrightarrow> P (alloc_version dest) \<longrightarrow> within P dest')"
  using assms
proof (induction es arbitrary: src dest)
  case Nil
  then show ?case by (simp add: dest_ok_def)
next
  case (Cons e es)
  obtain w d where e: "e = (w, d)" by force
  obtain s1 d1 where s1: "move_block h e (src, dest) = Inr (s1, d1)" "forgets w src s1"
    "dest_ok V (fst ` set (e # es) - {w}) d1" "view d1 = (view dest)(w := view src w)" "kept dest d1"
    "\<And>P. carries P src \<Longrightarrow> within P dest \<Longrightarrow> P (alloc_version dest) \<Longrightarrow> within P d1"
    using move_block_ok [of src V w d "fst ` set (e # es)" dest h] Cons.prems e by auto
  have w: "w \<notin> fst ` set es" using Cons.prems(3) e by simp
  have d1: "dest_ok V (fst ` set es) d1" using s1(3) w e by simp
  have mv: "movable V s1 x" if "x \<in> set es" for x
    using movable_forget [OF s1(2), of x V] Cons.prems(4) [of x] that w by force
  obtain s' d' where IH: "foldE (move_block h) es (s1, d1) = Inr (s', d')" "store_inv s'" "opened s'" "store_inv d'" "local_writes d'"
    "view d' = view d1 ++ (view s1 |` (fst ` set es))" "kept d1 d'"
    "\<And>P. carries P s1 \<Longrightarrow> within P d1 \<Longrightarrow> P (alloc_version d1) \<Longrightarrow> within P d'"
    using Cons.IH [of s1 d1] Cons.prems s1(2) d1 mv by (auto simp: forgets_def)
  have "movable V src (w, d)" using Cons.prems(4) [of e] e by simp
  then have "view src w \<noteq> None"
    by (auto simp: movable_def view_def cache_def stored_def map_add_def split: option.splits)
  then have "view d' = view dest ++ (view src |` (fst ` set (e # es)))"
    using w view_forget [OF s1(2)] by (auto simp: IH(6) s1(4) e map_add_def restrict_map_def fun_eq_iff split: option.splits)
  moreover have "kept dest d'" by (rule kept_trans [OF s1(5) IH(7)])
  moreover have "within P d'" if "carries P src" "within P dest" "P (alloc_version dest)" for P
    using IH(8) [OF carries_forget [OF s1(2) that(1)] s1(6) [OF that]] s1(5) that(3) by (simp add: kept_def)
  ultimately show ?case using s1(1) IH(1-5) by simp
qed

lemma fold_update_keys:
  "distinct (map fst base) \<Longrightarrow> distinct (map fst (fold (\<lambda>(w, d). AList.update w (Some d)) al base))"
  by (induction al arbitrary: base) (auto simp: distinct_update)

lemma fold_update_map_of:
  "distinct (map fst al) \<Longrightarrow>
   map_of (fold (\<lambda>(w, d). AList.update w (Some d)) al base) x = (case map_of al x of Some d \<Rightarrow> Some (Some d) | None \<Rightarrow> map_of base x)"
proof (induction al arbitrary: base)
  case (Cons p al)
  obtain w d where p: "p = (w, d)" by force
  have "map_of al w = None" using Cons.prems p by (simp add: map_of_eq_None_iff)
  then show ?case using Cons p by (auto split: option.splits)
qed simp

lemma get_addresses_ok:
  assumes "distinct (map fst (allocations a))" "distinct (map fst (the_rows (session a)))"
  shows "distinct (map fst (get_addresses a))"
    "(w, e) \<in> set (get_addresses a) \<longleftrightarrow>
       (e = map_of (allocations a) w \<and> (e = None \<longrightarrow> w \<in> fst ` set (the_rows (session a))))"
proof -
  have b: "map fst (map (\<lambda>(w, r). (w, None :: block_descriptor option)) (the_rows (session a))) = map fst (the_rows (session a))"
    by (simp add: case_prod_unfold)
  show d: "distinct (map fst (get_addresses a))"
    unfolding get_addresses_def by (rule fold_update_keys) (simp only: b assms)
  have r: "map_of (map (\<lambda>(w, r). (w, None :: block_descriptor option)) rs) w =
      (if w \<in> fst ` set rs then Some None else None)" for rs :: rows
    by (induction rs) auto
  show "(w, e) \<in> set (get_addresses a) \<longleftrightarrow>
       (e = map_of (allocations a) w \<and> (e = None \<longrightarrow> w \<in> fst ` set (the_rows (session a))))"
    unfolding map_of_distinct [OF d] unfolding get_addresses_def fold_update_map_of [OF assms(1)] r
    by (auto split: option.splits)
qed

text \<open>The blocks a store would move: every one, when its versions are above those of the destination.\<close>

definition newer :: "version \<Rightarrow> sqlite_allocator \<Rightarrow> bool" where
  "newer V a \<longleftrightarrow> (\<forall>(w, d) \<in> set (allocations a). V < desc_version d) \<and> (\<forall>(w, v, b) \<in> set (stored_rows a). V < v)"

definition not_newer :: "version \<Rightarrow> sqlite_allocator \<Rightarrow> bool" where
  "not_newer V a \<longleftrightarrow> alloc_version a \<le> V \<and> (\<forall>(w, d) \<in> set (allocations a). desc_version d \<le> V)"

lemma rollback_transient_empty:
  assumes "opened a" "transient a" shows "view (rollback h a) = Map.empty"
proof -
  define b where "b = (if session a \<noteq> None then close_session a else a)"
  have n: "is_new (fold f xs c) = is_new c" if "\<And>x c. is_new (f x c) = is_new c" for f and xs :: "(address \<times> block_descriptor) list" and c
    by (induction xs arbitrary: c) (simp_all add: that)
  have "is_new b" using assms by (auto simp: b_def opened_def close_session_def)
  then have "is_new (free_all h b)"
    unfolding free_all_def by (simp add: n reflect_block_use_def down_use_def up_use_def split_beta Let_def)
  moreover have "allocations (free_all h b) = []" by (simp add: free_all_def)
  moreover have "rollback h a = (free_all h b)\<lparr>versions := [], alloc_changes := 0, transacted := False\<rparr>"
    by (simp add: rollback_def b_def)
  ultimately show ?thesis by (simp add: view_def stored_def stored_rows_def cache_def fun_eq_iff map_add_def)
qed

lemma move_ok:
  assumes src: "store_inv src" "is_read_cache src" "opened src" "newer V src"
    and dest: "store_inv dest" "local_writes dest" "not_newer V dest"
  shows "\<exists>src' dest'. move h src dest = Inr (src', dest') \<and> view src' = Map.empty \<and>
    store_inv dest' \<and> local_writes dest' \<and> view dest' = view dest ++ view src \<and> kept dest dest' \<and>
    (\<forall>P. within P src \<longrightarrow> within P dest \<longrightarrow> P (alloc_version dest) \<longrightarrow> within P dest')"
proof -
  define es where "es = get_addresses src"
  have rows: "the_rows (session src) = stored_rows src"
    using src(1,3) by (auto simp: opened_def stored_rows_def store_inv_def)
  have d: "distinct (map fst (allocations src))" "distinct (map fst (the_rows (session src)))"
    using src(1) rows by (simp_all add: store_inv_def)
  note g = get_addresses_ok [OF d, folded es_def, unfolded rows]
  have mv: "movable V src e" if e: "e \<in> set es" for e
  proof -
    obtain w d where [simp]: "e = (w, d)" by force
    have 1: "d = map_of (allocations src) w" "d = None \<longrightarrow> w \<in> fst ` set (stored_rows src)" using e g(2) [of w d] by auto
    have 2: "V < desc_version x" if "d = Some x" for x
      using that 1(1) src(4) by (auto simp: newer_def dest: map_of_SomeD)
    have 3: "\<exists>v b. map_of (stored_rows src) w = Some (v, b) \<and> V < v" if none: "d = None"
    proof -
      obtain v b where vb: "map_of (stored_rows src) w = Some (v, b)"
        using 1(2) none by (metis domD dom_map_of_conv_image_fst surj_pair)
      then show ?thesis using src(4) by (auto simp: newer_def dest: map_of_SomeD)
    qed
    show ?thesis using 1(1) 2 3 by (simp add: movable_def split: option.splits)
  qed
  have dk: "dest_ok V (fst ` set es) dest"
    using dest by (auto simp: dest_ok_def all_versions_def not_newer_def dest!: map_of_SomeD)
  obtain s1 d1 where m: "foldE (move_block h) es (src, dest) = Inr (s1, d1)" "opened s1" "store_inv d1" "local_writes d1"
    "view d1 = view dest ++ (view src |` (fst ` set es))" "kept dest d1"
    "\<forall>P. carries P src \<longrightarrow> within P dest \<longrightarrow> P (alloc_version dest) \<longrightarrow> within P d1"
    using move_blocks_ok [OF src(1,2) g(1) mv dk src(3), of h] by blast
  have "dom (view src) \<subseteq> fst ` set es"
  proof
    fix w assume "w \<in> dom (view src)"
    then have "map_of (allocations src) w \<noteq> None \<or> w \<in> fst ` set (stored_rows src)"
      by (auto simp: view_def stored_def cache_def map_add_def map_of_eq_None_iff [symmetric] split: option.splits)
    then have "(w, map_of (allocations src) w) \<in> set es" using g(2) by auto
    then show "w \<in> fst ` set es" by force
  qed
  then have "view src |` (fst ` set es) = view src" by (force simp: restrict_map_def fun_eq_iff domIff)
  moreover have "move h src dest = Inr (rollback h (s1\<lparr>alloc_changes := 0, versions := [], transient := True\<rparr>), d1)"
    using m(1) by (simp add: move_def es_def)
  moreover have "view (rollback h (s1\<lparr>alloc_changes := 0, versions := [], transient := True\<rparr>)) = Map.empty"
    by (rule rollback_transient_empty) (use m(2) in \<open>simp_all add: opened_def\<close>)
  ultimately show ?thesis using m within_carries by simp
qed

end
