(* ===== verification/BlockMap.thy ===== *)
theory BlockMap
  imports BlockMove
begin

text \<open>The block store as a client sees it: a map from addresses to blocks, which a commit makes durable.\<close>

section \<open>What the operations leave alone\<close>

lemmas kept_get_buffer = kept.stable_get_buffer and kept_allocate = kept.stable_allocate

section \<open>Sequences of operations\<close>

text \<open>
  What a client of the store does: it reads, updates or creates the block at an address, with
  \<^verbatim>\<open>complete\<close> at the end, asks for one, and begins, commits, flushes, reduces and reads ahead.
\<close>

datatype store_op =
  Get address | Update address buffer | Put address buffer | Contains address
| Begin | Commit | Flush | Reduce | Load_all

datatype store_out = Done | Block "buffer option" | Found bool

fun store_step :: "host \<Rightarrow> store_op \<Rightarrow> sqlite_allocator \<Rightarrow> (store_out \<times> sqlite_allocator) store_result" where
  "store_step h (Get w) a =
     bindE (allocate h w Read a) (\<lambda>(r, w', a1).
       Inr (Block (if is_end r then None else Some (read_ref r a1)), complete h a1))"
| "store_step h (Update w b) a =
     bindE (allocate h w Write a) (\<lambda>(r, w', a1).
       Inr (Found (\<not> is_end r), complete h (write_ref r b a1)))"
| "store_step h (Put w b) a =
     bindE (allocate h w Create a) (\<lambda>(r, w', a1). Inr (Done, complete h (write_ref r b a1)))"
| "store_step h (Contains w) a = bindE (contains h w a) (\<lambda>(f, a1). Inr (Found f, a1))"
| "store_step h Begin a = Inr (Done, begin_store a)"
| "store_step h Commit a = Inr (Done, commit h a)"
| "store_step h Flush a = Inr (Done, flush h a)"
| "store_step h Reduce a = Inr (Done, reduce h a)"
| "store_step h Load_all a = Inr (Done, load_all h a)"

fun map_step :: "store_op \<Rightarrow> (address \<rightharpoonup> buffer) \<Rightarrow> store_out \<times> (address \<rightharpoonup> buffer)" where
  "map_step (Get w) m = (Block (m w), m)"
| "map_step (Update w b) m = (Found (m w \<noteq> None), if m w = None then m else m(w \<mapsto> b))"
| "map_step (Put w b) m = (Done, m(w \<mapsto> b))"
| "map_step (Contains w) m = (Found (m w \<noteq> None), m)"
| "map_step Begin m = (Done, m)"
| "map_step Commit m = (Done, m)"
| "map_step Flush m = (Done, m)"
| "map_step Reduce m = (Done, m)"
| "map_step Load_all m = (Done, m)"

fun valid_op :: "store_op \<Rightarrow> bool" where
  "valid_op (Get w) = (w \<noteq> 0)"
| "valid_op (Update w b) = (w \<noteq> 0)"
| "valid_op (Put w b) = (w \<noteq> 0)"
| "valid_op op = True"

definition usable :: "sqlite_allocator \<Rightarrow> bool" where
  "usable a \<longleftrightarrow> store_inv a \<and> local_writes a \<and> is_read_cache a"

lemma usable_kept: "usable a \<Longrightarrow> kept a a' \<Longrightarrow> store_inv a' \<Longrightarrow> local_writes a' \<Longrightarrow> usable a'"
  by (simp add: usable_def kept_def)

lemma usable_complete: "usable a \<Longrightarrow> usable (complete h a)" "usable a \<Longrightarrow> view (complete h a) = view a"
  using complete_ok [of a h] kept_complete [of a h] by (simp_all add: usable_def kept_def)

lemma get_ok:
  assumes "usable a" "w \<noteq> 0"
  shows "\<exists>a'. store_step h (Get w) a = Inr (Block (view a w), a') \<and> usable a' \<and> view a' = view a"
proof -
  obtain r a1 where a1: "allocate h w Read a = Inr (r, w, a1)" "store_inv a1" "view a1 = view a" "local_writes a1"
    "r = End_block \<longleftrightarrow> view a w = None" "\<forall>b. view a w = Some b \<longrightarrow> read_ref r a1 = b"
    using allocate_read_ok [of a w h] assms by (auto simp: usable_def)
  have u: "usable a1" by (rule usable_kept [OF assms(1) kept_allocate [OF a1(1)] a1(2,4)])
  then show ?thesis using usable_complete [OF u, of h] a1 by (cases "view a w") (auto simp: is_end_def)
qed

lemma write_complete_ok:
  assumes u: "usable a" and c: "cache a w = Some (m, b0)" "m \<noteq> Read"
  shows "usable (complete h (write_ref (Cached w) b a))" "view (complete h (write_ref (Cached w) b a)) = (view a)(w \<mapsto> b)"
proof -
  have inv: "store_inv a" using u by (simp add: usable_def)
  note wr = write_ref_ok [OF inv c, of b]
  have "local_writes (write_ref (Cached w) b a) = local_writes a" "is_read_cache (write_ref (Cached w) b a) = is_read_cache a"
    by (auto simp: write_ref_def split: option.splits)
  then have uw: "usable (write_ref (Cached w) b a)" using u wr(1) by (simp add: usable_def)
  show "usable (complete h (write_ref (Cached w) b a))" "view (complete h (write_ref (Cached w) b a)) = (view a)(w \<mapsto> b)"
    using usable_complete [OF uw, of h] wr(2) by simp_all
qed

lemma update_block_ok:
  assumes "usable a" "w \<noteq> 0"
  shows "\<exists>a'. store_step h (Update w b) a = Inr (Found (view a w \<noteq> None), a') \<and> usable a' \<and>
    view a' = (if view a w = None then view a else (view a)(w \<mapsto> b))"
proof -
  obtain r a1 where a1: "allocate h w Write a = Inr (r, w, a1)" "store_inv a1" "view a1 = view a" "local_writes a1"
    and r: "case view a w of None \<Rightarrow> r = End_block | Some b \<Rightarrow> r = Cached w \<and> (\<exists>m. m \<noteq> Read \<and> cache a1 w = Some (m, b))"
    using allocate_write_ok [of a w h] assms by (auto simp: usable_def)
  have u: "usable a1" by (rule usable_kept [OF assms(1) kept_allocate [OF a1(1)] a1(2,4)])
  show ?thesis
  proof (cases "view a w")
    case None
    then show ?thesis using r usable_complete [OF u, of h] a1 by (simp add: is_end_def write_ref_def)
  next
    case (Some b0)
    then obtain m where "r = Cached w" "m \<noteq> Read" "cache a1 w = Some (m, b0)" using r by auto
    then show ?thesis using write_complete_ok [OF u, of w m b0 h b] a1 Some by (simp add: is_end_def)
  qed
qed

lemma put_ok:
  assumes "usable a" "w \<noteq> 0"
  shows "\<exists>a'. store_step h (Put w b) a = Inr (Done, a') \<and> usable a' \<and> view a' = (view a)(w \<mapsto> b)"
proof -
  obtain a1 b0 m where a1: "allocate h w Create a = Inr (Cached w, w, a1)" "store_inv a1" "local_writes a1"
    "m \<noteq> Read" "cache a1 w = Some (m, b0)" "view a1 = (view a)(w \<mapsto> b0)"
    using allocate_create_ok [of a w "\<lambda>_ _. True" h] assms by (auto simp: usable_def all_versions_def)
  have u: "usable a1" by (rule usable_kept [OF assms(1) kept_allocate [OF a1(1)] a1(2,3)])
  then show ?thesis using write_complete_ok [OF u a1(5,4), of h b] a1(1,6) by simp
qed

lemma contains_ok:
  assumes "usable a"
  shows "\<exists>a'. store_step h (Contains w) a = Inr (Found (view a w \<noteq> None), a') \<and> usable a' \<and> view a' = view a"
proof -
  define c where "c = check_use h a"
  have c: "store_inv c" "view c = view a" "local_writes c" using check_use_ok [of a h] assms by (auto simp: c_def usable_def)
  have u: "usable c" using usable_kept [OF assms kept_check_use [of a h]] c by (simp add: c_def)
  show ?thesis
  proof (cases "w = 0")
    case True
    then have "view a w = None" using view_dom [of a w] assms by (cases "view a w") (auto simp: usable_def)
    then show ?thesis using True u c by (simp add: contains_def c_def [symmetric] Let_def)
  next
    case w: False
    show ?thesis
    proof (cases "map_of (allocations c) w")
      case (Some d)
      then have "view c w \<noteq> None" by (simp add: view_def cache_def map_add_def)
      then show ?thesis using Some w u c by (simp add: contains_def c_def [symmetric] Let_def)
    next
      case None
      then have "stored c w = view c w" by (simp add: view_def cache_def map_add_def)
      moreover obtain a' where a': "get_buffer w c = Inr (stored c w \<noteq> None, a')" "store_inv a'" "view a' = view c" "local_writes a'"
        using get_buffer_ok [OF c(1) w] c(3) by auto
      moreover have "usable a'" by (rule usable_kept [OF u kept_get_buffer [OF a'(1)] a'(2,4)])
      ultimately show ?thesis using None w c by (simp add: contains_def c_def [symmetric] Let_def)
    qed
  qed
qed

lemma kept_commit: "kept a (commit h a)"
  using kept_flush_back [of a h "(8, 10)" False False]
  by (auto simp: commit_def commit_storage_def kept_def)

lemma transactions_ok:
  assumes u: "usable a"
  shows "usable (begin_store a)" "view (begin_store a) = view a" "usable (commit h a)" "view (commit h a) = view a"
    "usable (flush h a)" "view (flush h a) = view a" "usable (reduce h a)" "view (reduce h a) = view a"
proof -
  have a: "store_inv a" "local_writes a" using u by (simp_all add: usable_def)
  have b: "store_inv (begin_store a)" "view (begin_store a) = view a" "local_writes (begin_store a)" "kept a (begin_store a)"
    using begin_transaction_ok [OF a(1)] kept_begin [of a] a by (simp_all add: begin_store_def)
  show "usable (begin_store a)" "view (begin_store a) = view a" using b usable_kept [OF u] by blast+
  have c: "store_inv (commit h a)" "view (commit h a) = view a" "local_writes (commit h a)"
    using commit_ok [OF a, of h] a by (cases "transacted a"; simp add: commit_def commit_storage_def store_inv_def)+
  show "usable (commit h a)" "view (commit h a) = view a" using c usable_kept [OF u kept_commit] by blast+
  have g: "usable (get_session b)" "view (get_session b) = view b" if "usable b" for b
    using get_session_ok [of b] that usable_kept [OF that kept_session] by (auto simp: usable_def)
  have f: "usable (flush_back h x rel all a)" "view (flush_back h x rel all a) = view a" for x rel all
    by (simp_all add: flush_back_ok [OF a] usable_kept [OF u kept_flush_back])
  show "usable (flush h a)" "view (flush h a) = view a" "usable (reduce h a)" "view (reduce h a) = view a"
    using u g f by (auto simp: flush_def reduce_def reduce_perm_def)
qed

text \<open>Reading ahead puts the row of an address into the cache, unless there is a block already.\<close>

lemma inject_ok:
  assumes u: "usable a" and w: "stored a w = Some b"
  shows "usable (snd (inject h w b a))" "view (snd (inject h w b a)) = view a" "stored (snd (inject h w b a)) = stored a"
proof -
  define a' where "a' = snd (inject h w b a)"
  have "usable a' \<and> view a' = view a \<and> stored a' = stored a"
  proof (cases "map_of (allocations a) w")
    case (Some d)
    then show ?thesis using u by (simp add: a'_def inject_def)
  next
    case None
    have st: "stored_rows a' = stored_rows a" "stored a' = stored a"
      using None by (simp_all add: a'_def inject_def reflect_block_use_def version_off_def up_use_def Let_def)
    have ca: "cache a' = (cache a)(w \<mapsto> (Read, b))"
      using None by (auto simp: a'_def inject_def reflect_block_use_def version_off_def up_use_def Let_def cache_def
          set_storage_action_def new_descriptor_def fun_eq_iff)
    have "view a' w = view a w" using None w by (simp add: view_def st ca map_add_def) (simp add: cache_def)
    then have vw: "view a' = view a" by (auto simp: view_def st ca map_add_def fun_eq_iff split: if_splits)
    have f: "session a' = session a" "file_rows a' = file_rows a" "is_new a' = is_new a" "transacted a' = transacted a"
      "current_address a' = current_address a" "encoded_block a' = encoded_block a" "next_address a' = next_address a"
      "local_writes a' = local_writes a" "is_read_cache a' = is_read_cache a" "map fst (allocations a') = map fst (allocations a) @ [w]"
      using None by (auto simp: a'_def inject_def reflect_block_use_def version_off_def up_use_def Let_def keys_update map_of_eq_None_iff)
    have "w \<notin> fst ` set (allocations a)" using None by (simp add: map_of_eq_None_iff)
    then have "store_inv a'" using u w unfolding usable_def store_inv_def st ca f by (auto split: if_splits)
    then show ?thesis using u st vw f by (simp add: usable_def)
  qed
  then show "usable (snd (inject h w b a))" "view (snd (inject h w b a)) = view a" "stored (snd (inject h w b a)) = stored a"
    by (simp_all add: a'_def)
qed

lemma injects_ok:
  "usable a \<Longrightarrow> \<forall>(w, v, b) \<in> set rs. stored a w = Some b \<Longrightarrow>
   usable (fold (\<lambda>(w, v, b) a. snd (inject h w b a)) rs a) \<and> view (fold (\<lambda>(w, v, b) a. snd (inject h w b a)) rs a) = view a"
proof (induction rs arbitrary: a)
  case (Cons r rs)
  obtain w v b where r: "r = (w, v, b)" by (cases r)
  note i = inject_ok [OF Cons.prems(1), of w b h]
  show ?case using Cons.IH [of "snd (inject h w b a)"] i Cons.prems(2) by (auto simp: r)
qed simp

lemma load_all_ok:
  assumes u: "usable a" shows "usable (load_all h a)" "view (load_all h a) = view a"
proof -
  define a1 where "a1 = get_session a"
  define rs where "rs = take (next_address a) (filter (\<lambda>(w, v, b). 0 \<le> w) (sort_key fst (the_rows (session a1))))"
  have inv: "store_inv a" using u by (simp add: usable_def)
  note g = get_session_ok [OF inv, folded a1_def]
  have u1: "usable a1" unfolding a1_def by (rule usable_kept [OF u kept_session]) (use g u in \<open>simp_all add: a1_def usable_def\<close>)
  have rows: "the_rows (session a1) = stored_rows a1" using g(5) by (simp add: a1_def stored_rows_def)
  have d: "distinct (map fst (stored_rows a1))" using g(1) by (simp add: store_inv_def)
  have "\<forall>(w, v, b) \<in> set rs. stored a1 w = Some b"
    using d unfolding rs_def rows stored_def by (auto dest!: in_set_takeD map_of_is_SomeI [OF d])
  note i = injects_ok [OF u1 this, of h]
  have "load_all h a = (if \<not> is_all_loaded a \<and> may_read_ahead h
      then (fold (\<lambda>(w, v, b) a. snd (inject h w b a)) rs a1)\<lparr>is_all_loaded := True\<rparr> else a)"
    by (simp only: load_all_def read_ahead_def rs_def a1_def Let_def)
  moreover have "usable (b\<lparr>is_all_loaded := True\<rparr>) = usable b" "view (b\<lparr>is_all_loaded := True\<rparr>) = view b" for b
    by (simp_all add: usable_def store_inv_def view_def stored_def [abs_def] stored_rows_def cache_def [abs_def])
  ultimately show "usable (load_all h a)" "view (load_all h a) = view a" using i u g(2) by simp_all
qed

interpretation blocks: simulation usable view valid_op "store_step h" map_step for h
proof
  fix op a assume u: "usable a" and v: "valid_op op"
  show "\<exists>r a'. store_step h op a = Inr (r, a') \<and> usable a' \<and> map_step op (view a) = (r, view a')"
  proof (cases op)
    case (Get w) then show ?thesis using get_ok [OF u, of w h] v by auto
  next
    case (Update w b) then show ?thesis using update_block_ok [OF u, of w h b] v by auto
  next
    case (Put w b) then show ?thesis using put_ok [OF u, of w h b] v by auto
  next
    case (Contains w) then show ?thesis using contains_ok [OF u, of h w] by auto
  qed (simp_all add: transactions_ok [OF u] load_all_ok [OF u])
qed

section \<open>Properties\<close>

text \<open>An empty store in memory and a host with room, for the examples.\<close>

definition roomy :: host where
  "roomy = \<lparr>capacity = length, near_depleted = False, may_read_ahead = True\<rparr>"

definition tight :: host where
  "tight = \<lparr>capacity = length, near_depleted = True, may_read_ahead = False\<rparr>"

lemma usable_new: "usable (new_allocator t None)"
proof -
  have e: "cache (new_allocator t None) = Map.empty" "stored_rows (new_allocator t None) = []"
    by (simp_all add: new_allocator_def cache_def [abs_def] stored_rows_def)
  then have "stored (new_allocator t None) = Map.empty" by (simp add: stored_def [abs_def])
  with e show ?thesis unfolding usable_def store_inv_def by (simp add: new_allocator_def)
qed

text \<open>
  C24.  The block store is a map from addresses to blocks.  Any sequence of reads, updates, creations and
  membership tests at non-null addresses, interleaved with the beginning, committing, flushing and
  reducing of transactions and with reading ahead, completes without an exception and returns what the same sequence returns
  on the map, whatever the cache evicts on the way; afterwards the store shows the map the sequence leads to.
\<close>

theorem store_refines_map:
  assumes "usable a" "list_all valid_op ops"
  shows "\<exists>outs a'. runE (store_step h) ops a = Inr (outs, a') \<and> usable a' \<and>
    run_spec map_step ops (view a) = (outs, view a')"
  by (rule blocks.run_refines [OF assms])

theorem store_refines_map_witness:
  "\<exists>outs a'. runE (store_step tight) [Put 40 [1], Commit, Put 41 [2], Load_all, Get 40] (new_allocator False None) = Inr (outs, a') \<and>
    usable a' \<and> run_spec map_step [Put 40 [1], Commit, Put 41 [2], Load_all, Get 40] (view (new_allocator False None)) = (outs, view a')"
  by (rule store_refines_map [OF usable_new]) simp

lemma commit_reopens:
  assumes "usable a" "transacted a"
  shows "view (new_allocator False (file_rows (commit h a))) = view a"
    "usable (new_allocator False (file_rows (commit h a)))" "view (commit h a) = view a" "usable (commit h a)"
    "\<not> transacted (commit h a)"
proof -
  have a: "store_inv a" "local_writes a" using assms(1) by (simp_all add: usable_def)
  note c = commit_ok [OF a assms(2), of h]
  obtain r where r: "file_rows (commit h a) = Some r" "distinct (map fst r)" "(\<lambda>w. map_option snd (map_of r w)) = view a"
    using c(5) by blast
  have "view a 0 = None" using view_dom [OF a(1), of 0] by (cases "view a 0") auto
  then have "map_of r 0 = None" using r(3) by (metis map_option_is_None)
  then have z: "0 \<notin> fst ` set r" by (simp add: map_of_eq_None_iff)
  have "is_read_cache (new_allocator False (Some r))" by (simp add: new_allocator_def get_session_def Let_def)
  then show "view (new_allocator False (file_rows (commit h a))) = view a"
    "usable (new_allocator False (file_rows (commit h a)))" "view (commit h a) = view a" "usable (commit h a)"
    "\<not> transacted (commit h a)"
    using new_allocator_ok [OF r(2) z] c usable_kept [OF assms(1) kept_commit] r by (simp_all add: usable_def)
qed

text \<open>
  C31.  A commit is durable.  In a transaction it leaves a file whose rows, opened again by a new store,
  show exactly the blocks the store showed before the commit, cached, modified or stored; the store
  itself shows the same blocks and is out of the transaction.
\<close>

theorem commit_reopen:
  assumes "usable a" "transacted a"
  shows "view (new_allocator False (file_rows (commit h a))) = view a \<and>
    usable (new_allocator False (file_rows (commit h a))) \<and>
    view (commit h a) = view a \<and> usable (commit h a) \<and> \<not> transacted (commit h a)"
  using commit_reopens [OF assms] by simp

definition demo_store :: sqlite_allocator where
  "demo_store = (case store_step roomy (Put 40 [1, 2]) (begin_new (new_allocator False None)) of
     Inl e \<Rightarrow> new_allocator False None | Inr (r, a) \<Rightarrow> a)"

lemma usable_begin_new: "usable a \<Longrightarrow> usable (begin_new a)" "usable a \<Longrightarrow> view (begin_new a) = view a"
  using begin_transaction_ok [of a] usable_kept [OF _ kept_begin] by (auto simp: begin_new_def usable_def)

lemma demo_store_ok: "usable demo_store" "view demo_store = [40 \<mapsto> [1, 2]]"
proof -
  have v: "view (new_allocator False None) = Map.empty"
    by (simp add: new_allocator_def view_def stored_def stored_rows_def cache_def fun_eq_iff map_add_def)
  show "usable demo_store" "view demo_store = [40 \<mapsto> [1, 2]]"
    using put_ok [OF usable_begin_new(1) [OF usable_new [of False]], of 40 roomy "[1, 2]"] usable_begin_new(2) [OF usable_new, of False] v
    by (auto simp: demo_store_def)
qed

lemma demo_store_transacted: "transacted demo_store"
  by code_simp

theorem commit_reopen_witness:
  "view (new_allocator False (file_rows (commit tight demo_store))) = [40 \<mapsto> [1, 2]] \<and>
    usable (new_allocator False (file_rows (commit tight demo_store))) \<and>
    view (commit tight demo_store) = [40 \<mapsto> [1, 2]] \<and> usable (commit tight demo_store) \<and> \<not> transacted (commit tight demo_store)"
  using commit_reopen [OF demo_store_ok(1) demo_store_transacted, of tight] unfolding demo_store_ok(2) .



text \<open>
  C37.  The exceptions of allocation: on a well formed store it throws exactly when the null address is
  given for an action other than creation, and then \<^verbatim>\<open>InvalidStorageAction\<close>.
\<close>

theorem allocate_error_iff:
  assumes "usable a"
  shows "allocate h w how a = Inl e \<longleftrightarrow> w = 0 \<and> how \<noteq> Create \<and> e = Invalid_storage_action"
proof (cases "w = 0")
  case True
  show ?thesis
  proof (cases "how = Create")
    case c: True
    then show ?thesis using True allocate_new_ok [of a h] assms by (auto simp: usable_def)
  next
    case False
    then show ?thesis using True by (auto simp: allocate_def allocate_raw_def Let_def)
  qed
next
  case False
  then show ?thesis
    using allocate_read_ok [of a w h] allocate_write_ok [of a w h] allocate_create_ok [of a w "\<lambda>_ _. True" h] assms
    by (cases how) (auto simp: usable_def all_versions_def)
qed

theorem allocate_error_iff_witness:
  "usable demo_store \<and> allocate tight 0 Write demo_store = Inl Invalid_storage_action \<and> allocate tight 0 Create demo_store \<noteq> Inl Out_of_range"
  using allocate_error_iff [OF demo_store_ok(1), of tight 0 Write Invalid_storage_action]
    allocate_error_iff [OF demo_store_ok(1), of tight 0 Create Out_of_range] demo_store_ok(1) by simp

text \<open>
  C32.  Moving a store into another merges them.  When every block of the source has a version above the
  destination's version and above the versions of its cached blocks, no exception is thrown: the
  destination then shows the blocks of the source, and its own where the source has none, and the
  source shows nothing.
\<close>

theorem move_merges:
  assumes "usable src" "opened src" "newer V src" "usable dest" "not_newer V dest"
  shows "\<exists>src' dest'. move h src dest = Inr (src', dest') \<and> view src' = Map.empty \<and>
    store_inv dest' \<and> local_writes dest' \<and> view dest' = view dest ++ view src"
  using move_ok [of src V dest h] assms unfolding usable_def by blast

definition demo_source :: sqlite_allocator where
  "demo_source = (case store_step roomy (Put 40 [7]) ((new_allocator True None)\<lparr>alloc_version := 9\<rparr>) of
     Inl e \<Rightarrow> new_allocator True None | Inr (r, a) \<Rightarrow> a)"

lemma demo_source_ok: "usable demo_source" "view demo_source = [40 \<mapsto> [7]]"
proof -
  let ?a = "(new_allocator True None)\<lparr>alloc_version := 9\<rparr>"
  have v: "view ?a = Map.empty"
    by (simp add: new_allocator_def view_def stored_def stored_rows_def cache_def fun_eq_iff map_add_def)
  have "usable ?a" using usable_new [of True] by (simp add: usable_def)
  then show "usable demo_source" "view demo_source = [40 \<mapsto> [7]]"
    using put_ok [of ?a 40 roomy "[7]"] v by (auto simp: demo_source_def)
qed

lemma demo_moves: "opened demo_source \<and> newer 8 demo_source \<and> not_newer 8 demo_store"
  by code_simp

theorem move_merges_witness:
  "\<exists>src' dest'. move tight demo_source demo_store = Inr (src', dest') \<and> view src' = Map.empty \<and>
    store_inv dest' \<and> local_writes dest' \<and> view dest' = [40 \<mapsto> [7]]"
  using move_merges [of demo_source 8 demo_store tight] demo_source_ok demo_store_ok demo_moves by simp

section \<open>Journaling\<close>

lemma journal_blocks_ok:
  "usable a \<Longrightarrow> \<forall>w \<in> set ws. view a w \<noteq> None \<Longrightarrow>
   \<exists>a'. foldE (journal_block h) ws (ps, a) = Inr (ps @ map (\<lambda>w. (w, the (view a w))) ws, a') \<and> usable a' \<and> view a' = view a"
proof (induction ws arbitrary: ps a)
  case (Cons w ws)
  then obtain b where b: "view a w = Some b" by auto
  have w: "w \<noteq> 0" using view_dom [of a w] Cons.prems(1) b by (simp add: usable_def)
  obtain r a1 where a1: "allocate h w Read a = Inr (r, w, a1)" "store_inv a1" "view a1 = view a" "local_writes a1"
    "r \<noteq> End_block" "read_ref r a1 = b"
    using allocate_read_ok [of a w h] Cons.prems(1) w b by (auto simp: usable_def)
  have u: "usable a1" by (rule usable_kept [OF Cons.prems(1) kept_allocate [OF a1(1)] a1(2,4)])
  note c = usable_complete [OF u, of h]
  have "journal_block h w (ps, a) = Inr (ps @ [(w, b)], complete h a1)" using a1 by (simp add: journal_block_def is_end_def)
  then show ?case using Cons.IH [of "complete h a1" "ps @ [(w, b)]"] Cons.prems(2) c a1(3) b by auto
qed simp

lemma modified_addresses_dom:
  assumes u: "usable a" and o: "opened a"
  shows "w \<in> set (get_modified_addresses a) \<longleftrightarrow> view a w \<noteq> None"
proof -
  have rows: "the_rows (session a) = stored_rows a" using u o by (auto simp: opened_def stored_rows_def usable_def store_inv_def)
  have r: "w \<in> fst ` set (stored_rows a) \<longleftrightarrow> stored a w \<noteq> None" by (simp add: stored_def map_of_eq_None_iff)
  have d: "distinct (map fst (allocations a))" using u by (simp add: usable_def store_inv_def)
  have m: "w \<in> fst ` set (filter (\<lambda>(w, d). is_modified d) (allocations a)) \<longleftrightarrow> (\<exists>k b. cache a w = Some (k, b) \<and> k \<noteq> Read)"
    unfolding map_of_eq_None_iff [symmetric] cache_def is_modified_def using d
    by (auto simp: image_iff dest: map_of_SomeD intro!: bexI [of _ "(w, d)" for d])
  have c: "stored a w = Some b" if "cache a w = Some (Read, b)" for b using u that by (simp add: usable_def store_inv_def)
  have "w \<in> set (get_modified_addresses a) \<longleftrightarrow> stored a w \<noteq> None \<or> (\<exists>k b. cache a w = Some (k, b) \<and> k \<noteq> Read)"
    unfolding get_modified_addresses_def rows using r m by auto
  then show ?thesis using c by (auto simp: view_def map_add_def split: option.splits)
qed

lemma journal_pages_view:
  assumes u: "usable a" and o: "opened a"
  shows "map_of (map (\<lambda>w. (w, the (view a w))) (get_modified_addresses a)) = view a"
  by (rule map_of_map_keys) (use modified_addresses_dom [OF u o] in auto)

text \<open>
  C34.  The journal of a store is complete and exact.  On an opened store journaling throws nothing and
  leaves the blocks as they are; it emits one page per journaled address, in ascending order, and the
  pages are exactly the blocks the store shows: replaying them on nothing gives the store again.
\<close>

theorem journal_complete:
  assumes u: "usable a" and o: "opened a"
  shows "\<exists>a'. journal h a = Inr (map (\<lambda>w. (w, the (view a w))) (get_modified_addresses a), a') \<and> usable a' \<and> view a' = view a \<and>
    sorted (get_modified_addresses a) \<and> distinct (get_modified_addresses a) \<and>
    map_of (map (\<lambda>w. (w, the (view a w))) (get_modified_addresses a)) = view a"
proof -
  obtain a' where "journal h a = Inr (map (\<lambda>w. (w, the (view a w))) (get_modified_addresses a), a')" "usable a'" "view a' = view a"
    using journal_blocks_ok [OF u, of "get_modified_addresses a" h "[]"] modified_addresses_dom [OF u o]
    by (auto simp: journal_def)
  moreover have "sorted (get_modified_addresses a)" "distinct (get_modified_addresses a)" by (simp_all add: get_modified_addresses_def)
  ultimately show ?thesis using journal_pages_view [OF u o] by blast
qed

theorem journal_complete_witness:
  "\<exists>a'. journal tight demo_store = Inr (map (\<lambda>w. (w, the (view demo_store w))) (get_modified_addresses demo_store), a') \<and>
    usable a' \<and> view a' = view demo_store \<and> sorted (get_modified_addresses demo_store) \<and>
    distinct (get_modified_addresses demo_store) \<and>
    map_of (map (\<lambda>w. (w, the (view demo_store w))) (get_modified_addresses demo_store)) = view demo_store"
proof -
  have "opened demo_store" by code_simp
  then show ?thesis by (rule journal_complete [OF demo_store_ok(1)])
qed

section \<open>Giving up\<close>

text \<open>What the file holds.\<close>

definition file_view :: "sqlite_allocator \<Rightarrow> address \<rightharpoonup> buffer" where
  "file_view a w = map_option snd (map_of (the_rows (file_rows a)) w)"

lemma free_all_simps [simp]:
  "allocations (free_all h a) = []" "session (free_all h a) = session a" "file_rows (free_all h a) = file_rows a"
  "is_new (free_all h a) = is_new a" "transient (free_all h a) = transient a"
proof -
  define f where "f = (\<lambda>(w :: address, d) a. let (c, d') = reflect_block_use h d in down_use (get_block_use h d') (up_use c a))"
  have "session (fold f xs b) = session b \<and> file_rows (fold f xs b) = file_rows b \<and> is_new (fold f xs b) = is_new b \<and>
      transient (fold f xs b) = transient b" for xs b
    by (induction xs arbitrary: b) (simp_all add: f_def reflect_block_use_def down_use_def up_use_def split_beta Let_def)
  moreover have "free_all h a = (fold f (allocations a) a)\<lparr>allocations := []\<rparr>" by (simp only: free_all_def f_def)
  ultimately show "allocations (free_all h a) = []" "session (free_all h a) = session a" "file_rows (free_all h a) = file_rows a"
    "is_new (free_all h a) = is_new a" "transient (free_all h a) = transient a"
    by simp_all
qed

lemma empty_cache_view:
  "allocations a = [] \<Longrightarrow> session a = None \<Longrightarrow> (is_new a \<Longrightarrow> file_rows a = None) \<Longrightarrow> view a = file_view a"
  by (auto simp: view_def cache_def stored_def stored_rows_def file_view_def map_add_def fun_eq_iff)

lemma rollback_simps:
  assumes "store_inv a" "\<not> transient a"
  shows "allocations (rollback h a) = []" "session (rollback h a) = None" "file_rows (rollback h a) = file_rows a"
    "is_new (rollback h a) = is_new a" "transient (rollback h a) = transient a"
  using assms by (simp_all add: rollback_def close_session_def)



text \<open>
  C33.  Releasing the last reference to a modified store that is not transient loses nothing: the store is
  committed and emptied, and its file holds exactly the blocks it showed.
\<close>

theorem release_persists:
  assumes "usable a" "\<not> transient a" "modified a" "references a = 1"
  shows "file_view (release h a) = view a \<and> view (release h a) = view a \<and> allocations (release h a) = [] \<and>
    session (release h a) = None"
proof -
  define b where "b = begin_new (a\<lparr>references := 0\<rparr>)"
  define c where "c = commit h b"
  have u0: "usable (a\<lparr>references := 0\<rparr>)" using assms(1) by (simp add: usable_def store_inv_def)
  note u = usable_begin_new [OF u0, folded b_def]
  have tb: "transacted b" using begin_transaction_ok(6) [of "a\<lparr>references := 0\<rparr>"] u0 by (simp add: b_def begin_new_def usable_def)
  have b: "store_inv b" "local_writes b" using u by (simp_all add: usable_def)
  note ok = commit_ok [OF b tb, of h, folded c_def]
  have k: "kept (a\<lparr>references := 0\<rparr>) c"
    unfolding c_def b_def begin_new_def by (rule kept_trans [OF kept_begin kept_commit])
  then have nt: "\<not> transient c" using assms(2) by (simp add: kept_def)
  have "file_rows c \<noteq> None" using ok(5) by auto
  then have new: "\<not> is_new c" using ok(1) by (auto simp: store_inv_def)
  have fv: "file_view c = view a" using ok(5) u(2) by (auto simp: file_view_def [abs_def])
  note r = rollback_simps [OF ok(1) nt, of h]
  have "release h a = (free_all h (if session c \<noteq> None then close_session (rollback h c) else c))\<lparr>versions := []\<rparr>"
    using assms(2-4) nt by (simp add: release_def discard_def modified_def c_def b_def Let_def)
  then have e: "allocations (release h a) = []" "session (release h a) = None" "file_rows (release h a) = file_rows c" "\<not> is_new (release h a)"
    using r nt new by (simp_all add: close_session_def)
  moreover have "file_view (release h a) = view a" using e(3) fv by (simp add: file_view_def [abs_def])
  ultimately show ?thesis using empty_cache_view [of "release h a"] by simp
qed

theorem release_persists_witness:
  "file_view (release tight (engage demo_store)) = [40 \<mapsto> [1, 2]] \<and> view (release tight (engage demo_store)) = [40 \<mapsto> [1, 2]] \<and>
    allocations (release tight (engage demo_store)) = [] \<and> session (release tight (engage demo_store)) = None"
proof -
  have v: "view (engage demo_store) = [40 \<mapsto> [1, 2]]" "usable (engage demo_store)"
    using demo_store_ok by (simp_all add: engage_def usable_def store_inv_def)
  moreover have "\<not> transient (engage demo_store) \<and> modified (engage demo_store) \<and> references (engage demo_store) = 1" by code_simp
  ultimately show ?thesis using release_persists [of "engage demo_store" tight] by simp
qed

section \<open>Two reads that disagree with the store\<close>

text \<open>
  C40.  A select without rows leaves the bound variables alone, so a read after a rollback can return a
  block that was rolled back: the store shows no block at the address, and the read finds one.
\<close>

theorem rollback_stale_read:
  "\<exists>a w a' r. usable a \<and> \<not> transient a \<and> file_view a w = None \<and> view (rollback roomy a) w = None \<and>
     allocate roomy w Read (rollback roomy a) = Inr (Cached r, w, a') \<and> read_ref (Cached r) a' = [1, 2]"
proof -
  define a where "a = flush roomy demo_store"
  have u: "usable a" unfolding a_def by (rule transactions_ok(5) [OF demo_store_ok(1)])
  have t: "\<not> transient a" "map_of (the_rows (file_rows a)) 40 = None" unfolding a_def by code_simp+
  have f: "file_view a 40 = None" using t(2) by (simp add: file_view_def)
  have v: "view (rollback roomy a) 40 = None" using rollback_simps [of a roomy] u t(1) f empty_cache_view [of "rollback roomy a"]
    by (simp add: usable_def file_view_def store_inv_def)
  have "case allocate roomy 40 Read (rollback roomy a) of Inl e \<Rightarrow> False
     | Inr (r, w, a') \<Rightarrow> r = Cached 40 \<and> w = 40 \<and> read_ref (Cached 40) a' = [1, 2]"
    unfolding a_def by code_simp
  then show ?thesis using u t f v by (auto split: sum.splits)
qed

text \<open>
  The test for the existence of a row refuses the last allocated address: the store holds the block
  there, and \<^verbatim>\<open>get_exists\<close> answers that there is none.
\<close>

theorem get_exists_last:
  "\<exists>a w. usable a \<and> view a w \<noteq> None \<and> stored a w \<noteq> None \<and> \<not> fst (get_exists w a)"
proof -
  define a where "a = flush roomy demo_store"
  have u: "usable a" "view a = [40 \<mapsto> [1, 2]]"
    unfolding a_def using transactions_ok(5,6) [OF demo_store_ok(1), of roomy] demo_store_ok(2) by simp_all
  have c: "map_of (stored_rows a) 40 \<noteq> None \<and> \<not> fst (get_exists 40 a)" unfolding a_def by code_simp
  show ?thesis by (rule exI [of _ a], rule exI [of _ 40]) (use u c in \<open>auto simp: stored_def\<close>)
qed

end
