(* ===== verification/BlockQuiet.thy ===== *)
theory BlockQuiet
  imports BlockMap
begin

text \<open>
  Operations that only move blocks between the cache and the table are quiet: nothing a client can see
  changes, and no version appears that was not there.
\<close>

section \<open>Quiet operations\<close>

definition quiet :: "sqlite_allocator \<Rightarrow> sqlite_allocator \<Rightarrow> bool" where
  "quiet a a' \<longleftrightarrow> (usable a \<longrightarrow> usable a') \<and> view a' = view a \<and> kept a a' \<and> (\<forall>P. within P a \<longrightarrow> within P a')"

lemma quiet_refl [simp]: "quiet a a"
  by (simp add: quiet_def)

lemma quiet_trans: "quiet a b \<Longrightarrow> quiet b c \<Longrightarrow> quiet a c"
  using kept_trans by (auto simp: quiet_def)

lemma quiet_usable: "quiet a a' \<Longrightarrow> usable a \<Longrightarrow> usable a'"
  by (simp add: quiet_def)

lemma quiet_complete: "usable a \<Longrightarrow> quiet a (complete h a)"
  using usable_complete [of a h] kept_complete [of a h] within_complete [of _ a h] by (simp add: quiet_def)

lemma read_ref_complete [simp]: "read_ref r (complete h a) = read_ref r a"
proof (cases r)
  case (Cached w)
  have "cache (complete h a) = cache a" using complete_same [of a h] by (simp add: same_store_def)
  then have "map_option desc_block (map_of (allocations (complete h a)) w) = map_option desc_block (map_of (allocations a) w)"
    unfolding cache_def by (metis (mono_tags, lifting) option.map_comp comp_apply snd_conv option.map_cong0)
  then show ?thesis by (auto simp: read_ref_def Cached split: option.splits)
qed (auto simp: read_ref_def complete_def reflect_at_def reflect_block_use_def up_use_def Let_def split: option.splits)

lemma quiet_read:
  assumes "usable a" "w \<noteq> 0"
  shows "\<exists>r a'. allocate h w Read a = Inr (r, w, a') \<and> quiet a a' \<and>
    (r = End_block \<longleftrightarrow> view a w = None) \<and> (\<forall>b. view a w = Some b \<longrightarrow> read_ref r a' = b)"
proof -
  have a: "store_inv a" "local_writes a" using assms(1) by (simp_all add: usable_def)
  obtain r a' where a': "allocate h w Read a = Inr (r, w, a')" "store_inv a'" "view a' = view a" "local_writes a'"
    "r = End_block \<longleftrightarrow> view a w = None" "\<forall>b. view a w = Some b \<longrightarrow> read_ref r a' = b"
    using allocate_read_ok [OF a assms(2), of h] by (elim exE conjE)
  have "usable a'" by (rule usable_kept [OF assms(1) kept_allocate [OF a'(1)] a'(2,4)])
  moreover have "within P a'" if "within P a" for P using within_allocate [OF a that _ a'(1)] by simp
  ultimately have q: "quiet a a'" using a'(3) kept_allocate [OF a'(1)] by (simp add: quiet_def)
  show ?thesis by (intro exI [of _ r] exI [of _ a'] conjI a'(1,5,6) q)
qed

lemma quiet_write:
  assumes "usable a" "w \<noteq> 0"
  shows "\<exists>r a'. allocate h w Write a = Inr (r, w, a') \<and> quiet a a' \<and>
    (case view a w of None \<Rightarrow> r = End_block | Some b \<Rightarrow> r = Cached w \<and> (\<exists>m. m \<noteq> Read \<and> cache a' w = Some (m, b)))"
proof -
  have a: "store_inv a" "local_writes a" "is_read_cache a" using assms(1) by (simp_all add: usable_def)
  obtain r a' where a': "allocate h w Write a = Inr (r, w, a')" "store_inv a'" "view a' = view a" "local_writes a'"
    "case view a w of None \<Rightarrow> r = End_block | Some b \<Rightarrow> r = Cached w \<and> (\<exists>m. m \<noteq> Read \<and> cache a' w = Some (m, b))"
    using allocate_write_ok [OF a assms(2), of h] by (elim exE conjE)
  have "usable a'" by (rule usable_kept [OF assms(1) kept_allocate [OF a'(1)] a'(2,4)])
  moreover have "within P a'" if "within P a" for P using within_allocate [OF a(1,2) that _ a'(1)] by simp
  ultimately have q: "quiet a a'" using a'(3) kept_allocate [OF a'(1)] by (simp add: quiet_def)
  show ?thesis by (intro exI [of _ r] exI [of _ a'] conjI a'(1,5) q)
qed

lemma quiet_begin: "usable a \<Longrightarrow> quiet a (begin_store a)" "usable a \<Longrightarrow> quiet a (begin_new a)"
  using transactions_ok(1,2) [of a] usable_begin_new [of a] kept_begin [of a] within_begin
  by (auto simp: quiet_def begin_store_def begin_new_def)

lemma quiet_commit: "usable a \<Longrightarrow> quiet a (commit h a)"
  using transactions_ok(3,4) [of a h] kept_commit within_commit by (simp add: quiet_def)

text \<open>Creating a block, new or at an address.\<close>

lemma create_usable:
  assumes "usable a" "w \<noteq> 0"
  shows "\<exists>a' b m. allocate h w Create a = Inr (Cached w, w, a') \<and> usable a' \<and> kept a a' \<and> m \<noteq> Read \<and>
    cache a' w = Some (m, b) \<and> view a' = (view a)(w \<mapsto> b) \<and> (\<forall>P. within P a \<longrightarrow> P (alloc_version a) \<longrightarrow> within P a')"
proof -
  have a: "store_inv a" "local_writes a" using assms(1) by (simp_all add: usable_def)
  obtain a' b m where a': "allocate h w Create a = Inr (Cached w, w, a')" "store_inv a'" "local_writes a'" "m \<noteq> Read"
    "cache a' w = Some (m, b)" "view a' = (view a)(w \<mapsto> b)"
    using allocate_create_ok [OF a assms(2), of "\<lambda>_ _. True" h] by (auto simp: all_versions_def)
  have "usable a'" by (rule usable_kept [OF assms(1) kept_allocate [OF a'(1)] a'(2,3)])
  moreover have "within P a'" if "within P a" "P (alloc_version a)" for P
    by (rule within_allocate [OF a that(1) that(2) a'(1)])
  ultimately show ?thesis using a' kept_allocate [OF a'(1)] by (intro exI [of _ a'] exI [of _ b] exI [of _ m]) simp
qed

lemma create_fresh:
  assumes "usable a"
  shows "\<exists>a' w. allocate h 0 Create a = Inr (Cached w, w, a') \<and> usable a' \<and> kept a a' \<and> next_address a < w \<and>
    cache a' w = Some (Create, []) \<and> view a w = None \<and> view a' = (view a)(w \<mapsto> []) \<and>
    (\<forall>P. within P a \<longrightarrow> P (alloc_version a) \<longrightarrow> within P a')"
proof -
  have a: "store_inv a" "local_writes a" using assms(1) by (simp_all add: usable_def)
  obtain w a' where a': "allocate h 0 Create a = Inr (Cached w, w, a')" "store_inv a'" "local_writes a'" "view a w = None"
    "next_address a < w" "view a' = (view a)(w \<mapsto> [])" "cache a' w = Some (Create, [])"
    using allocate_new_ok [OF a, of h] by blast
  have "usable a'" by (rule usable_kept [OF assms(1) kept_allocate [OF a'(1)] a'(2,3)])
  moreover have "within P a'" if "within P a" "P (alloc_version a)" for P
    by (rule within_allocate [OF a that(1) that(2) a'(1)])
  ultimately show ?thesis using a' kept_allocate [OF a'(1)] by (intro exI [of _ a'] exI [of _ w]) simp
qed

end
