(* ===== verification/VersionStore.thy ===== *)
theory VersionStore
  imports BlockQuiet
begin

text \<open>
  A store that is based on a previous version: class \<^verbatim>\<open>version_based_allocator\<close> of
  \<^verbatim>\<open>src/src/storage/transactions/transactional_storage.h\<close>.  The stores of a coordinator refer to each
  other, so they live in a heap and a pointer is an address of it.  A store owns its allocator: the
  allocators of different stores are different objects.  A member function reads and writes the heap.
  The pointer \<^verbatim>\<open>last_base\<close> is null whenever \<^verbatim>\<open>allocate\<close> has returned, and is left out.
\<close>

section \<open>Data\<close>

type_synonym store_id = nat

record version_store =
  vs_allocator :: "sqlite_allocator option"
  based :: "store_id option"
  vs_version :: version
  vs_allocated_version :: version
  readers :: nat
  vs_order :: nat
  vs_initial :: address
  read_only :: bool
  discard_on_end :: bool
  merged :: bool

type_synonym store_heap = "store_id \<Rightarrow> version_store option"

text \<open>A \<^verbatim>\<open>block_type &\<close> is to the end block of the store itself or to a block of the allocator of a store.\<close>

datatype version_ref = Empty_block store_id | Block_ref store_id block_ref

definition new_version_store :: "address \<Rightarrow> nat \<Rightarrow> version \<Rightarrow> version_store" where
  "new_version_store i ord v =
     \<lparr>vs_allocator = None, based = None, vs_version = v, vs_allocated_version = 0, readers = 0, vs_order = ord,
      vs_initial = i, read_only = False, discard_on_end = False, merged = False\<rparr>"

definition set_allocator :: "sqlite_allocator option \<Rightarrow> version_store \<Rightarrow> version_store" where
  "set_allocator a s = s\<lparr>vs_allocator := map_option (\<lambda>a. a\<lparr>alloc_version := vs_version s\<rparr>) a\<rparr>"

definition set_version :: "version \<Rightarrow> version_store \<Rightarrow> version_store" where
  "set_version v s = s\<lparr>vs_version := v, vs_allocator := map_option (\<lambda>a. a\<lparr>alloc_version := v\<rparr>) (vs_allocator s)\<rparr>"

definition add_reader :: "version_store \<Rightarrow> version_store" where
  "add_reader s = s\<lparr>readers := Suc (readers s)\<rparr>"

definition remove_reader :: "version_store \<Rightarrow> version_store store_result" where
  "remove_reader s = (if readers s = 0 then Inl Invalid_reader_count else Inr (s\<lparr>readers := readers s - 1\<rparr>))"

definition is_unused :: "version_store \<Rightarrow> bool" where
  "is_unused s \<longleftrightarrow> readers s = 0"

section \<open>The heap\<close>

text \<open>A pointer that is followed points to a store; \<open>Std_exception\<close> also stands for one that does not.\<close>

definition deref :: "store_id \<Rightarrow> store_heap \<Rightarrow> version_store store_result" where
  "deref i hp = (case hp i of None \<Rightarrow> Inl Std_exception | Some s \<Rightarrow> Inr s)"

definition get_allocator :: "store_id \<Rightarrow> store_heap \<Rightarrow> sqlite_allocator store_result" where
  "get_allocator i hp =
     bindE (deref i hp) (\<lambda>s. case vs_allocator s of None \<Rightarrow> Inl Std_exception | Some a \<Rightarrow> Inr a)"

definition on_store :: "(version_store \<Rightarrow> version_store) \<Rightarrow> store_id \<Rightarrow> store_heap \<Rightarrow> store_heap" where
  "on_store f i hp = hp(i := map_option f (hp i))"

definition put_allocator :: "store_id \<Rightarrow> sqlite_allocator \<Rightarrow> store_heap \<Rightarrow> store_heap" where
  "put_allocator i a hp = on_store (\<lambda>s. s\<lparr>vs_allocator := Some a\<rparr>) i hp"

text \<open>
  The stores a walk along \<^verbatim>\<open>based\<close> visits.  The walk of the source has no bound; here it is cut off
  after \<open>n\<close> steps, and the properties show that it never is when \<open>n\<close> is the number of stores ever made.
\<close>

fun chain :: "nat \<Rightarrow> store_heap \<Rightarrow> store_id option \<Rightarrow> store_id list" where
  "chain n hp None = []"
| "chain 0 hp (Some b) = []"
| "chain (Suc n) hp (Some b) = b # (case hp b of None \<Rightarrow> [] | Some s \<Rightarrow> chain n hp (based s))"

definition based_chain :: "nat \<Rightarrow> store_heap \<Rightarrow> store_id \<Rightarrow> store_id list" where
  "based_chain n hp i = (case hp i of None \<Rightarrow> [] | Some s \<Rightarrow> chain n hp (based s))"

section \<open>Allocation\<close>

text \<open>An allocation in the allocator of the store itself.\<close>

definition local_allocate ::
    "host \<Rightarrow> store_id \<Rightarrow> address \<Rightarrow> storage_action \<Rightarrow> store_heap \<Rightarrow> (version_ref \<times> address \<times> store_heap) store_result" where
  "local_allocate h i which how hp =
     bindE (get_allocator i hp) (\<lambda>a.
     bindE (allocate h which how a) (\<lambda>(r, w, a1).
       Inr (Block_ref i r, w, on_store (\<lambda>s. s\<lparr>vs_allocated_version := allocated_version a1\<rparr>) i (put_allocator i a1 hp))))"

text \<open>The search of the previous versions; a block found for writing is copied into the store.\<close>

fun search_based ::
    "host \<Rightarrow> store_id \<Rightarrow> address \<Rightarrow> storage_action \<Rightarrow> store_id list \<Rightarrow> store_heap \<Rightarrow>
     (version_ref \<times> address \<times> store_heap) store_result" where
  "search_based h i which how [] hp = Inr (Empty_block i, which, hp)"
| "search_based h i which how (b # bs) hp =
     bindE (get_allocator b hp) (\<lambda>a.
     bindE (allocate h which Read a) (\<lambda>(r, w, a1).
       if \<not> is_end r then
         if how = Write \<and> (case hp i of None \<Rightarrow> False | Some s \<Rightarrow> vs_allocator s \<noteq> None) then
           bindE (get_allocator i hp) (\<lambda>c.
           bindE (allocate h w Create c) (\<lambda>(u, w', c1).
             Inr (Block_ref i u, w',
               put_allocator b (complete h a1)
                 (on_store (\<lambda>s. s\<lparr>vs_allocated_version := allocated_version c1\<rparr>) i
                   (put_allocator i (write_ref u (read_ref r a1) c1) hp)))))
         else
           Inr (Block_ref b r, w,
             on_store (\<lambda>s. s\<lparr>vs_allocated_version := allocated_version a1\<rparr>) i (put_allocator b (complete h a1) hp))
       else search_based h i w how bs (put_allocator b (complete h a1) hp)))"

definition vs_allocate ::
    "host \<Rightarrow> nat \<Rightarrow> store_id \<Rightarrow> address \<Rightarrow> storage_action \<Rightarrow> store_heap \<Rightarrow>
     (version_ref \<times> address \<times> store_heap) store_result" where
  "vs_allocate h n i which how hp0 =
     bindE (deref i hp0) (\<lambda>s.
       let hp = on_store (\<lambda>s. s\<lparr>vs_allocated_version := 0\<rparr>) i hp0 in
       if read_only s \<and> how \<noteq> Read then Inl Invalid_storage_action
       else if which = 0 \<and> how = Create then local_allocate h i which how hp
       else if vs_allocator s \<noteq> None then
         if how \<noteq> Create then
           bindE (get_allocator i hp) (\<lambda>a.
           bindE (allocate h which how a) (\<lambda>(r, w, a1).
             if \<not> is_end r then
               Inr (Block_ref i r, w,
                 on_store (\<lambda>s. s\<lparr>vs_allocated_version := allocated_version a1\<rparr>) i (put_allocator i a1 hp))
             else
               let hp1 = put_allocator i (complete h a1) hp in
               search_based h i w how (based_chain n hp1 i) hp1))
         else local_allocate h i which how hp
       else if how = Create then Inl Invalid_storage_action
       else search_based h i which how (based_chain n hp i) hp)"

definition vs_complete :: "host \<Rightarrow> store_id \<Rightarrow> store_heap \<Rightarrow> store_heap store_result" where
  "vs_complete h i hp = bindE (get_allocator i hp) (\<lambda>a. Inr (put_allocator i (complete h a) hp))"

definition vs_is_end :: "nat \<Rightarrow> store_id \<Rightarrow> version_ref \<Rightarrow> store_heap \<Rightarrow> bool" where
  "vs_is_end n i r hp \<longleftrightarrow> (\<exists>b \<in> set (i # based_chain n hp i). \<exists>q. r = Block_ref b q \<and> is_end q)"

text \<open>What a client reads and writes through a reference.\<close>

definition vs_read :: "version_ref \<Rightarrow> store_heap \<Rightarrow> buffer" where
  "vs_read r hp =
     (case r of
        Empty_block i \<Rightarrow> []
      | Block_ref b q \<Rightarrow> (case get_allocator b hp of Inl e \<Rightarrow> [] | Inr a \<Rightarrow> read_ref q a))"

definition vs_write :: "version_ref \<Rightarrow> buffer \<Rightarrow> store_heap \<Rightarrow> store_heap" where
  "vs_write r x hp =
     (case r of
        Empty_block i \<Rightarrow> hp
      | Block_ref b q \<Rightarrow> (case get_allocator b hp of Inl e \<Rightarrow> hp | Inr a \<Rightarrow> put_allocator b (write_ref q x a) hp))"

section \<open>Delegation\<close>

text \<open>Operations the store passes on to its allocator, if it has one.\<close>

definition with_allocator :: "(sqlite_allocator \<Rightarrow> sqlite_allocator) \<Rightarrow> version_store \<Rightarrow> version_store" where
  "with_allocator f s = s\<lparr>vs_allocator := map_option f (vs_allocator s)\<rparr>"

definition vs_begin :: "version_store \<Rightarrow> version_store" where
  "vs_begin = with_allocator begin_store"

definition vs_begin_new :: "version_store \<Rightarrow> version_store" where
  "vs_begin_new = with_allocator begin_new"

definition vs_commit :: "host \<Rightarrow> version_store \<Rightarrow> version_store" where
  "vs_commit h = with_allocator (commit h)"

definition vs_flush :: "host \<Rightarrow> version_store \<Rightarrow> version_store" where
  "vs_flush h = with_allocator (flush h)"

definition vs_modified :: "version_store \<Rightarrow> bool" where
  "vs_modified s = (case vs_allocator s of None \<Rightarrow> False | Some a \<Rightarrow> modified a)"

definition vs_set_transient :: "bool \<Rightarrow> version_store \<Rightarrow> version_store" where
  "vs_set_transient b = with_allocator (\<lambda>a. a\<lparr>transient := b\<rparr>)"

definition vs_journal ::
    "host \<Rightarrow> store_id \<Rightarrow> store_heap \<Rightarrow> ((address \<times> buffer) list \<times> store_heap) store_result" where
  "vs_journal h i hp =
     bindE (deref i hp) (\<lambda>s.
       case vs_allocator s of
         None \<Rightarrow> Inr ([], hp)
       | Some a \<Rightarrow> bindE (journal h a) (\<lambda>(pages, a1). Inr (pages, put_allocator i a1 hp)))"

definition vs_move :: "host \<Rightarrow> store_id \<Rightarrow> store_id \<Rightarrow> store_heap \<Rightarrow> store_heap store_result" where
  "vs_move h i j hp =
     bindE (get_allocator i hp) (\<lambda>a. bindE (get_allocator j hp) (\<lambda>b.
       bindE (move h a b) (\<lambda>(a1, b1). Inr (put_allocator j b1 (put_allocator i a1 hp)))))"

definition vs_get_latest_version ::
    "store_id \<Rightarrow> address \<Rightarrow> store_heap \<Rightarrow> (version \<times> store_heap) store_result" where
  "vs_get_latest_version i w hp =
     bindE (deref i hp) (\<lambda>s.
       case vs_allocator s of
         None \<Rightarrow> Inr (0, hp)
       | Some a \<Rightarrow> bindE (get_latest_version w a) (\<lambda>(v, a1). Inr (v, put_allocator i a1 hp)))"

definition vs_is_latest ::
    "store_id \<Rightarrow> address \<Rightarrow> version \<Rightarrow> store_heap \<Rightarrow> (bool \<times> store_heap) store_result" where
  "vs_is_latest i w v hp =
     bindE (deref i hp) (\<lambda>s.
       case vs_allocator s of
         None \<Rightarrow> Inr (True, hp)
       | Some a \<Rightarrow> bindE (is_latest w v a) (\<lambda>(l, a1). Inr (l, put_allocator i a1 hp)))"

end
