(* ===== verification/VersionView.thy ===== *)
theory VersionView
  imports VersionStore
begin

text \<open>What a version store shows: the blocks of its allocator over those of the versions it is based on.\<close>

section \<open>Views\<close>

definition alloc_of :: "store_heap \<Rightarrow> store_id \<Rightarrow> sqlite_allocator option" where
  "alloc_of hp i = Option.bind (hp i) vs_allocator"

definition vview :: "store_heap \<Rightarrow> store_id \<Rightarrow> address \<rightharpoonup> buffer" where
  "vview hp i = (case alloc_of hp i of None \<Rightarrow> Map.empty | Some a \<Rightarrow> view a)"

primrec cview :: "store_heap \<Rightarrow> store_id list \<Rightarrow> address \<rightharpoonup> buffer" where
  "cview hp [] = Map.empty"
| "cview hp (b # bs) = cview hp bs ++ vview hp b"

definition usable_at :: "store_heap \<Rightarrow> store_id \<Rightarrow> bool" where
  "usable_at hp i \<longleftrightarrow> (\<exists>a. alloc_of hp i = Some a \<and> usable a)"

lemma get_allocator_eq: "get_allocator i hp = (case alloc_of hp i of None \<Rightarrow> Inl Std_exception | Some a \<Rightarrow> Inr a)"
  by (auto simp: get_allocator_def deref_def alloc_of_def split: option.splits)

text \<open>The fields that allocation leaves alone.\<close>

definition same_frame :: "version_store \<Rightarrow> version_store \<Rightarrow> bool" where
  "same_frame s s' \<longleftrightarrow> based s' = based s \<and> vs_version s' = vs_version s \<and> readers s' = readers s \<and> vs_order s' = vs_order s \<and>
     vs_initial s' = vs_initial s \<and> read_only s' = read_only s \<and> discard_on_end s' = discard_on_end s \<and> merged s' = merged s"

definition same_frames :: "store_heap \<Rightarrow> store_heap \<Rightarrow> bool" where
  "same_frames hp hp' \<longleftrightarrow> (\<forall>j. rel_option same_frame (hp j) (hp' j))"

definition quiet_except :: "store_id set \<Rightarrow> store_heap \<Rightarrow> store_heap \<Rightarrow> bool" where
  "quiet_except X hp hp' \<longleftrightarrow> same_frames hp hp' \<and>
     (\<forall>j. j \<notin> X \<longrightarrow> rel_option quiet (alloc_of hp j) (alloc_of hp' j))"

abbreviation quiet_heap :: "store_heap \<Rightarrow> store_heap \<Rightarrow> bool" where
  "quiet_heap \<equiv> quiet_except {}"

lemma same_frame_refl [simp]: "same_frame s s" by (simp add: same_frame_def)

lemma same_frame_trans: "same_frame a b \<Longrightarrow> same_frame b c \<Longrightarrow> same_frame a c"
  by (simp add: same_frame_def)

lemma same_frames_refl [simp]: "same_frames hp hp"
  by (simp add: same_frames_def option.rel_refl)

lemma rel_option_trans:
  "transp R \<Longrightarrow> rel_option R a b \<Longrightarrow> rel_option R b c \<Longrightarrow> rel_option R a c"
  by (cases a; cases b; cases c) (auto dest: transpD)

lemma transp_frame_quiet: "transp same_frame" "transp quiet"
  by (auto intro!: transpI intro: same_frame_trans quiet_trans)

lemma same_frames_trans: "same_frames a b \<Longrightarrow> same_frames b c \<Longrightarrow> same_frames a c"
  unfolding same_frames_def using rel_option_trans [OF transp_frame_quiet(1)] by blast

lemma quiet_except_refl [simp]: "quiet_except X hp hp"
  by (simp add: quiet_except_def option.rel_refl)

lemma quiet_except_mono: "quiet_except X a b \<Longrightarrow> X \<subseteq> Y \<Longrightarrow> quiet_except Y a b"
  by (auto simp: quiet_except_def)

lemma quiet_except_trans:
  assumes "quiet_except X a b" "quiet_except X b c" shows "quiet_except X a c"
proof -
  have "rel_option quiet (alloc_of a j) (alloc_of c j)" if "j \<notin> X" for j
    using assms that rel_option_trans [OF transp_frame_quiet(2)] unfolding quiet_except_def by blast
  moreover have "same_frames a c" using assms same_frames_trans by (auto simp: quiet_except_def)
  ultimately show ?thesis by (simp add: quiet_except_def)
qed

lemma quiet_vview: "quiet_except X hp hp' \<Longrightarrow> j \<notin> X \<Longrightarrow> vview hp' j = vview hp j"
proof -
  assume "quiet_except X hp hp'" "j \<notin> X"
  then have "rel_option quiet (alloc_of hp j) (alloc_of hp' j)" by (simp add: quiet_except_def)
  then show ?thesis by (cases rule: option.rel_cases) (auto simp: vview_def quiet_def)
qed

lemma cview_cong: "(\<And>j. j \<in> set bs \<Longrightarrow> vview hp' j = vview hp j) \<Longrightarrow> cview hp' bs = cview hp bs"
  by (induction bs) auto

lemma quiet_cview: "quiet_except X hp hp' \<Longrightarrow> set bs \<inter> X = {} \<Longrightarrow> cview hp' bs = cview hp bs"
  by (rule cview_cong) (auto intro: quiet_vview)

lemma quiet_usable_at: "quiet_except X hp hp' \<Longrightarrow> j \<notin> X \<Longrightarrow> usable_at hp j \<Longrightarrow> usable_at hp' j"
proof -
  assume "quiet_except X hp hp'" "j \<notin> X" and u: "usable_at hp j"
  then have "rel_option quiet (alloc_of hp j) (alloc_of hp' j)" by (simp add: quiet_except_def)
  then show ?thesis using u by (cases rule: option.rel_cases) (auto simp: usable_at_def quiet_def)
qed

lemma same_frames_chain: "same_frames hp hp' \<Longrightarrow> chain n hp' b = chain n hp b"
proof (induction n hp b rule: chain.induct)
  case (3 n hp b)
  have "rel_option same_frame (hp b) (hp' b)" using "3.prems" by (simp add: same_frames_def)
  then show ?case
  proof (cases rule: option.rel_cases)
    case (Some s s')
    then show ?thesis using "3.IH" [of s] "3.prems" by (simp add: same_frame_def)
  qed simp
qed simp_all

lemma same_frames_based_chain: "same_frames hp hp' \<Longrightarrow> based_chain n hp' i = based_chain n hp i"
proof -
  assume f: "same_frames hp hp'"
  then have "rel_option same_frame (hp i) (hp' i)" by (simp add: same_frames_def)
  then show ?thesis
    by (cases rule: option.rel_cases) (simp_all add: based_chain_def same_frames_chain [OF f] same_frame_def)
qed

section \<open>Updating one store\<close>

lemma alloc_of_put [simp]:
  "alloc_of (put_allocator i a hp) j = (if j = i then map_option (\<lambda>s. a) (hp i) else alloc_of hp j)"
  by (simp add: alloc_of_def put_allocator_def on_store_def option.map_comp split: option.splits bind_splits)
     (cases "hp i"; simp)

lemma alloc_of_stamp [simp]: "alloc_of (on_store (\<lambda>s. s\<lparr>vs_allocated_version := v\<rparr>) i hp) j = alloc_of hp j"
  by (cases "hp i") (auto simp: alloc_of_def on_store_def)

lemma heap_put [simp]: "put_allocator i a hp j = (if j = i then map_option (\<lambda>s. s\<lparr>vs_allocator := Some a\<rparr>) (hp i) else hp j)"
  by (simp add: put_allocator_def on_store_def)

lemma frames_put: "same_frames hp (put_allocator i a hp)"
  by (auto simp: same_frames_def same_frame_def option.rel_refl rel_option_iff split: option.splits)

lemma frames_stamp: "same_frames hp (on_store (\<lambda>s. s\<lparr>vs_allocated_version := v\<rparr>) i hp)"
  by (auto simp: same_frames_def same_frame_def on_store_def option.rel_refl rel_option_iff split: option.splits)

lemma quiet_put:
  assumes "alloc_of hp i = Some a" "quiet a a'" shows "quiet_except X hp (put_allocator i a' hp)"
proof -
  have "hp i \<noteq> None" using assms(1) by (auto simp: alloc_of_def split: bind_splits)
  then have "rel_option quiet (alloc_of hp j) (alloc_of (put_allocator i a' hp) j)" for j
    using assms by (auto simp: option.rel_refl)
  then show ?thesis by (simp add: quiet_except_def frames_put)
qed

lemma quiet_stamp: "quiet_except X hp (on_store (\<lambda>s. s\<lparr>vs_allocated_version := v\<rparr>) i hp)"
  by (simp add: quiet_except_def frames_stamp option.rel_refl)

lemma put_except: "quiet_except {i} hp (put_allocator i a hp)"
  by (simp add: quiet_except_def frames_put option.rel_refl)

section \<open>Searching the previous versions\<close>

text \<open>One step of the search: the store is read, and completed.\<close>

lemma search_step:
  assumes "usable_at hp b" "w \<noteq> 0"
  obtains a r a1 where "get_allocator b hp = Inr a" "allocate h w Read a = Inr (r, w, a1)" "usable a1"
    "quiet_heap hp (put_allocator b (complete h a1) hp)" "is_end r \<longleftrightarrow> vview hp b w = None"
    "\<forall>x. vview hp b w = Some x \<longrightarrow> read_ref r a1 = x"
proof -
  obtain a where a: "alloc_of hp b = Some a" "usable a" using assms(1) by (auto simp: usable_at_def)
  obtain r a1 where r: "allocate h w Read a = Inr (r, w, a1)" "quiet a a1" "r = End_block \<longleftrightarrow> view a w = None"
    "\<forall>x. view a w = Some x \<longrightarrow> read_ref r a1 = x"
    using quiet_read [OF a(2) assms(2), of h] by (elim exE conjE)
  have v: "vview hp b = view a" using a(1) by (simp add: vview_def)
  have u1: "usable a1" by (rule quiet_usable [OF r(2) a(2)])
  have "quiet a (complete h a1)" by (rule quiet_trans [OF r(2) quiet_complete [OF u1]])
  then have q: "quiet_heap hp (put_allocator b (complete h a1) hp)" by (rule quiet_put [OF a(1)])
  show thesis
    by (rule that [OF _ r(1) u1 q]) (use a r v in \<open>simp_all add: get_allocator_eq is_end_def\<close>)
qed

text \<open>What a search for reading returns: the block of the first store that has one.\<close>

definition reads_as :: "store_id \<Rightarrow> version_ref \<Rightarrow> store_heap \<Rightarrow> buffer option \<Rightarrow> bool" where
  "reads_as i r hp x = (case x of None \<Rightarrow> r = Empty_block i
     | Some y \<Rightarrow> (\<exists>b q. r = Block_ref b q \<and> \<not> is_end q) \<and> vs_read r hp = y)"

lemma search_read:
  "\<forall>b \<in> set bs. usable_at hp b \<Longrightarrow> w \<noteq> 0 \<Longrightarrow>
   \<exists>r hp'. search_based h i w Read bs hp = Inr (r, w, hp') \<and> quiet_heap hp hp' \<and> reads_as i r hp' (cview hp bs w)"
proof (induction bs arbitrary: hp)
  case Nil
  then show ?case by (simp add: reads_as_def)
next
  case (Cons b bs)
  have ub: "usable_at hp b" using Cons.prems(1) by simp
  obtain a r a1 where s: "get_allocator b hp = Inr a" "allocate h w Read a = Inr (r, w, a1)"
    "quiet_heap hp (put_allocator b (complete h a1) hp)" "is_end r \<longleftrightarrow> vview hp b w = None"
    "\<forall>x. vview hp b w = Some x \<longrightarrow> read_ref r a1 = x"
    by (rule search_step [OF ub Cons.prems(2), of h]) (rule that; assumption)
  define hp1 where "hp1 = put_allocator b (complete h a1) hp"
  show ?case
  proof (cases "vview hp b w")
    case None
    have u: "\<forall>b \<in> set bs. usable_at hp1 b" using Cons.prems(1) quiet_usable_at [OF s(3)] by (simp add: hp1_def)
    have c: "cview hp1 bs = cview hp bs" using quiet_cview [OF s(3)] by (simp add: hp1_def)
    obtain r' hp' where IH: "search_based h i w Read bs hp1 = Inr (r', w, hp')" "quiet_heap hp1 hp'" "reads_as i r' hp' (cview hp1 bs w)"
      using Cons.IH [OF u Cons.prems(2)] by blast
    have "quiet_heap hp hp'" using quiet_except_trans [OF s(3) [folded hp1_def] IH(2)] .
    moreover have "search_based h i w Read (b # bs) hp = Inr (r', w, hp')"
      using s(1,2,4) None IH(1) by (simp add: hp1_def)
    ultimately show ?thesis using IH(3) None c by (simp add: map_add_def)
  next
    case (Some x)
    define hp2 where "hp2 = on_store (\<lambda>s. s\<lparr>vs_allocated_version := allocated_version a1\<rparr>) i hp1"
    have q: "quiet_heap hp hp2" unfolding hp2_def hp1_def by (rule quiet_except_trans [OF s(3) quiet_stamp])
    have e: "search_based h i w Read (b # bs) hp = Inr (Block_ref b r, w, hp2)"
      using s(1,2,4) Some by (simp add: hp2_def hp1_def)
    have "hp b \<noteq> None" using ub by (auto simp: usable_at_def alloc_of_def split: bind_splits)
    then have "alloc_of hp2 b = Some (complete h a1)" by (auto simp: hp2_def hp1_def)
    then have "vs_read (Block_ref b r) hp2 = x" using s(5) Some by (simp add: vs_read_def get_allocator_eq)
    then have "reads_as i (Block_ref b r) hp2 (cview hp (b # bs) w)"
      using Some s(4) by (simp add: reads_as_def map_add_def)
    then show ?thesis using e q by blast
  qed
qed

text \<open>A search for writing copies that block into the store itself.\<close>

definition own_block :: "store_id \<Rightarrow> address \<Rightarrow> version_ref \<Rightarrow> store_heap \<Rightarrow> store_heap \<Rightarrow> buffer \<Rightarrow> bool" where
  "own_block i w r hp hp' x \<longleftrightarrow> r = Block_ref i (Cached w) \<and> quiet_except {i} hp hp' \<and>
     (\<exists>a a' m. alloc_of hp i = Some a \<and> alloc_of hp' i = Some a' \<and> usable a' \<and> kept a a' \<and> m \<noteq> Read \<and> cache a' w = Some (m, x) \<and>
        view a' = (view a)(w \<mapsto> x) \<and> (\<forall>P. within P a \<longrightarrow> P (alloc_version a) \<longrightarrow> within P a'))"

lemma own_blockI:
  assumes "r = Block_ref i (Cached w)" "quiet_except {i} hp hp'" "alloc_of hp i = Some a" "alloc_of hp' i = Some a'" "usable a'"
    "kept a a'" "m \<noteq> Read" "cache a' w = Some (m, x)" "view a' = (view a)(w \<mapsto> x)"
    "\<And>P. within P a \<Longrightarrow> P (alloc_version a) \<Longrightarrow> within P a'"
  shows "own_block i w r hp hp' x"
  unfolding own_block_def
  by (intro conjI, rule assms(1), rule assms(2), rule exI [of _ a], rule exI [of _ a'], rule exI [of _ m])
    (intro conjI allI impI assms)

lemma own_block_trans:
  assumes q: "quiet_heap hp hp1" and o: "own_block i w r hp1 hp' x" and u: "usable_at hp i"
  shows "own_block i w r hp hp' x"
proof -
  obtain a1 a' m where a: "alloc_of hp1 i = Some a1" "alloc_of hp' i = Some a'" "usable a'" "kept a1 a'" "m \<noteq> Read" "cache a' w = Some (m, x)"
    "view a' = (view a1)(w \<mapsto> x)" "\<forall>P. within P a1 \<longrightarrow> P (alloc_version a1) \<longrightarrow> within P a'" "r = Block_ref i (Cached w)" "quiet_except {i} hp1 hp'"
    using o unfolding own_block_def by (elim exE conjE)
  have "rel_option quiet (alloc_of hp i) (alloc_of hp1 i)" using q by (simp add: quiet_except_def)
  then obtain a0 where a0: "alloc_of hp i = Some a0" "quiet a0 a1" using a(1) by (cases "alloc_of hp i") auto
  have k: "kept a0 a'" using a0(2) a(4) kept_trans by (auto simp: quiet_def)
  have wi: "within P a'" if "within P a0" "P (alloc_version a0)" for P
  proof -
    have "within P a1" "alloc_version a1 = alloc_version a0" using a0(2) that(1) by (simp_all add: quiet_def kept_def)
    then show ?thesis using a(8) that(2) by simp
  qed
  have q': "quiet_except {i} hp hp'" by (rule quiet_except_trans [OF quiet_except_mono [OF q] a(10)]) simp
  have v: "view a' = (view a0)(w \<mapsto> x)" using a(7) a0(2) by (simp add: quiet_def)
  show ?thesis by (rule own_blockI [OF a(9) q' a0(1) a(2,3) k a(5,6) v wi])
qed

lemma own_block_create:
  assumes a: "alloc_of hp i = Some a" "usable a" and w: "w \<noteq> 0"
  shows "\<exists>c1. allocate h w Create a = Inr (Cached w, w, c1) \<and>
    own_block i w (Block_ref i (Cached w)) hp
      (on_store (\<lambda>s. s\<lparr>vs_allocated_version := v\<rparr>) i (put_allocator i (write_ref (Cached w) x c1) hp)) x"
proof -
  obtain c1 b m where c: "allocate h w Create a = Inr (Cached w, w, c1)" "usable c1" "kept a c1" "m \<noteq> Read" "cache c1 w = Some (m, b)"
    "view c1 = (view a)(w \<mapsto> b)" "\<forall>P. within P a \<longrightarrow> P (alloc_version a) \<longrightarrow> within P c1"
    using create_usable [OF a(2) w, of h] by (elim exE conjE)
  define c2 where "c2 = write_ref (Cached w) x c1"
  have inv: "store_inv c1" using c(2) by (simp add: usable_def)
  note wr = write_ref_ok [OF inv c(5,4), of x, folded c2_def]
  have k: "kept c1 c2" "local_writes c2 = local_writes c1"
    by (auto simp: c2_def write_ref_def kept_def split: option.splits)
  have u: "usable c2" using usable_kept [OF c(2) k(1) wr(1)] c(2) k(2) by (simp add: usable_def)
  have wi: "within P c2" if "within P a" "P (alloc_version a)" for P
    unfolding c2_def by (rule within_write) (use c(7) that in blast)
  define hp' where "hp' = on_store (\<lambda>s. s\<lparr>vs_allocated_version := v\<rparr>) i (put_allocator i c2 hp)"
  have q: "quiet_except {i} hp hp'" unfolding hp'_def by (rule quiet_except_trans [OF put_except quiet_stamp])
  have "hp i \<noteq> None" using a(1) by (auto simp: alloc_of_def split: bind_splits)
  then have al: "alloc_of hp' i = Some c2" by (auto simp: hp'_def)
  have vw: "view c2 = (view a)(w \<mapsto> x)" "cache c2 w = Some (m, x)" using wr(2,3) c(6) by simp_all
  have "own_block i w (Block_ref i (Cached w)) hp hp' x"
    by (rule own_blockI [OF refl q a(1) al u kept_trans [OF c(3) k(1)] c(4) vw(2,1) wi])
  then show ?thesis using c(1) by (auto simp: hp'_def c2_def)
qed

lemma search_write:
  "\<forall>b \<in> set bs. usable_at hp b \<Longrightarrow> usable_at hp i \<Longrightarrow> i \<notin> set bs \<Longrightarrow> w \<noteq> 0 \<Longrightarrow>
   \<exists>r hp'. search_based h i w Write bs hp = Inr (r, w, hp') \<and>
     (case cview hp bs w of None \<Rightarrow> r = Empty_block i \<and> quiet_heap hp hp' | Some x \<Rightarrow> own_block i w r hp hp' x)"
proof (induction bs arbitrary: hp)
  case Nil
  then show ?case by simp
next
  case (Cons b bs)
  have ub: "usable_at hp b" using Cons.prems(1) by simp
  obtain a r a1 where s: "get_allocator b hp = Inr a" "allocate h w Read a = Inr (r, w, a1)" "usable a1"
    "quiet_heap hp (put_allocator b (complete h a1) hp)" "is_end r \<longleftrightarrow> vview hp b w = None"
    "\<forall>x. vview hp b w = Some x \<longrightarrow> read_ref r a1 = x"
    by (rule search_step [OF ub Cons.prems(4), of h]) (rule that; assumption)
  define hp1 where "hp1 = put_allocator b (complete h a1) hp"
  note q1 = s(4) [folded hp1_def]
  show ?case
  proof (cases "vview hp b w")
    case None
    have u: "\<forall>b \<in> set bs. usable_at hp1 b" "usable_at hp1 i" using Cons.prems(1,2) quiet_usable_at [OF q1] by simp_all
    have c: "cview hp1 bs = cview hp bs" using quiet_cview [OF q1] by simp
    obtain r' hp' where IH: "search_based h i w Write bs hp1 = Inr (r', w, hp')"
      "case cview hp1 bs w of None \<Rightarrow> r' = Empty_block i \<and> quiet_heap hp1 hp' | Some x \<Rightarrow> own_block i w r' hp1 hp' x"
      using Cons.IH [OF u _ Cons.prems(4)] Cons.prems(3) by auto
    have "search_based h i w Write (b # bs) hp = Inr (r', w, hp')" using s(1,2,5) None IH(1) by (simp add: hp1_def)
    then show ?thesis
      using IH(2) None c quiet_except_trans [OF q1] own_block_trans [OF q1 _ Cons.prems(2)]
      by (auto simp: map_add_def split: option.splits)
  next
    case (Some x)
    obtain ai where ai: "alloc_of hp i = Some ai" "usable ai" using Cons.prems(2) by (auto simp: usable_at_def)
    have bi: "b \<noteq> i" using Cons.prems(3) by auto
    obtain c1 where c1: "allocate h w Create ai = Inr (Cached w, w, c1)"
      and o: "own_block i w (Block_ref i (Cached w)) hp
        (on_store (\<lambda>s. s\<lparr>vs_allocated_version := allocated_version c1\<rparr>) i (put_allocator i (write_ref (Cached w) x c1) hp)) x"
      using own_block_create [OF ai Cons.prems(4), of h "allocated_version (snd (snd (projr (allocate h w Create ai))))" x] by auto
    define hp2 where "hp2 = on_store (\<lambda>s. s\<lparr>vs_allocated_version := allocated_version c1\<rparr>) i (put_allocator i (write_ref (Cached w) x c1) hp)"
    have "alloc_of hp2 b = alloc_of hp b" using bi by (simp add: hp2_def)
    then have ab: "alloc_of hp2 b = Some a" using s(1) by (simp add: get_allocator_eq split: option.splits)
    have ub: "usable a" using ub ab \<open>alloc_of hp2 b = alloc_of hp b\<close> by (auto simp: usable_at_def)
    have qa: "quiet a (complete h a1)"
    proof -
      have "rel_option quiet (alloc_of hp b) (alloc_of hp1 b)" using q1 by (simp add: quiet_except_def)
      moreover have "alloc_of hp b = Some a" using ab \<open>alloc_of hp2 b = alloc_of hp b\<close> by simp
      moreover from this have "hp b \<noteq> None" by (auto simp: alloc_of_def split: bind_splits)
      then have "alloc_of hp1 b = Some (complete h a1)" by (auto simp: hp1_def)
      ultimately show ?thesis by simp
    qed
    define hp' where "hp' = put_allocator b (complete h a1) hp2"
    have q2: "quiet_except {i} hp2 hp'" unfolding hp'_def by (rule quiet_put [OF ab qa])
    have e: "search_based h i w Write (b # bs) hp = Inr (Block_ref i (Cached w), w, hp')"
      using s(1,2,5,6) Some ai c1 by (auto simp: hp'_def hp2_def get_allocator_eq alloc_of_def split: bind_splits)
    have "own_block i w (Block_ref i (Cached w)) hp hp' x"
    proof -
      have "alloc_of hp' i = alloc_of hp2 i" using bi by (simp add: hp'_def)
      moreover have "quiet_except {i} hp hp'" using o q2 quiet_except_trans unfolding own_block_def hp2_def [symmetric] by blast
      ultimately show ?thesis using o unfolding own_block_def hp2_def [symmetric] by simp
    qed
    then show ?thesis using e Some by (auto simp: map_add_def)
  qed
qed

section \<open>Allocating in a version\<close>

definition version_ok :: "nat \<Rightarrow> store_heap \<Rightarrow> store_id \<Rightarrow> bool" where
  "version_ok n hp i \<longleftrightarrow> usable_at hp i \<and> (\<forall>b \<in> set (based_chain n hp i). usable_at hp b) \<and> i \<notin> set (based_chain n hp i)"

definition version_view :: "nat \<Rightarrow> store_heap \<Rightarrow> store_id \<Rightarrow> address \<rightharpoonup> buffer" where
  "version_view n hp i = cview hp (based_chain n hp i) ++ vview hp i"

lemma version_ok_quiet: "quiet_heap hp hp' \<Longrightarrow> version_ok n hp i \<Longrightarrow> version_ok n hp' i"
  using same_frames_based_chain [of hp hp' n i] quiet_usable_at [of "{}" hp hp']
  by (simp add: version_ok_def quiet_except_def)

lemma version_view_quiet: "quiet_heap hp hp' \<Longrightarrow> version_view n hp' i = version_view n hp i"
  using same_frames_based_chain [of hp hp' n i] quiet_vview [of "{}" hp hp' i] quiet_cview [of "{}" hp hp']
  by (simp add: version_view_def quiet_except_def)

lemma alloc_of_heap: "alloc_of hp i = Some a \<Longrightarrow> \<exists>s. hp i = Some s \<and> vs_allocator s = Some a"
  by (auto simp: alloc_of_def split: bind_splits)

lemma vs_allocate_read:
  assumes ok: "version_ok n hp i" and w: "w \<noteq> 0"
  shows "\<exists>r hp'. vs_allocate h n i w Read hp = Inr (r, w, hp') \<and> quiet_heap hp hp' \<and>
    reads_as i r hp' (version_view n hp i w)"
proof -
  define hp0 where "hp0 = on_store (\<lambda>s. s\<lparr>vs_allocated_version := 0\<rparr>) i hp"
  have q0: "quiet_heap hp hp0" unfolding hp0_def by (rule quiet_stamp)
  note ok0 = version_ok_quiet [OF q0 ok]
  have u0: "usable_at hp0 i" using ok0 by (simp add: version_ok_def)
  obtain a r a1 where s: "get_allocator i hp0 = Inr a" "allocate h w Read a = Inr (r, w, a1)" "usable a1"
    "quiet_heap hp0 (put_allocator i (complete h a1) hp0)" "is_end r \<longleftrightarrow> vview hp0 i w = None"
    "\<forall>x. vview hp0 i w = Some x \<longrightarrow> read_ref r a1 = x"
    by (rule search_step [OF u0 w, of h]) (rule that; assumption)
  obtain t where t: "hp i = Some t" "vs_allocator t \<noteq> None"
    using ok alloc_of_heap [of hp i] by (auto simp: version_ok_def usable_at_def)
  have v0: "vview hp0 i = vview hp i" by (rule quiet_vview [OF q0]) simp
  show ?thesis
  proof (cases "vview hp i w")
    case None
    define hp1 where "hp1 = put_allocator i (complete h a1) hp0"
    have q1: "quiet_heap hp hp1" unfolding hp1_def by (rule quiet_except_trans [OF q0 s(4)])
    have ch: "based_chain n hp1 i = based_chain n hp i" using q1 same_frames_based_chain by (simp add: quiet_except_def)
    have u1: "\<forall>b \<in> set (based_chain n hp1 i). usable_at hp1 b" using version_ok_quiet [OF q1 ok] by (simp add: version_ok_def)
    obtain r' hp' where r': "search_based h i w Read (based_chain n hp1 i) hp1 = Inr (r', w, hp')" "quiet_heap hp1 hp'"
      "reads_as i r' hp' (cview hp1 (based_chain n hp1 i) w)"
      using search_read [OF u1 w, of h i] by blast
    have c: "cview hp1 (based_chain n hp1 i) = cview hp (based_chain n hp i)" using quiet_cview [OF q1] ch by simp
    have "vs_allocate h n i w Read hp = Inr (r', w, hp')"
      using t s(1,2,5) None v0 r'(1) by (simp add: vs_allocate_def deref_def hp0_def [symmetric] hp1_def Let_def)
    then show ?thesis using quiet_except_trans [OF q1 r'(2)] r'(3) None c by (auto simp: version_view_def map_add_def)
  next
    case (Some x)
    define hp2 where "hp2 = on_store (\<lambda>s. s\<lparr>vs_allocated_version := allocated_version a1\<rparr>) i (put_allocator i a1 hp0)"
    have a: "alloc_of hp0 i = Some a" "usable a" using s(1) u0 by (auto simp: get_allocator_eq usable_at_def split: option.splits)
    have "quiet a a1" using quiet_read [OF a(2) w, of h] s(2) by auto
    then have q2: "quiet_heap hp hp2"
      unfolding hp2_def by (rule quiet_except_trans [OF q0 quiet_except_trans [OF quiet_put [OF a(1)] quiet_stamp]])
    have "hp0 i \<noteq> None" using t by (simp add: hp0_def on_store_def)
    then have "alloc_of hp2 i = Some a1" by (auto simp: hp2_def)
    then have "vs_read (Block_ref i r) hp2 = x" using s(6) Some v0 by (simp add: vs_read_def get_allocator_eq)
    then have "reads_as i (Block_ref i r) hp2 (version_view n hp i w)"
      using Some s(5) v0 by (simp add: reads_as_def version_view_def map_add_def)
    moreover have "vs_allocate h n i w Read hp = Inr (Block_ref i r, w, hp2)"
      using t s(1,2,5) Some v0 by (simp add: vs_allocate_def deref_def hp0_def [symmetric] hp2_def Let_def)
    ultimately show ?thesis using q2 by blast
  qed
qed

lemma vs_allocate_write:
  assumes ok: "version_ok n hp i" and w: "w \<noteq> 0" and rw: "hp i = Some t" "\<not> read_only t"
  shows "\<exists>r hp'. vs_allocate h n i w Write hp = Inr (r, w, hp') \<and>
    (case version_view n hp i w of None \<Rightarrow> r = Empty_block i \<and> quiet_heap hp hp' | Some x \<Rightarrow> own_block i w r hp hp' x)"
proof -
  define hp0 where "hp0 = on_store (\<lambda>s. s\<lparr>vs_allocated_version := 0\<rparr>) i hp"
  have q0: "quiet_heap hp hp0" unfolding hp0_def by (rule quiet_stamp)
  note ok0 = version_ok_quiet [OF q0 ok]
  have u: "usable_at hp i" "usable_at hp0 i" using ok ok0 by (simp_all add: version_ok_def)
  obtain a where a: "alloc_of hp0 i = Some a" "usable a" using u(2) by (auto simp: usable_at_def)
  have t: "vs_allocator t \<noteq> None" using u(1) rw alloc_of_heap [of hp i] by (auto simp: usable_at_def)
  have v0: "vview hp i = view a" using a(1) quiet_vview [OF q0, of i] by (simp add: vview_def)
  obtain r a1 where r: "allocate h w Write a = Inr (r, w, a1)" "quiet a a1"
    "case view a w of None \<Rightarrow> r = End_block | Some b \<Rightarrow> r = Cached w \<and> (\<exists>m. m \<noteq> Read \<and> cache a1 w = Some (m, b))"
    using quiet_write [OF a(2) w, of h] by (elim exE conjE)
  have u1: "usable a1" by (rule quiet_usable [OF r(2) a(2)])
  show ?thesis
  proof (cases "view a w")
    case None
    define hp1 where "hp1 = put_allocator i (complete h a1) hp0"
    have q1: "quiet_heap hp hp1" unfolding hp1_def
      by (rule quiet_except_trans [OF q0 quiet_put [OF a(1) quiet_trans [OF r(2) quiet_complete [OF u1]]]])
    have ch: "based_chain n hp1 i = based_chain n hp i" using q1 same_frames_based_chain by (simp add: quiet_except_def)
    have u1: "\<forall>b \<in> set (based_chain n hp1 i). usable_at hp1 b" "usable_at hp1 i" "i \<notin> set (based_chain n hp1 i)"
      using version_ok_quiet [OF q1 ok] by (simp_all add: version_ok_def)
    obtain r' hp' where r': "search_based h i w Write (based_chain n hp1 i) hp1 = Inr (r', w, hp')"
      "case cview hp1 (based_chain n hp1 i) w of None \<Rightarrow> r' = Empty_block i \<and> quiet_heap hp1 hp' | Some x \<Rightarrow> own_block i w r' hp1 hp' x"
      using search_write [OF u1 w, of h] by blast
    have c: "cview hp1 (based_chain n hp1 i) = cview hp (based_chain n hp i)" using quiet_cview [OF q1] ch by simp
    have "vs_allocate h n i w Write hp = Inr (r', w, hp')"
      using rw t a r None r'(1)
      by (simp add: vs_allocate_def deref_def hp0_def [symmetric] hp1_def Let_def get_allocator_eq is_end_def)
    moreover have "case version_view n hp i w of None \<Rightarrow> r' = Empty_block i \<and> quiet_heap hp hp' | Some x \<Rightarrow> own_block i w r' hp hp' x"
      using r'(2) None v0 quiet_except_trans [OF q1] own_block_trans [OF q1 _ u(1)]
      by (auto simp: c version_view_def map_add_def split: option.splits)
    ultimately show ?thesis by blast
  next
    case (Some x)
    then obtain m where m: "r = Cached w" "m \<noteq> Read" "cache a1 w = Some (m, x)" using r(3) by auto
    define hp2 where "hp2 = on_store (\<lambda>s. s\<lparr>vs_allocated_version := allocated_version a1\<rparr>) i (put_allocator i a1 hp0)"
    have q2: "quiet_heap hp hp2" unfolding hp2_def
      by (rule quiet_except_trans [OF q0 quiet_except_trans [OF quiet_put [OF a(1) r(2)] quiet_stamp]])
    have "hp0 i \<noteq> None" using rw by (simp add: hp0_def on_store_def)
    then have al: "alloc_of hp2 i = Some a1" by (auto simp: hp2_def)
    have e: "vs_allocate h n i w Write hp = Inr (Block_ref i (Cached w), w, hp2)"
      using rw t a r(1) m(1) by (simp add: vs_allocate_def deref_def hp0_def [symmetric] hp2_def Let_def get_allocator_eq is_end_def)
    have al0: "alloc_of hp i = Some a" using a(1) by (simp add: hp0_def)
    have vx: "view a1 = (view a)(w \<mapsto> x)" using r(2) Some by (auto simp: quiet_def)
    have k: "kept a a1" "\<And>P. within P a \<Longrightarrow> within P a1" using r(2) by (simp_all add: quiet_def)
    have "own_block i w (Block_ref i (Cached w)) hp hp2 x"
      by (rule own_blockI [OF refl quiet_except_mono [OF q2] al0 al u1 k(1) m(2,3) vx k(2)]) simp_all
    then show ?thesis using e Some v0 by (auto simp: version_view_def map_add_def)
  qed
qed

lemma vs_allocate_create:
  assumes u: "usable_at hp i" and w: "w \<noteq> 0" and rw: "hp i = Some t" "\<not> read_only t"
  shows "\<exists>hp' x. vs_allocate h n i w Create hp = Inr (Block_ref i (Cached w), w, hp') \<and>
    own_block i w (Block_ref i (Cached w)) hp hp' x"
proof -
  define hp0 where "hp0 = on_store (\<lambda>s. s\<lparr>vs_allocated_version := 0\<rparr>) i hp"
  have q0: "quiet_heap hp hp0" unfolding hp0_def by (rule quiet_stamp)
  obtain a where a: "alloc_of hp i = Some a" "usable a" using u by (auto simp: usable_at_def)
  have a0: "alloc_of hp0 i = Some a" using a(1) by (simp add: hp0_def)
  have t: "vs_allocator t \<noteq> None" using a(1) rw alloc_of_heap [of hp i] by auto
  obtain c b m where c: "allocate h w Create a = Inr (Cached w, w, c)" "usable c" "kept a c" "m \<noteq> Read" "cache c w = Some (m, b)"
    "view c = (view a)(w \<mapsto> b)" "\<forall>P. within P a \<longrightarrow> P (alloc_version a) \<longrightarrow> within P c"
    using create_usable [OF a(2) w, of h] by (elim exE conjE)
  define hp' where "hp' = on_store (\<lambda>s. s\<lparr>vs_allocated_version := allocated_version c\<rparr>) i (put_allocator i c hp0)"
  have e: "vs_allocate h n i w Create hp = Inr (Block_ref i (Cached w), w, hp')"
    using rw t a0 c(1) w
    by (simp add: vs_allocate_def deref_def hp0_def [symmetric] hp'_def Let_def local_allocate_def get_allocator_eq)
  have q: "quiet_except {i} hp hp'" unfolding hp'_def
    by (rule quiet_except_trans [OF quiet_except_mono [OF q0] quiet_except_trans [OF put_except quiet_stamp]]) simp
  have "hp0 i \<noteq> None" using rw by (simp add: hp0_def on_store_def)
  then have al: "alloc_of hp' i = Some c" by (auto simp: hp'_def)
  have "own_block i w (Block_ref i (Cached w)) hp hp' b"
    by (rule own_blockI [OF refl q a(1) al c(2-6)]) (use c(7) in blast)
  then show ?thesis using e by blast
qed

lemma vs_allocate_new:
  assumes u: "alloc_of hp i = Some a" "usable a" and rw: "hp i = Some t" "\<not> read_only t"
  shows "\<exists>hp' w. vs_allocate h n i 0 Create hp = Inr (Block_ref i (Cached w), w, hp') \<and> w \<noteq> 0 \<and> next_address a < w \<and>
    own_block i w (Block_ref i (Cached w)) hp hp' []"
proof -
  define hp0 where "hp0 = on_store (\<lambda>s. s\<lparr>vs_allocated_version := 0\<rparr>) i hp"
  have q0: "quiet_heap hp hp0" unfolding hp0_def by (rule quiet_stamp)
  have a0: "alloc_of hp0 i = Some a" using u(1) by (simp add: hp0_def)
  obtain c w where c: "allocate h 0 Create a = Inr (Cached w, w, c)" "usable c" "kept a c" "next_address a < w"
    "cache c w = Some (Create, [])" "view a w = None" "view c = (view a)(w \<mapsto> [])"
    "\<forall>P. within P a \<longrightarrow> P (alloc_version a) \<longrightarrow> within P c"
    using create_fresh [OF u(2), of h] by (elim exE conjE)
  define hp' where "hp' = on_store (\<lambda>s. s\<lparr>vs_allocated_version := allocated_version c\<rparr>) i (put_allocator i c hp0)"
  have e: "vs_allocate h n i 0 Create hp = Inr (Block_ref i (Cached w), w, hp')"
    using rw a0 c(1)
    by (simp add: vs_allocate_def deref_def hp0_def [symmetric] hp'_def Let_def local_allocate_def get_allocator_eq)
  have q: "quiet_except {i} hp hp'" unfolding hp'_def
    by (rule quiet_except_trans [OF quiet_except_mono [OF q0] quiet_except_trans [OF put_except quiet_stamp]]) simp
  have "hp0 i \<noteq> None" using rw by (simp add: hp0_def on_store_def)
  then have al: "alloc_of hp' i = Some c" by (auto simp: hp'_def)
  have cr: "Create \<noteq> Read" by simp
  have "own_block i w (Block_ref i (Cached w)) hp hp' []"
    by (rule own_blockI [OF refl q u(1) al c(2,3) cr c(5,7)]) (use c(8) in blast)
  then show ?thesis using e c(4) by (intro exI [of _ hp'] exI [of _ w]) simp
qed

text \<open>Writing the block and completing.\<close>

lemma own_block_write:
  assumes o: "own_block i w r hp hp1 x0"
  shows "\<exists>hp'. vs_complete h i (vs_write r x hp1) = Inr hp' \<and> own_block i w r hp hp' x"
proof -
  obtain a a1 m where a: "r = Block_ref i (Cached w)" "quiet_except {i} hp hp1" "alloc_of hp i = Some a" "alloc_of hp1 i = Some a1"
    "usable a1" "kept a a1" "m \<noteq> Read" "cache a1 w = Some (m, x0)" "view a1 = (view a)(w \<mapsto> x0)"
    "\<forall>P. within P a \<longrightarrow> P (alloc_version a) \<longrightarrow> within P a1"
    using o unfolding own_block_def by (elim exE conjE)
  define a2 where "a2 = complete h (write_ref (Cached w) x a1)"
  have u: "usable a2" "view a2 = (view a)(w \<mapsto> x)"
    using write_complete_ok [OF a(5,8,7), of h x] a(9) by (simp_all add: a2_def)
  have inv: "store_inv a1" using a(5) by (simp add: usable_def)
  have c: "cache a2 w = Some (m, x)"
    using complete_same [of "write_ref (Cached w) x a1" h] write_ref_ok(3) [OF inv a(8,7), of x] by (simp add: a2_def same_store_def)
  have "kept a1 (write_ref (Cached w) x a1)" by (auto simp: write_ref_def kept_def split: option.splits)
  then have k: "kept a a2" unfolding a2_def by (rule kept_trans [OF a(6) kept_trans [OF _ kept_complete]])
  have wi: "within P a2" if "within P a" "P (alloc_version a)" for P
    unfolding a2_def by (rule within_complete [OF within_write]) (use a(10) that in blast)
  define hp2 where "hp2 = put_allocator i (write_ref (Cached w) x a1) hp1"
  have "hp1 i \<noteq> None" using alloc_of_heap [OF a(4)] by auto
  then have h2: "hp2 i \<noteq> None" "alloc_of hp2 i = Some (write_ref (Cached w) x a1)" by (auto simp: hp2_def)
  have vw: "vs_write r x hp1 = hp2" using a(1,4) by (simp add: vs_write_def get_allocator_eq hp2_def)
  define hp' where "hp' = put_allocator i a2 hp2"
  have e: "vs_complete h i (vs_write r x hp1) = Inr hp'"
    using h2 by (simp add: vw vs_complete_def get_allocator_eq hp'_def a2_def)
  have al: "alloc_of hp' i = Some a2" using h2(1) by (auto simp: hp'_def)
  have q: "quiet_except {i} hp hp'" unfolding hp'_def hp2_def
    by (rule quiet_except_trans [OF a(2) quiet_except_trans [OF put_except put_except]])
  have "own_block i w r hp hp' x" by (rule own_blockI [OF a(1) q a(3) al u(1) k a(7) c u(2) wi])
  then show ?thesis using e by blast
qed

lemma vs_complete_ok:
  assumes "usable_at hp i" shows "\<exists>hp'. vs_complete h i hp = Inr hp' \<and> quiet_heap hp hp'"
proof -
  obtain a where a: "alloc_of hp i = Some a" "usable a" using assms by (auto simp: usable_at_def)
  have "quiet_heap hp (put_allocator i (complete h a) hp)" by (rule quiet_put [OF a(1) quiet_complete [OF a(2)]])
  then show ?thesis using a(1) by (simp add: vs_complete_def get_allocator_eq)
qed

end
