(* ===== verification/Mvcc.thy ===== *)
theory Mvcc
  imports VersionView
begin

text \<open>
  The coordinator of versioned stores: class \<^verbatim>\<open>mvcc_coordinator\<close> of
  \<^verbatim>\<open>src/src/storage/transactions/transactional_storage.h\<close>.  Committed versions form the list
  \<^verbatim>\<open>storages\<close>, oldest first; a transaction is a store based on the last of them.  The versions that
  \<^verbatim>\<open>create_version\<close> makes are arguments.  The coordinator is modelled without a replication
  controller (\<^verbatim>\<open>control\<close> is null); a notifier is the function from the notified resources to its
  answer.  Each operation runs under the coordinator's lock, so it is one step.  The store number 0 is
  the one the constructor makes around \<^verbatim>\<open>initial\<close>.
\<close>

section \<open>Data\<close>

type_synonym resources = "(address \<times> version) list"

record mvcc =
  mv_references :: int
  mv_order :: nat
  active_transactions :: u32
  writing_transactions :: u32
  last_comitted_version :: version
  last_address :: address
  storages :: "store_id list"
  recycler :: "store_id list"
  storage_versions :: "(version \<times> store_id) list"
  recovery :: bool
  journal_synching :: bool
  writing_transaction :: "store_id option"
  mv_local_writes :: bool
  notifiers :: "(resources \<Rightarrow> bool) list"
  heap :: store_heap
  next_id :: store_id

text \<open>
  An operation that throws leaves the coordinator as it was when the exception was thrown; an
  exception from a store leaves it as it was before the store was called.
\<close>

type_synonym 'a mvcc_result = "(store_error \<times> mvcc) + 'a"

definition lift_result :: "mvcc \<Rightarrow> 'a store_result \<Rightarrow> 'a mvcc_result" where
  "lift_result m r = (case r of Inl e \<Rightarrow> Inl (e, m) | Inr x \<Rightarrow> Inr x)"

definition throw :: "store_error \<Rightarrow> mvcc \<Rightarrow> 'a mvcc_result" where
  "throw e m = Inl (e, m)"

definition initial_id :: store_id where
  "initial_id = 0"

definition new_mvcc :: "version \<Rightarrow> sqlite_allocator \<Rightarrow> mvcc" where
  "new_mvcc v a =
     \<lparr>mv_references = 0, mv_order = 1, active_transactions = 0, writing_transactions = 0, last_comitted_version = 0,
      last_address = next_address a, storages = [initial_id], recycler = [], storage_versions = [], recovery = False,
      journal_synching = False, writing_transaction = None, mv_local_writes = True, notifiers = [],
      heap = [initial_id \<mapsto> set_allocator (Some a) (new_version_store (next_address a) 1 v)], next_id = 1\<rparr>"

definition notify_change :: "(resources \<Rightarrow> bool) list \<Rightarrow> resources \<Rightarrow> bool" where
  "notify_change ns rs \<longleftrightarrow> \<not> length (filter (\<lambda>n. n rs) ns) < length ns div 2"

section \<open>Merging idle versions\<close>

text \<open>The first loop of \<^verbatim>\<open>merge_down\<close>: the versions ascend.\<close>

fun clear_all_merged :: "version \<Rightarrow> store_id list \<Rightarrow> store_heap \<Rightarrow> store_heap store_result" where
  "clear_all_merged v [] hp = Inr hp"
| "clear_all_merged v (c # cs) hp =
     bindE (deref c hp) (\<lambda>s.
       if vs_version s \<le> v then Inl Invalid_writer_order
       else clear_all_merged (vs_version s) cs (on_store (\<lambda>s. s\<lparr>merged := False\<rparr>) c hp))"

text \<open>A run of idle versions, latest first: each is moved into the next.\<close>

fun merge_run :: "host \<Rightarrow> store_id \<Rightarrow> store_id list \<Rightarrow> store_heap \<Rightarrow> store_heap store_result" where
  "merge_run h latest [] hp = Inr (on_store (\<lambda>s. s\<lparr>merged := False\<rparr>) latest hp)"
| "merge_run h latest (i # idle) hp =
     bindE (deref latest hp) (\<lambda>l. bindE (deref i hp) (\<lambda>s.
       if vs_version l \<le> vs_version s then Inl Invalid_writer_order
       else if \<not> is_unused s then Inl Invalid_version
       else bindE (vs_move h latest i hp) (\<lambda>hp1.
         merge_run h i idle (on_store (\<lambda>s. s\<lparr>merged := True\<rparr>) latest hp1))))"

definition merge_idle_run :: "host \<Rightarrow> store_id list \<Rightarrow> store_heap \<Rightarrow> store_heap store_result" where
  "merge_idle_run h idle hp = (case idle of [] \<Rightarrow> Inr hp | l # is \<Rightarrow> merge_run h l is hp)"

text \<open>The second loop, from the latest version to the oldest.\<close>

fun merge_idle :: "host \<Rightarrow> store_id list \<Rightarrow> store_id list \<Rightarrow> store_heap \<Rightarrow> store_heap store_result" where
  "merge_idle h idle [] hp = merge_idle_run h idle hp"
| "merge_idle h idle (c # cs) hp =
     bindE (deref c hp) (\<lambda>s.
       if is_unused s then merge_idle h (idle @ [c]) cs hp
       else bindE (merge_idle_run h idle hp) (merge_idle h [] cs))"

text \<open>The third loop drops the merged versions, and commits the others during recovery.\<close>

fun drop_merged ::
    "host \<Rightarrow> bool \<Rightarrow> store_id list \<Rightarrow> store_heap \<times> (version \<times> store_id) list \<Rightarrow>
     (store_id list \<times> store_heap \<times> (version \<times> store_id) list) store_result" where
  "drop_merged h rec [] (hp, sv) = Inr ([], hp, sv)"
| "drop_merged h rec (c # cs) (hp, sv) =
     bindE (deref c hp) (\<lambda>s.
       if merged s then
         if is_unused s then
           bindE (get_allocator c hp) (\<lambda>a.
             drop_merged h rec cs
               (on_store (\<lambda>s. (vs_set_transient True s)\<lparr>based := None\<rparr>) c hp, AList.delete (vs_version s) sv))
         else Inl Invalid_version
       else
         bindE (drop_merged h rec cs
                  (if rec then on_store (\<lambda>s. vs_commit h (vs_begin_new s)) c hp else hp, sv))
           (\<lambda>(kept_ids, hp1, sv1). Inr (c # kept_ids, hp1, sv1)))"

text \<open>The last loop links the versions again and verifies their order.\<close>

fun relink :: "store_id option \<Rightarrow> version list \<Rightarrow> store_id list \<Rightarrow> store_heap \<Rightarrow> store_heap store_result" where
  "relink prev seen [] hp = Inr hp"
| "relink prev seen (c # cs) hp =
     bindE (deref c hp) (\<lambda>s.
       if vs_version s \<in> set seen then Inl Invalid_version
       else
         let hp1 = on_store (\<lambda>s. s\<lparr>based := prev\<rparr>) c hp in
         bindE (case prev of None \<Rightarrow> Inr False | Some p \<Rightarrow> bindE (deref p hp1) (\<lambda>q. Inr (vs_version s \<le> vs_version q)))
           (\<lambda>late. if late then Inl Invalid_writer_order else relink (Some c) (vs_version s # seen) cs hp1))"

definition merge_down :: "host \<Rightarrow> mvcc \<Rightarrow> mvcc mvcc_result" where
  "merge_down h m =
     (if journal_synching m then Inr m
      else if storages m = [] then Inr m
      else lift_result m
        (bindE (clear_all_merged 0 (storages m) (heap m)) (\<lambda>hp1.
         bindE (merge_idle h [] (rev (storages m)) hp1) (\<lambda>hp2.
         bindE (drop_merged h (recovery m) (storages m) (hp2, storage_versions m)) (\<lambda>(ss, hp3, sv).
         bindE (relink None [] ss hp3) (\<lambda>hp4.
           if ss = [] then Inl Invalid_version
           else Inr (m\<lparr>storages := ss, heap := hp4, storage_versions := sv\<rparr>)))))))"

section \<open>Beginning\<close>

text \<open>\<^verbatim>\<open>begin(writer, version, l_version)\<close>: the transaction.\<close>

definition begin_allocator :: "mvcc \<Rightarrow> sqlite_allocator" where
  "begin_allocator m = (set_allocation_start (last_address m) (new_allocator True None))\<lparr>transient := True\<rparr>"

definition mvcc_begin :: "bool \<Rightarrow> version \<Rightarrow> mvcc \<Rightarrow> (store_id \<times> mvcc) mvcc_result" where
  "mvcc_begin writer v m =
     (if writer \<and> writing_transactions m \<noteq> 0 then throw Invalid_writer_order m
      else
        let (b, m1) =
          (if writer \<or> recycler m = [] then
             (next_id m,
              m\<lparr>heap := (heap m)(next_id m \<mapsto>
                   set_allocator (Some (begin_allocator m)) (new_version_store (last_address m) (mv_order m) v)),
                next_id := Suc (next_id m)\<rparr>)
           else (last (recycler m), m\<lparr>recycler := butlast (recycler m)\<rparr>));
            m2 = m1\<lparr>heap := on_store (\<lambda>s. s\<lparr>read_only := \<not> writer\<rparr>) b (heap m1)\<rparr> in
        bindE (lift_result m2 (deref b (heap m2))) (\<lambda>s.
          let m3 = m2\<lparr>storage_versions := AList.update (vs_version s) b (storage_versions m2)\<rparr> in
          if storages m3 \<noteq> [] then
            let hp = fold (on_store add_reader) (storages m3)
                       (on_store (\<lambda>s. s\<lparr>based := Some (last (storages m3))\<rparr>) b (heap m3));
                m4 = m3\<lparr>heap := hp, active_transactions := active_transactions m3 + 1\<rparr> in
            Inr (b, if writer then
                      m4\<lparr>writing_transactions := writing_transactions m4 + 1, writing_transaction := Some b\<rparr>
                    else m4)
          else throw Writer_consistency_violation m3))"

section \<open>Discarding\<close>

fun remove_readers :: "store_id list \<Rightarrow> store_heap \<Rightarrow> store_heap store_result" where
  "remove_readers [] hp = Inr hp"
| "remove_readers (b # bs) hp =
     bindE (deref b hp) (\<lambda>s. bindE (remove_reader s) (\<lambda>s'. remove_readers bs (hp(b \<mapsto> s'))))"

definition lookup_version :: "version \<Rightarrow> mvcc \<Rightarrow> store_id store_result" where
  "lookup_version v m = (case map_of (storage_versions m) v of None \<Rightarrow> Inl Out_of_range | Some i \<Rightarrow> Inr i)"

definition mvcc_discard :: "store_id \<Rightarrow> mvcc \<Rightarrow> mvcc mvcc_result" where
  "mvcc_discard t m =
     bindE (lift_result m (deref t (heap m))) (\<lambda>s.
       let writer = \<not> read_only s;
           m1 = m\<lparr>writing_transactions := if writer then writing_transactions m - 1 else writing_transactions m,
                 active_transactions := active_transactions m - 1\<rparr> in
       if based s = None then throw Invalid_version m1
       else
         bindE (lift_result m1 (get_allocator t (heap m1))) (\<lambda>a.
           let m2 = m1\<lparr>heap := on_store (\<lambda>s. vs_set_transient True (s\<lparr>read_only := True, discard_on_end := True\<rparr>)) t (heap m1)\<rparr> in
           bindE (lift_result m2 (lookup_version (vs_version s) m2)) (\<lambda>version.
             if version \<noteq> t then throw Invalid_version m2
             else
               bindE (lift_result m2 (remove_readers (based_chain (next_id m2) (heap m2) version) (heap m2))) (\<lambda>hp.
                 Inr (m2\<lparr>heap := hp, recycler := if writer then recycler m2 else recycler m2 @ [version],
                        storage_versions := AList.delete (vs_version s) (storage_versions m2)\<rparr>)))))"

section \<open>Committing\<close>

text \<open>\<^verbatim>\<open>commit(transaction)\<close>: the pages written to the journal and the coordinator.\<close>

definition mvcc_commit :: "host \<Rightarrow> store_id \<Rightarrow> mvcc \<Rightarrow> ((address \<times> buffer) list \<times> mvcc) mvcc_result" where
  "mvcc_commit h t m =
     bindE (lift_result m (deref t (heap m))) (\<lambda>s.
       if read_only s then throw Invalid_transaction_type m
       else if vs_version s \<le> last_comitted_version m then throw Invalid_version (m\<lparr>last_comitted_version := 0\<rparr>)
       else if active_transactions m = 0 then bindE (mvcc_discard t m) (throw Invalid_writer_order)
       else if vs_modified s \<and> vs_order s < mv_order m then bindE (mvcc_discard t m) (throw Invalid_writer_order)
       else
         bindE (lift_result m (lookup_version (vs_version s) m)) (\<lambda>version.
         bindE (lift_result m (if \<not> recovery m \<and> mv_local_writes m then vs_journal h t (heap m) else Inr ([], heap m)))
           (\<lambda>(pages, hp0).
         let m1 = m\<lparr>heap := on_store (\<lambda>s. s\<lparr>read_only := True\<rparr>) version hp0,
                   active_transactions := active_transactions m - 1,
                   writing_transactions := writing_transactions m - 1\<rparr> in
         bindE (lift_result m1 (get_allocator version (heap m1))) (\<lambda>a.
         bindE (lift_result m1 (deref version (heap m1))) (\<lambda>s1.
         let m2 = m1\<lparr>last_address := max (last_address m1) (next_address a)\<rparr> in
         case based s1 of
           None \<Rightarrow> throw Writer_consistency_violation m2
         | Some prev \<Rightarrow>
             if prev \<noteq> last (storages m2) then throw Concurrent_writer_error m2
             else
               bindE (lift_result m2 (remove_readers (based_chain (next_id m2) (heap m2) version) (heap m2))) (\<lambda>hp1.
               bindE (merge_down h
                        (m2\<lparr>heap := hp1, storages := storages m2 @ [version], last_comitted_version := vs_version s,
                           mv_order := Suc (mv_order m2)\<rparr>))
                 (\<lambda>m3. Inr (pages, m3))))))))"

text \<open>\<^verbatim>\<open>merge(transaction)\<close>; \<open>v\<close> is the version it creates for what the transaction does next.\<close>

definition mvcc_merge :: "host \<Rightarrow> version \<Rightarrow> store_id \<Rightarrow> mvcc \<Rightarrow> ((address \<times> buffer) list \<times> mvcc) mvcc_result" where
  "mvcc_merge h v t m =
     bindE (lift_result m (deref t (heap m))) (\<lambda>s.
       if read_only s then throw Invalid_transaction_type m
       else if writing_transaction m \<noteq> Some t then throw Invalid_writer_order m
       else if vs_version s \<le> last_comitted_version m then throw Invalid_version (m\<lparr>last_comitted_version := 0\<rparr>)
       else
         bindE (lift_result m (lookup_version (vs_version s) m)) (\<lambda>version.
         bindE (lift_result m (if \<not> recovery m \<and> mv_local_writes m then vs_journal h t (heap m) else Inr ([], heap m)))
           (\<lambda>(pages, hp0).
         let m0 = m\<lparr>heap := hp0\<rparr> in
         if active_transactions m0 = 0 then bindE (mvcc_discard t m0) (throw Invalid_writer_order)
         else
         bindE (lift_result m0 (deref t hp0)) (\<lambda>s0.
         bindE (lift_result m0 (get_allocator t hp0)) (\<lambda>ta.
         if vs_modified s0 \<and> vs_order s0 < mv_order m0 then bindE (mvcc_discard t m0) (throw Invalid_writer_order)
         else
         bindE (lift_result m0 (get_allocator version hp0)) (\<lambda>a.
         bindE (lift_result m0 (deref version hp0)) (\<lambda>s1.
         let m1 = m0\<lparr>last_address := max (last_address m0) (next_address a)\<rparr> in
         case based s1 of
           None \<Rightarrow> throw Writer_consistency_violation m1
         | Some prev \<Rightarrow>
             if prev \<noteq> last (storages m1) then throw Concurrent_writer_error m1
             else if storages m1 = [] then throw Writer_consistency_violation m1
             else if \<not> notify_change (notifiers m1) (get_modified_descriptors a) then throw Replication_failure m1
             else
               let m2 = m1\<lparr>last_comitted_version := vs_version s0\<rparr> in
               bindE (lift_result m2 (vs_move h version (last (storages m2)) (heap m2))) (\<lambda>hp1.
                 let m3 = m2\<lparr>heap := on_store (\<lambda>s. set_version v (s\<lparr>vs_order := Suc (mv_order m2)\<rparr>)) t hp1,
                            mv_order := Suc (mv_order m2),
                            storage_versions := AList.delete (vs_version s1) (storage_versions m2)\<rparr> in
                 bindE (lift_result m3 (deref version (heap m3))) (\<lambda>s3.
                   Inr (pages, m3\<lparr>storage_versions := AList.update (vs_version s3) version (storage_versions m3)\<rparr>))))))))))"

section \<open>Journal participation and maintenance\<close>

fun each_storage :: "(version_store \<Rightarrow> version_store) \<Rightarrow> store_id list \<Rightarrow> store_heap \<Rightarrow> store_heap store_result" where
  "each_storage f [] hp = Inr hp"
| "each_storage f (c # cs) hp = bindE (get_allocator c hp) (\<lambda>a. each_storage f cs (on_store f c hp))"

definition journal_commit :: "host \<Rightarrow> mvcc \<Rightarrow> mvcc mvcc_result" where
  "journal_commit h m =
     bindE (lift_result m (each_storage (\<lambda>s. vs_commit h (vs_begin_new (vs_set_transient False s))) (storages m) (heap m)))
       (\<lambda>hp. Inr (m\<lparr>heap := hp\<rparr>))"

definition make_singular :: "host \<Rightarrow> mvcc \<Rightarrow> (bool \<times> mvcc) mvcc_result" where
  "make_singular h m = bindE (merge_down h m) (\<lambda>m1. Inr (length (storages m1) = 1, m1))"

definition mvcc_reduce :: "host \<Rightarrow> mvcc \<Rightarrow> mvcc mvcc_result" where
  "mvcc_reduce h m =
     bindE (lift_result m (each_storage (with_allocator (reduce_perm h)) (storages m) (heap m))) (\<lambda>hp. Inr (m\<lparr>heap := hp\<rparr>))"

definition journal_synch_start :: "mvcc \<Rightarrow> mvcc" where
  "journal_synch_start m = m\<lparr>journal_synching := True\<rparr>"

definition journal_synch_end :: "host \<Rightarrow> mvcc \<Rightarrow> mvcc mvcc_result" where
  "journal_synch_end h m = mvcc_reduce h (m\<lparr>journal_synching := False\<rparr>)"

definition mvcc_engage :: "mvcc \<Rightarrow> mvcc" where
  "mvcc_engage m =
     (if mv_references m = 0 then m\<lparr>heap := on_store (with_allocator engage) initial_id (heap m), mv_references := 1\<rparr>
      else m\<lparr>mv_references := mv_references m + 1\<rparr>)"

definition mvcc_release :: "host \<Rightarrow> mvcc \<Rightarrow> mvcc" where
  "mvcc_release h m =
     (let m1 = m\<lparr>mv_references := mv_references m - 1\<rparr> in
      if mv_references m1 = 0 \<and> length (storages m1) = 1
      then m1\<lparr>heap := on_store (with_allocator (release h)) initial_id (heap m1)\<rparr> else m1)"

definition is_idle :: "mvcc \<Rightarrow> bool" where
  "is_idle m \<longleftrightarrow> mv_references m = 0 \<and> active_transactions m = 0"

definition mvcc_notify_changes :: "host \<Rightarrow> resources \<Rightarrow> mvcc \<Rightarrow> mvcc mvcc_result" where
  "mvcc_notify_changes h rs m =
     bindE (lift_result m (each_storage (with_allocator (release_stale_resource_states h rs)) (storages m) (heap m)))
       (\<lambda>hp. Inr (m\<lparr>heap := hp\<rparr>))"

fun latest_of :: "address \<Rightarrow> version \<Rightarrow> store_id list \<Rightarrow> store_heap \<Rightarrow> (version \<times> store_heap) store_result" where
  "latest_of w latest [] hp = Inr (latest, hp)"
| "latest_of w latest (c # cs) hp =
     bindE (vs_get_latest_version c w hp) (\<lambda>(v, hp1). latest_of w (if latest < v then v else latest) cs hp1)"

definition mvcc_get_latest_version :: "address \<Rightarrow> mvcc \<Rightarrow> (version \<times> mvcc) mvcc_result" where
  "mvcc_get_latest_version w m =
     bindE (lift_result m (latest_of w 0 (storages m) (heap m))) (\<lambda>(v, hp). Inr (v, m\<lparr>heap := hp\<rparr>))"

fun latest_in :: "address \<Rightarrow> version \<Rightarrow> store_id list \<Rightarrow> store_heap \<Rightarrow> (bool \<times> store_heap) store_result" where
  "latest_in w v [] hp = Inr (True, hp)"
| "latest_in w v (c # cs) hp =
     bindE (vs_is_latest c w v hp) (\<lambda>(l, hp1). if \<not> l then Inr (False, hp1) else latest_in w v cs hp1)"

definition mvcc_is_latest :: "address \<Rightarrow> version \<Rightarrow> mvcc \<Rightarrow> (bool \<times> mvcc) mvcc_result" where
  "mvcc_is_latest w v m =
     bindE (lift_result m (latest_in w v (storages m) (heap m))) (\<lambda>(l, hp). Inr (l, m\<lparr>heap := hp\<rparr>))"

end
