(* ===== verification/MvccInv.thy ===== *)
theory MvccInv
  imports Mvcc
begin

text \<open>The invariant of the coordinator and the database it implements.\<close>

section \<open>The versions of a store\<close>

definition vset :: "sqlite_allocator \<Rightarrow> version set" where
  "vset a = insert (alloc_version a) (desc_version ` snd ` set (allocations a) \<union>
     (fst \<circ> snd) ` set (the_rows (session a)) \<union> (fst \<circ> snd) ` set (the_rows (file_rows a)))"

lemma vset_within: "(\<forall>v \<in> vset a. P v) \<longleftrightarrow> within P a \<and> P (alloc_version a)"
  by (force simp: vset_def within_def)

lemma finite_vset [simp]: "finite (vset a)"
  by (simp add: vset_def)

lemma alloc_version_vset [simp]: "alloc_version a \<in> vset a"
  by (simp add: vset_def)

lemma vset_mono:
  assumes "kept a a'" "\<And>P. within P a \<Longrightarrow> P (alloc_version a) \<Longrightarrow> within P a'" shows "vset a' \<subseteq> vset a"
proof -
  have "within (\<lambda>v. v \<in> vset a) a" using vset_within [of a "\<lambda>v. v \<in> vset a"] by blast
  then have "within (\<lambda>v. v \<in> vset a) a'" using assms(2) [of "\<lambda>v. v \<in> vset a"] by simp
  moreover have "alloc_version a' = alloc_version a" using assms(1) by (simp add: kept_def)
  ultimately have "\<forall>v \<in> vset a'. v \<in> vset a" using vset_within [of a' "\<lambda>v. v \<in> vset a"] by simp
  then show ?thesis by blast
qed

lemma vset_quiet: "quiet a a' \<Longrightarrow> vset a' \<subseteq> vset a"
  by (rule vset_mono) (simp_all add: quiet_def)

section \<open>Chains\<close>

text \<open>The stores of a version are linked to their predecessors.\<close>

fun linked :: "store_heap \<Rightarrow> store_id option \<Rightarrow> store_id list \<Rightarrow> bool" where
  "linked hp p [] = True"
| "linked hp p (c # cs) = (hp c \<noteq> None \<and> based (the (hp c)) = p \<and> linked hp (Some c) cs)"

lemma linked_append:
  "linked hp p (xs @ ys) \<longleftrightarrow> linked hp p xs \<and> linked hp (if xs = [] then p else Some (last xs)) ys"
  by (induction xs arbitrary: p) auto

text \<open>The part of a list up to an element.\<close>

definition reach :: "store_id list \<Rightarrow> store_id \<Rightarrow> store_id list" where
  "reach ss b = takeWhile (\<lambda>x. x \<noteq> b) ss @ [b]"

lemma reach_prefix: "b \<in> set ss \<Longrightarrow> \<exists>ys. ss = reach ss b @ ys"
proof (induction ss)
  case (Cons x ss)
  then show ?case by (cases "x = b") (auto simp: reach_def)
qed simp

lemma reach_append [simp]: "b \<in> set xs \<Longrightarrow> reach (xs @ ys) b = reach xs b"
  by (simp add: reach_def takeWhile_append1)

lemma reach_last: "distinct (xs @ [b]) \<Longrightarrow> reach (xs @ [b]) b = xs @ [b]"
  by (simp add: reach_def) (subst takeWhile_append2; auto)

lemma set_reach: "b \<in> set ss \<Longrightarrow> set (reach ss b) \<subseteq> set ss"
  by (auto simp: reach_def dest: set_takeWhileD)

lemma linked_chain:
  "linked hp None ss \<Longrightarrow> distinct ss \<Longrightarrow> b \<in> set ss \<Longrightarrow> length ss \<le> n \<Longrightarrow> chain n hp (Some b) = rev (reach ss b)"
proof (induction ss arbitrary: b n rule: rev_induct)
  case (snoc x xs)
  have l: "linked hp None xs" "hp x \<noteq> None" "based (the (hp x)) = (if xs = [] then None else Some (last xs))"
    using snoc.prems(1) by (simp_all add: linked_append)
  show ?case
  proof (cases "b \<in> set xs")
    case True
    then show ?thesis using snoc.IH [OF l(1), of b n] snoc.prems by simp
  next
    case False
    then have b: "b = x" using snoc.prems(3) by simp
    obtain k where n: "n = Suc k" "length xs \<le> k" using snoc.prems(4) by (cases n) auto
    obtain s where s: "hp x = Some s" using l(2) by auto
    have r: "reach (xs @ [x]) x = xs @ [x]" by (rule reach_last) (use snoc.prems(2) in simp)
    show ?thesis
    proof (cases "xs = []")
      case True
      then show ?thesis using l(3) s by (simp add: b n(1) reach_def)
    next
      case ne: False
      then obtain ys z where z: "xs = ys @ [z]" by (metis append_butlast_last_id)
      have "chain k hp (Some z) = rev (reach xs z)" using snoc.IH [OF l(1) _ _ n(2), of z] snoc.prems(2) z by simp
      also have "reach xs z = xs" unfolding z by (rule reach_last) (use snoc.prems(2) z in simp)
      finally have "chain k hp (based s) = rev xs" using l(3) s z by simp
      then show ?thesis using s r by (simp add: b n(1))
    qed
  qed
qed simp

lemma distinct_bounded: "distinct ss \<Longrightarrow> set ss \<subseteq> {..<n} \<Longrightarrow> length ss \<le> n" for ss :: "nat list"
  by (metis card_lessThan card_mono distinct_card finite_lessThan)

section \<open>The invariant\<close>

definition actives :: "mvcc \<Rightarrow> store_id list" where
  "actives m = filter (\<lambda>t. t \<notin> set (storages m)) (map snd (storage_versions m))"

definition base :: "store_heap \<Rightarrow> store_id \<Rightarrow> store_id" where
  "base hp t = the (based (the (hp t)))"

definition older :: "store_heap \<Rightarrow> store_id \<Rightarrow> store_id \<Rightarrow> bool" where
  "older hp i j \<longleftrightarrow> (\<forall>x \<in> vset (the (alloc_of hp i)). \<forall>y \<in> vset (the (alloc_of hp j)). x < y)"

definition store_ok :: "nat \<Rightarrow> store_heap \<Rightarrow> store_id \<Rightarrow> bool" where
  "store_ok n hp i \<longleftrightarrow> i < n \<and> hp i \<noteq> None \<and> usable_at hp i \<and> 0 < vs_version (the (hp i)) \<and>
     alloc_version (the (alloc_of hp i)) = vs_version (the (hp i))"

definition stores_inv :: "mvcc \<Rightarrow> bool" where
  "stores_inv m \<longleftrightarrow>
     (\<forall>i \<in> set (storages m) \<union> set (actives m) \<union> set (recycler m). store_ok (next_id m) (heap m) i) \<and>
     (\<forall>i. next_id m \<le> i \<longrightarrow> heap m i = None) \<and>
     storages m \<noteq> [] \<and> distinct (storages m) \<and> linked (heap m) None (storages m) \<and>
     sorted_wrt (older (heap m)) (storages m) \<and> (\<forall>b \<in> set (tl (storages m)). opened (the (alloc_of (heap m) b)))"

definition names_inv :: "mvcc \<Rightarrow> bool" where
  "names_inv m \<longleftrightarrow>
     distinct (map fst (storage_versions m)) \<and> distinct (map snd (storage_versions m)) \<and>
     (\<forall>(v, i) \<in> set (storage_versions m). vs_version (the (heap m i)) = v) \<and>
     (\<forall>c \<in> set (tl (storages m)). c \<in> snd ` set (storage_versions m)) \<and>
     hd (storages m) \<notin> snd ` set (storage_versions m) \<and>
     distinct (recycler m) \<and> set (recycler m) \<inter> (set (storages m) \<union> snd ` set (storage_versions m)) = {} \<and>
     (\<forall>r \<in> set (recycler m). vs_version (the (heap m r)) \<notin> fst ` set (storage_versions m) \<and>
        vview (heap m) r = Map.empty \<and> read_only (the (heap m r))) \<and>
     inj_on (\<lambda>r. vs_version (the (heap m r))) (set (recycler m))"

definition txns_inv :: "mvcc \<Rightarrow> bool" where
  "txns_inv m \<longleftrightarrow>
     (\<forall>t \<in> set (actives m). \<exists>b. based (the (heap m t)) = Some b \<and> b \<in> set (storages m)) \<and>
     (\<forall>b \<in> set (storages m). readers (the (heap m b)) =
        length (filter (\<lambda>t. b \<in> set (reach (storages m) (base (heap m) t))) (actives m))) \<and>
     active_transactions m = of_nat (length (actives m)) \<and> length (actives m) < 2 ^ 32 \<and>
     writing_transactions m = of_nat (length (filter (\<lambda>t. \<not> read_only (the (heap m t))) (actives m))) \<and>
     length (filter (\<lambda>t. \<not> read_only (the (heap m t))) (actives m)) \<le> 1 \<and>
     (\<forall>t \<in> set (actives m). if read_only (the (heap m t)) then vview (heap m) t = Map.empty
        else base (heap m) t = last (storages m) \<and> (\<forall>b \<in> set (storages m). older (heap m) b t) \<and>
          opened (the (alloc_of (heap m) t)) \<and> vs_order (the (heap m t)) = mv_order m \<and> readers (the (heap m t)) = 0 \<and>
          last_comitted_version m < vs_version (the (heap m t)) \<and>
          last_address m \<le> next_address (the (alloc_of (heap m) t))) \<and>
     (\<forall>w \<in> dom (cview (heap m) (rev (storages m))). w \<le> last_address m) \<and> \<not> recovery m \<and> mv_local_writes m"

definition mvcc_inv :: "mvcc \<Rightarrow> bool" where
  "mvcc_inv m \<longleftrightarrow> stores_inv m \<and> names_inv m \<and> txns_inv m"

section \<open>Changes to blocks\<close>

lemma frames_the:
  assumes "same_frames hp hp'"
  shows "based (the (hp' i)) = based (the (hp i))" "vs_version (the (hp' i)) = vs_version (the (hp i))"
    "readers (the (hp' i)) = readers (the (hp i))" "vs_order (the (hp' i)) = vs_order (the (hp i))"
    "read_only (the (hp' i)) = read_only (the (hp i))" "(hp' i = None) = (hp i = None)"
proof -
  have "rel_option same_frame (hp i) (hp' i)" using assms by (simp add: same_frames_def)
  then show "based (the (hp' i)) = based (the (hp i))" "vs_version (the (hp' i)) = vs_version (the (hp i))"
    "readers (the (hp' i)) = readers (the (hp i))" "vs_order (the (hp' i)) = vs_order (the (hp i))"
    "read_only (the (hp' i)) = read_only (the (hp i))" "(hp' i = None) = (hp i = None)"
    by (cases rule: option.rel_cases; simp add: same_frame_def)+
qed

lemma frames_linked: "same_frames hp hp' \<Longrightarrow> linked hp' p ss = linked hp p ss"
  by (induction ss arbitrary: p) (simp_all add: frames_the)

lemma frames_base: "same_frames hp hp' \<Longrightarrow> base hp' t = base hp t"
  by (simp add: base_def frames_the)

text \<open>A store whose allocator changed without new versions.\<close>

definition steady :: "sqlite_allocator \<Rightarrow> sqlite_allocator \<Rightarrow> bool" where
  "steady a a' \<longleftrightarrow> alloc_version a' = alloc_version a \<and> next_address a \<le> next_address a' \<and> (opened a \<longrightarrow> opened a')"

lemma kept_steady: "kept a a' \<Longrightarrow> steady a a'"
  by (simp add: kept_def steady_def)

definition tamed :: "store_heap \<Rightarrow> store_heap \<Rightarrow> store_id \<Rightarrow> bool" where
  "tamed hp hp' i \<longleftrightarrow> (\<exists>a a'. alloc_of hp i = Some a \<and> alloc_of hp' i = Some a' \<and> usable a' \<and> steady a a' \<and> vset a' \<subseteq> vset a)"

lemma tamed_store_ok: "same_frames hp hp' \<Longrightarrow> tamed hp hp' i \<Longrightarrow> store_ok n hp i \<Longrightarrow> store_ok n hp' i"
  by (auto simp: store_ok_def tamed_def frames_the usable_at_def steady_def)

lemma tamed_older: "tamed hp hp' i \<Longrightarrow> tamed hp hp' j \<Longrightarrow> older hp i j \<Longrightarrow> older hp' i j"
  unfolding older_def tamed_def by (metis option.sel subsetD)

lemma tamed_opened: "tamed hp hp' i \<Longrightarrow> opened (the (alloc_of hp i)) \<Longrightarrow> opened (the (alloc_of hp' i))"
  by (auto simp: tamed_def steady_def)

lemma tamed_next: "tamed hp hp' i \<Longrightarrow> next_address (the (alloc_of hp i)) \<le> next_address (the (alloc_of hp' i))"
  by (auto simp: tamed_def steady_def)

lemma tamed_quiet: "quiet_except X hp hp' \<Longrightarrow> i \<notin> X \<Longrightarrow> usable_at hp i \<Longrightarrow> tamed hp hp' i"
proof -
  assume "quiet_except X hp hp'" "i \<notin> X" and u: "usable_at hp i"
  then have "rel_option quiet (alloc_of hp i) (alloc_of hp' i)" by (simp add: quiet_except_def)
  then show ?thesis using u
  proof (cases rule: option.rel_cases)
    case (Some a a')
    then show ?thesis using u vset_quiet [of a a'] by (auto simp: tamed_def usable_at_def quiet_def kept_steady)
  qed (simp add: usable_at_def)
qed

lemma sorted_wrt_older:
  "sorted_wrt (older hp) ss \<Longrightarrow> (\<And>i. i \<in> set ss \<Longrightarrow> tamed hp hp' i) \<Longrightarrow> sorted_wrt (older hp') ss"
  by (induction ss) (auto intro: tamed_older)

lemma actives_heap [simp]: "actives (m\<lparr>heap := hp\<rparr>) = actives m"
  by (simp add: actives_def)

lemma stores_inv_tamed:
  assumes inv: "stores_inv m" and f: "same_frames (heap m) hp'"
    and t: "\<And>i. i \<in> set (storages m) \<union> set (actives m) \<union> set (recycler m) \<Longrightarrow> tamed (heap m) hp' i"
  shows "stores_inv (m\<lparr>heap := hp'\<rparr>)"
proof -
  have "\<forall>i \<in> set (storages m) \<union> set (actives m) \<union> set (recycler m). store_ok (next_id m) hp' i"
    using inv tamed_store_ok [OF f t] unfolding stores_inv_def by blast
  moreover have "sorted_wrt (older hp') (storages m)"
    by (rule sorted_wrt_older [of "heap m"]) (use inv t in \<open>auto simp: stores_inv_def\<close>)
  moreover have "opened (the (alloc_of hp' b))" if "b \<in> set (tl (storages m))" for b
    by (rule tamed_opened [OF t]) (use inv that in \<open>auto simp: stores_inv_def dest: list.set_sel(2) [rotated]\<close>)
  ultimately show ?thesis
    using inv frames_the(6) [OF f] frames_linked [OF f] by (simp add: stores_inv_def)
qed

lemma names_inv_tamed:
  assumes inv: "names_inv m" and f: "same_frames (heap m) hp'"
    and v: "\<And>i. i \<in> set (recycler m) \<Longrightarrow> vview hp' i = vview (heap m) i"
  shows "names_inv (m\<lparr>heap := hp'\<rparr>)"
  using inv v unfolding names_inv_def by (simp add: frames_the [OF f])

lemma txns_inv_tamed:
  assumes inv: "txns_inv m" and f: "same_frames (heap m) hp'"
    and t: "\<And>i. i \<in> set (storages m) \<union> set (actives m) \<Longrightarrow> tamed (heap m) hp' i"
    and v: "\<And>i. i \<in> set (storages m) \<Longrightarrow> vview hp' i = vview (heap m) i"
      "\<And>i. i \<in> set (actives m) \<Longrightarrow> read_only (the (heap m i)) \<Longrightarrow> vview hp' i = vview (heap m) i"
  shows "txns_inv (m\<lparr>heap := hp'\<rparr>)"
proof -
  have c: "cview hp' (rev (storages m)) = cview (heap m) (rev (storages m))" by (rule cview_cong) (simp add: v(1))
  have "if read_only (the (hp' i)) then vview hp' i = Map.empty
        else base hp' i = last (storages m) \<and> (\<forall>b \<in> set (storages m). older hp' b i) \<and>
          opened (the (alloc_of hp' i)) \<and> vs_order (the (hp' i)) = mv_order m \<and> readers (the (hp' i)) = 0 \<and>
          last_comitted_version m < vs_version (the (hp' i)) \<and>
          last_address m \<le> next_address (the (alloc_of hp' i))" if i: "i \<in> set (actives m)" for i
  proof (cases "read_only (the (heap m i))")
    case True
    then show ?thesis using inv i v(2) unfolding txns_inv_def by (simp add: frames_the [OF f])
  next
    case False
    have ti: "tamed (heap m) hp' i" using t i by simp
    have w: "base (heap m) i = last (storages m)" "\<forall>b \<in> set (storages m). older (heap m) b i" "opened (the (alloc_of (heap m) i))"
      "vs_order (the (heap m i)) = mv_order m" "last_comitted_version m < vs_version (the (heap m i))"
      "last_address m \<le> next_address (the (alloc_of (heap m) i))" "readers (the (heap m i)) = 0"
      using inv i False unfolding txns_inv_def by auto
    have "\<forall>b \<in> set (storages m). older hp' b i" using w(2) tamed_older [OF t ti] by auto
    then show ?thesis
      using False w tamed_opened [OF ti] order.trans [OF w(6) tamed_next [OF ti]]
      by (simp add: frames_the [OF f] frames_base [OF f])
  qed
  then show ?thesis using inv c unfolding txns_inv_def by (simp add: frames_the [OF f] frames_base [OF f])
qed

lemma mvcc_inv_quiet:
  assumes inv: "mvcc_inv m" and q: "quiet_heap (heap m) hp'" shows "mvcc_inv (m\<lparr>heap := hp'\<rparr>)"
proof -
  have s: "stores_inv m" "names_inv m" "txns_inv m" using inv by (simp_all add: mvcc_inv_def)
  have f: "same_frames (heap m) hp'" using q by (simp add: quiet_except_def)
  have v: "vview hp' i = vview (heap m) i" for i by (rule quiet_vview [OF q]) simp
  have t: "tamed (heap m) hp' i" if "i \<in> set (storages m) \<union> set (actives m) \<union> set (recycler m)" for i
    by (rule tamed_quiet [OF q]) (use s(1) that in \<open>auto simp: stores_inv_def store_ok_def\<close>)
  show ?thesis
    unfolding mvcc_inv_def using stores_inv_tamed [OF s(1) f t] names_inv_tamed [OF s(2) f v] txns_inv_tamed [OF s(3) f t v v] by simp
qed

lemma mvcc_inv_own:
  assumes inv: "mvcc_inv m" and t: "t \<in> set (actives m)" "\<not> read_only (the (heap m t))"
    and o: "own_block t w r (heap m) hp' x"
  shows "mvcc_inv (m\<lparr>heap := hp'\<rparr>)"
proof -
  have s: "stores_inv m" "names_inv m" "txns_inv m" using inv by (simp_all add: mvcc_inv_def)
  obtain a a' where a: "quiet_except {t} (heap m) hp'" "alloc_of (heap m) t = Some a" "alloc_of hp' t = Some a'" "usable a'" "kept a a'"
    "\<forall>P. within P a \<longrightarrow> P (alloc_version a) \<longrightarrow> within P a'"
    using o unfolding own_block_def by (elim exE conjE)
  have f: "same_frames (heap m) hp'" using a(1) by (simp add: quiet_except_def)
  have v: "vview hp' i = vview (heap m) i" if "i \<noteq> t" for i by (rule quiet_vview [OF a(1)]) (use that in simp)
  have "vset a' \<subseteq> vset a" using vset_mono [OF a(5)] a(6) by blast
  then have "tamed (heap m) hp' t" using a by (auto simp: tamed_def kept_steady)
  then have t': "tamed (heap m) hp' i" if "i \<in> set (storages m) \<union> set (actives m) \<union> set (recycler m)" for i
    using tamed_quiet [OF a(1), of i] s(1) that by (cases "i = t") (auto simp: stores_inv_def store_ok_def)
  have nt: "t \<notin> set (storages m)" "t \<notin> set (recycler m)"
    using t(1) s(2) by (auto simp: actives_def names_inv_def)
  show ?thesis
    unfolding mvcc_inv_def
  proof (intro conjI)
    show "stores_inv (m\<lparr>heap := hp'\<rparr>)" by (rule stores_inv_tamed [OF s(1) f t'])
    show "names_inv (m\<lparr>heap := hp'\<rparr>)" by (rule names_inv_tamed [OF s(2) f], rule v) (use nt in auto)
    show "txns_inv (m\<lparr>heap := hp'\<rparr>)" by (rule txns_inv_tamed [OF s(3) f t' v v]) (use nt t(2) in auto)
  qed
qed

end
