(* ===== verification/MvccBegin.thy ===== *)
theory MvccBegin
  imports MvccInv
begin

text \<open>Beginning a transaction, and reading and writing in it.\<close>

section \<open>The database\<close>

record txn =
  snap :: "address \<rightharpoonup> buffer"
  own :: "address \<rightharpoonup> buffer"
  writing :: bool

record database =
  committed :: "address \<rightharpoonup> buffer"
  txns :: "store_id \<rightharpoonup> txn"

definition txn_of :: "mvcc \<Rightarrow> store_id \<Rightarrow> txn" where
  "txn_of m t = \<lparr>snap = cview (heap m) (rev (reach (storages m) (base (heap m) t))), own = vview (heap m) t,
     writing = (\<not> read_only (the (heap m t)))\<rparr>"

definition db :: "mvcc \<Rightarrow> database" where
  "db m = \<lparr>committed = cview (heap m) (rev (storages m)),
     txns = (\<lambda>t. if t \<in> set (actives m) then Some (txn_of m t) else None)\<rparr>"

section \<open>What the invariant says of a transaction\<close>

lemma mvcc_invD:
  assumes "mvcc_inv m"
  shows "storages m \<noteq> []" "distinct (storages m)" "linked (heap m) None (storages m)" "length (storages m) \<le> next_id m"
    "\<And>i. i \<in> set (storages m) \<union> set (actives m) \<union> set (recycler m) \<Longrightarrow> store_ok (next_id m) (heap m) i"
proof -
  have s: "stores_inv m" using assms by (simp add: mvcc_inv_def)
  then show "storages m \<noteq> []" "distinct (storages m)" "linked (heap m) None (storages m)"
    "\<And>i. i \<in> set (storages m) \<union> set (actives m) \<union> set (recycler m) \<Longrightarrow> store_ok (next_id m) (heap m) i"
    by (auto simp: stores_inv_def)
  show "length (storages m) \<le> next_id m" using s by (intro distinct_bounded) (auto simp: stores_inv_def store_ok_def)
qed

lemma active_based:
  assumes "mvcc_inv m" "t \<in> set (actives m)"
  shows "based (the (heap m t)) = Some (base (heap m) t)" "base (heap m) t \<in> set (storages m)" "t \<notin> set (storages m)"
    "heap m t \<noteq> None"
proof -
  have "txns_inv m" using assms(1) by (simp add: mvcc_inv_def)
  then obtain b where b: "based (the (heap m t)) = Some b" "b \<in> set (storages m)" using assms(2) unfolding txns_inv_def by blast
  then show "based (the (heap m t)) = Some (base (heap m) t)" "base (heap m) t \<in> set (storages m)" by (simp_all add: base_def)
  show "t \<notin> set (storages m)" using assms(2) by (simp add: actives_def)
  have "store_ok (next_id m) (heap m) t" using mvcc_invD(5) [OF assms(1)] assms(2) by simp
  then show "heap m t \<noteq> None" by (simp add: store_ok_def)
qed

lemma active_chain:
  assumes "mvcc_inv m" "t \<in> set (actives m)"
  shows "based_chain (next_id m) (heap m) t = rev (reach (storages m) (base (heap m) t))"
proof -
  note a = active_based [OF assms]
  have "chain (next_id m) (heap m) (Some (base (heap m) t)) = rev (reach (storages m) (base (heap m) t))"
    by (rule linked_chain [OF mvcc_invD(3,2) [OF assms(1)] a(2) mvcc_invD(4) [OF assms(1)]])
  then show ?thesis using a(1,4) by (auto simp: based_chain_def)
qed

lemma active_version_ok:
  assumes "mvcc_inv m" "t \<in> set (actives m)"
  shows "version_ok (next_id m) (heap m) t" "version_view (next_id m) (heap m) t = snap (txn_of m t) ++ own (txn_of m t)"
proof -
  note a = active_based [OF assms] and c = active_chain [OF assms]
  have "set (based_chain (next_id m) (heap m) t) \<subseteq> set (storages m)" using set_reach [OF a(2)] by (simp add: c)
  then show "version_ok (next_id m) (heap m) t"
    using mvcc_invD(5) [OF assms(1)] assms(2) a(3) by (auto simp: version_ok_def store_ok_def)
  show "version_view (next_id m) (heap m) t = snap (txn_of m t) ++ own (txn_of m t)"
    by (simp add: version_view_def txn_of_def c)
qed

section \<open>Reading and writing\<close>

lemma db_frames:
  assumes f: "same_frames (heap m) hp'" and v: "\<And>i. vview hp' i = vview (heap m) i" shows "db (m\<lparr>heap := hp'\<rparr>) = db m"
proof -
  have "cview hp' xs = cview (heap m) xs" for xs by (rule cview_cong) (rule v)
  then show ?thesis by (simp add: db_def txn_of_def v frames_the [OF f] frames_base [OF f] fun_eq_iff)
qed

lemma db_quiet:
  assumes "quiet_heap (heap m) hp'" shows "db (m\<lparr>heap := hp'\<rparr>) = db m"
proof (rule db_frames)
  show "same_frames (heap m) hp'" using assms by (simp add: quiet_except_def)
  show "vview hp' i = vview (heap m) i" for i by (rule quiet_vview [OF assms]) simp
qed

lemma db_own:
  assumes inv: "mvcc_inv m" and t: "t \<in> set (actives m)" and o: "own_block t w r (heap m) hp' x"
  shows "db (m\<lparr>heap := hp'\<rparr>) = (db m)\<lparr>txns := (txns (db m))(t \<mapsto> (txn_of m t)\<lparr>own := (own (txn_of m t))(w \<mapsto> x)\<rparr>)\<rparr>"
proof -
  obtain a a' where a: "quiet_except {t} (heap m) hp'" "alloc_of (heap m) t = Some a" "alloc_of hp' t = Some a'"
    "view a' = (view a)(w \<mapsto> x)"
    using o unfolding own_block_def by (elim exE conjE)
  have f: "same_frames (heap m) hp'" using a(1) by (simp add: quiet_except_def)
  have nt: "t \<notin> set (storages m)" by (rule active_based(3) [OF inv t])
  have v: "vview hp' i = vview (heap m) i" if "i \<noteq> t" for i by (rule quiet_vview [OF a(1)]) (use that in simp)
  have vt: "vview hp' t = (vview (heap m) t)(w \<mapsto> x)" using a by (simp add: vview_def)
  have c: "cview hp' xs = cview (heap m) xs" if "set xs \<subseteq> set (storages m)" for xs
    by (rule cview_cong, rule v) (use that nt in auto)
  have r: "cview hp' (rev (reach (storages m) (base (heap m) i))) = cview (heap m) (rev (reach (storages m) (base (heap m) i)))"
    if "i \<in> set (actives m)" for i
    by (rule c) (use set_reach [OF active_based(2) [OF inv that]] in simp)
  have i: "txn_of (m\<lparr>heap := hp'\<rparr>) i = (if i = t then (txn_of m t)\<lparr>own := (own (txn_of m t))(w \<mapsto> x)\<rparr> else txn_of m i)"
    if "i \<in> set (actives m)" for i
    using r [OF that] v [of i] vt by (simp add: txn_of_def frames_the [OF f] frames_base [OF f])
  show ?thesis using c [of "rev (storages m)"] i t by (auto simp: db_def fun_eq_iff)
qed

lemma txn_read_ok:
  assumes inv: "mvcc_inv m" and t: "t \<in> set (actives m)" and w: "w \<noteq> 0"
  shows "\<exists>r hp1 hp2. vs_allocate h (next_id m) t w Read (heap m) = Inr (r, w, hp1) \<and> vs_complete h t hp1 = Inr hp2 \<and>
    reads_as t r hp1 ((snap (txn_of m t) ++ own (txn_of m t)) w) \<and> mvcc_inv (m\<lparr>heap := hp2\<rparr>) \<and> db (m\<lparr>heap := hp2\<rparr>) = db m"
proof -
  note v = active_version_ok [OF inv t]
  obtain r hp1 where r: "vs_allocate h (next_id m) t w Read (heap m) = Inr (r, w, hp1)" "quiet_heap (heap m) hp1"
    "reads_as t r hp1 (version_view (next_id m) (heap m) t w)"
    using vs_allocate_read [OF v(1) w, of h] by blast
  have "usable_at hp1 t" using version_ok_quiet [OF r(2) v(1)] by (simp add: version_ok_def)
  then obtain hp2 where hp2: "vs_complete h t hp1 = Inr hp2" "quiet_heap hp1 hp2" using vs_complete_ok by blast
  have q: "quiet_heap (heap m) hp2" by (rule quiet_except_trans [OF r(2) hp2(2)])
  show ?thesis using r(1,3) hp2(1) mvcc_inv_quiet [OF inv q] db_quiet [OF q] v(2) by auto
qed

lemma txn_write_ok:
  assumes inv: "mvcc_inv m" and t: "t \<in> set (actives m)" "\<not> read_only (the (heap m t))" and w: "w \<noteq> 0"
  shows "\<exists>r hp1 hp2. vs_allocate h (next_id m) t w Write (heap m) = Inr (r, w, hp1) \<and>
    vs_complete h t (vs_write r b hp1) = Inr hp2 \<and> mvcc_inv (m\<lparr>heap := hp2\<rparr>) \<and>
    (if (snap (txn_of m t) ++ own (txn_of m t)) w = None then r = Empty_block t \<and> db (m\<lparr>heap := hp2\<rparr>) = db m
     else r = Block_ref t (Cached w) \<and>
       db (m\<lparr>heap := hp2\<rparr>) = (db m)\<lparr>txns := (txns (db m))(t \<mapsto> (txn_of m t)\<lparr>own := (own (txn_of m t))(w \<mapsto> b)\<rparr>)\<rparr>)"
proof -
  note v = active_version_ok [OF inv t(1)]
  obtain s where s: "heap m t = Some s" "\<not> read_only s" using active_based(4) [OF inv t(1)] t(2) by auto
  obtain r hp1 where r: "vs_allocate h (next_id m) t w Write (heap m) = Inr (r, w, hp1)"
    "case version_view (next_id m) (heap m) t w of None \<Rightarrow> r = Empty_block t \<and> quiet_heap (heap m) hp1
     | Some x \<Rightarrow> own_block t w r (heap m) hp1 x"
    using vs_allocate_write [OF v(1) w s, of h] by blast
  show ?thesis
  proof (cases "version_view (next_id m) (heap m) t w")
    case None
    then have q: "r = Empty_block t" "quiet_heap (heap m) hp1" using r(2) by auto
    have "usable_at hp1 t" using version_ok_quiet [OF q(2) v(1)] by (simp add: version_ok_def)
    then obtain hp2 where hp2: "vs_complete h t hp1 = Inr hp2" "quiet_heap hp1 hp2" using vs_complete_ok by blast
    have q2: "quiet_heap (heap m) hp2" by (rule quiet_except_trans [OF q(2) hp2(2)])
    show ?thesis using r(1) q(1) hp2(1) mvcc_inv_quiet [OF inv q2] db_quiet [OF q2] None v(2) by (simp add: vs_write_def)
  next
    case (Some x)
    then have o: "own_block t w r (heap m) hp1 x" using r(2) by simp
    then have re: "r = Block_ref t (Cached w)" by (simp add: own_block_def)
    obtain hp2 where hp2: "vs_complete h t (vs_write r b hp1) = Inr hp2" "own_block t w r (heap m) hp2 b"
      using own_block_write [OF o, of h b] by blast
    show ?thesis using r(1) re hp2(1) mvcc_inv_own [OF inv t hp2(2)] db_own [OF inv t(1) hp2(2)] Some v(2) by simp
  qed
qed

lemma dom_le_last:
  assumes inv: "mvcc_inv m" and b: "b \<in> set (storages m)"
  shows "dom (cview (heap m) (rev (reach (storages m) b))) \<subseteq> dom (cview (heap m) (rev (storages m)))"
proof -
  obtain ys where "storages m = reach (storages m) b @ ys" using reach_prefix [OF b] by blast
  moreover have "dom (cview (heap m) xs) \<subseteq> dom (cview (heap m) (ys @ xs))" for xs ys
    by (induction ys) auto
  ultimately show ?thesis by (metis rev_append)
qed

lemma txn_new_ok:
  assumes inv: "mvcc_inv m" and t: "t \<in> set (actives m)" "\<not> read_only (the (heap m t))"
  shows "\<exists>w hp1 hp2. vs_allocate h (next_id m) t 0 Create (heap m) = Inr (Block_ref t (Cached w), w, hp1) \<and>
    vs_complete h t (vs_write (Block_ref t (Cached w)) b hp1) = Inr hp2 \<and> mvcc_inv (m\<lparr>heap := hp2\<rparr>) \<and> w \<noteq> 0 \<and>
    (snap (txn_of m t) ++ own (txn_of m t)) w = None \<and> committed (db m) w = None \<and>
    db (m\<lparr>heap := hp2\<rparr>) = (db m)\<lparr>txns := (txns (db m))(t \<mapsto> (txn_of m t)\<lparr>own := (own (txn_of m t))(w \<mapsto> b)\<rparr>)\<rparr>"
proof -
  obtain s where s: "heap m t = Some s" "\<not> read_only s" using active_based(4) [OF inv t(1)] t(2) by auto
  have "usable_at (heap m) t" using mvcc_invD(5) [OF inv] t(1) by (auto simp: store_ok_def)
  then obtain a where a: "alloc_of (heap m) t = Some a" "usable a" by (auto simp: usable_at_def)
  obtain hp1 w where r: "vs_allocate h (next_id m) t 0 Create (heap m) = Inr (Block_ref t (Cached w), w, hp1)" "w \<noteq> 0"
    "next_address a < w" "own_block t w (Block_ref t (Cached w)) (heap m) hp1 []"
    using vs_allocate_new [OF a s, of h] by blast
  obtain hp2 where hp2: "vs_complete h t (vs_write (Block_ref t (Cached w)) b hp1) = Inr hp2"
    "own_block t w (Block_ref t (Cached w)) (heap m) hp2 b"
    using own_block_write [OF r(4), of h b] by blast
  have ti: "txns_inv m" using inv by (simp add: mvcc_inv_def)
  then have la: "last_address m < w" using t a(1) r(3) unfolding txns_inv_def by fastforce
  have "\<forall>x \<in> dom (cview (heap m) (rev (storages m))). x \<le> last_address m" using ti by (simp add: txns_inv_def)
  with la have c: "committed (db m) w = None" by (cases "committed (db m) w") (fastforce simp: db_def dest: bspec [of _ _ w])+
  then have "cview (heap m) (rev (reach (storages m) (base (heap m) t))) w = None"
    using dom_le_last [OF inv active_based(2) [OF inv t(1)]] by (auto simp: db_def)
  moreover have "vview (heap m) t w = None"
    using view_dom [of a w] a r(3) by (cases "view a w") (auto simp: vview_def usable_def)
  ultimately have "(snap (txn_of m t) ++ own (txn_of m t)) w = None" by (simp add: txn_of_def map_add_def)
  then show ?thesis using r(1,2) hp2(1) mvcc_inv_own [OF inv t hp2(2)] db_own [OF inv t(1) hp2(2)] c by blast
qed

section \<open>Beginning\<close>

lemma update_new: "k \<notin> fst ` set al \<Longrightarrow> AList.update k v al = al @ [(k, v)]"
  by (induction al) auto

lemma fold_on_store:
  "distinct ss \<Longrightarrow> fold (on_store f) ss hp i = (if i \<in> set ss then map_option f (hp i) else hp i)"
proof (induction ss arbitrary: hp)
  case (Cons s ss)
  then show ?case by (auto simp: on_store_def)
qed simp

text \<open>A store that may be entered as a transaction.\<close>

definition enterable :: "bool \<Rightarrow> store_id \<Rightarrow> mvcc \<Rightarrow> bool" where
  "enterable writer b m \<longleftrightarrow> store_ok (next_id m) (heap m) b \<and> b \<notin> set (storages m) \<and> b \<notin> snd ` set (storage_versions m) \<and>
     b \<notin> set (recycler m) \<and> vview (heap m) b = Map.empty \<and>
     vs_version (the (heap m b)) \<notin> fst ` set (storage_versions m) \<and>
     (\<forall>r \<in> set (recycler m). vs_version (the (heap m r)) \<noteq> vs_version (the (heap m b))) \<and>
     (writer \<longrightarrow> (\<forall>c \<in> set (storages m). older (heap m) c b) \<and> opened (the (alloc_of (heap m) b)) \<and>
        vs_order (the (heap m b)) = mv_order m \<and> readers (the (heap m b)) = 0 \<and> last_comitted_version m < vs_version (the (heap m b)) \<and>
        last_address m \<le> next_address (the (alloc_of (heap m) b)) \<and> writing_transactions m = 0)"

definition enter_heap :: "bool \<Rightarrow> store_id \<Rightarrow> mvcc \<Rightarrow> store_heap" where
  "enter_heap writer b m = fold (on_store add_reader) (storages m)
     (on_store (\<lambda>s. s\<lparr>based := Some (last (storages m))\<rparr>) b (on_store (\<lambda>s. s\<lparr>read_only := \<not> writer\<rparr>) b (heap m)))"

definition enter :: "bool \<Rightarrow> store_id \<Rightarrow> mvcc \<Rightarrow> mvcc" where
  "enter writer b m =
     m\<lparr>heap := enter_heap writer b m, storage_versions := storage_versions m @ [(vs_version (the (heap m b)), b)],
       active_transactions := active_transactions m + 1,
       writing_transactions := if writer then writing_transactions m + 1 else writing_transactions m,
       writing_transaction := if writer then Some b else writing_transaction m\<rparr>"

text \<open>The heap that entering leaves.\<close>

lemma enter_heap_eq:
  assumes inv: "mvcc_inv m" and e: "enterable writer b m"
  shows "enter_heap writer b m i =
    (if i = b then map_option (\<lambda>s. s\<lparr>read_only := \<not> writer, based := Some (last (storages m))\<rparr>) (heap m b)
     else if i \<in> set (storages m) then map_option add_reader (heap m i) else heap m i)"
proof -
  have "b \<notin> set (storages m)" using e by (simp add: enterable_def)
  then show ?thesis
    unfolding enter_heap_def fold_on_store [OF mvcc_invD(2) [OF inv]]
    by (auto simp: on_store_def option.map_comp comp_def)
qed

lemma enter_alloc:
  assumes inv: "mvcc_inv m" and e: "enterable writer b m"
  shows "alloc_of (enter_heap writer b m) i = alloc_of (heap m) i" "vview (enter_heap writer b m) i = vview (heap m) i"
    "older (enter_heap writer b m) = older (heap m)" "cview (enter_heap writer b m) xs = cview (heap m) xs"
proof -
  have a: "alloc_of (enter_heap writer b m) i = alloc_of (heap m) i" for i
    by (cases "heap m i") (auto simp: alloc_of_def enter_heap_eq [OF inv e] add_reader_def)
  then have v: "vview (enter_heap writer b m) i = vview (heap m) i" for i by (simp add: vview_def)
  show "alloc_of (enter_heap writer b m) i = alloc_of (heap m) i" "vview (enter_heap writer b m) i = vview (heap m) i"
    by (fact a v)+
  show "older (enter_heap writer b m) = older (heap m)" by (simp add: older_def a fun_eq_iff)
  show "cview (enter_heap writer b m) xs = cview (heap m) xs" by (rule cview_cong) (rule v)
qed

lemma enter_the:
  assumes inv: "mvcc_inv m" and e: "enterable writer b m"
  shows "heap m i \<noteq> None \<Longrightarrow> vs_version (the (enter_heap writer b m i)) = vs_version (the (heap m i))"
    "heap m i \<noteq> None \<Longrightarrow> vs_order (the (enter_heap writer b m i)) = vs_order (the (heap m i))"
    "(enter_heap writer b m i = None) = (heap m i = None)"
    "i \<noteq> b \<Longrightarrow> heap m i \<noteq> None \<Longrightarrow> based (the (enter_heap writer b m i)) = based (the (heap m i))"
    "i \<noteq> b \<Longrightarrow> heap m i \<noteq> None \<Longrightarrow> read_only (the (enter_heap writer b m i)) = read_only (the (heap m i))"
    "i \<notin> set (storages m) \<Longrightarrow> heap m i \<noteq> None \<Longrightarrow> readers (the (enter_heap writer b m i)) = readers (the (heap m i))"
  by (auto simp: enter_heap_eq [OF inv e] add_reader_def)

lemma enter_store_ok:
  assumes inv: "mvcc_inv m" and e: "enterable writer b m"
  shows "store_ok n (enter_heap writer b m) i = store_ok n (heap m) i"
  using enter_the(1,3) [OF inv e, of i] by (cases "heap m i") (auto simp: store_ok_def usable_at_def enter_alloc [OF inv e])

lemma enter_linked:
  assumes inv: "mvcc_inv m" and e: "enterable writer b m"
  shows "b \<notin> set ss \<Longrightarrow> linked (heap m) p ss \<Longrightarrow> linked (enter_heap writer b m) p ss"
  by (induction ss arbitrary: p) (auto simp: enter_the [OF inv e])

lemma enter_actives: "enterable writer b m \<Longrightarrow> actives (enter writer b m) = actives m @ [b]"
  by (simp add: actives_def enter_def enterable_def)

lemma enter_stores:
  assumes inv: "mvcc_inv m" and e: "enterable writer b m"
  shows "stores_inv (enter writer b m)"
proof -
  define hp' where "hp' = enter_heap writer b m"
  note enter_the = enter_the [OF inv e, folded hp'_def]
  note enter_store_ok = enter_store_ok [OF inv e, folded hp'_def]
  note enter_alloc = enter_alloc [OF inv e, folded hp'_def]
  note enter_linked = enter_linked [OF inv e, folded hp'_def]
  have s: "stores_inv m" using inv by (simp add: mvcc_inv_def)
  have nb: "b \<notin> set (storages m)" "store_ok (next_id m) (heap m) b" using e by (simp_all add: enterable_def)
  have h: "heap (enter writer b m) = hp'" "storages (enter writer b m) = storages m" "recycler (enter writer b m) = recycler m"
    "next_id (enter writer b m) = next_id m"
    by (simp_all add: enter_def hp'_def)
  show ?thesis
    using s nb enter_linked [OF nb(1)] unfolding stores_inv_def h enter_actives [OF e]
    by (auto simp: enter_store_ok enter_alloc enter_the(3))
qed

lemma enter_names:
  assumes inv: "mvcc_inv m" and e: "enterable writer b m"
  shows "names_inv (enter writer b m)"
proof -
  define hp' where "hp' = enter_heap writer b m"
  note enter_the = enter_the [OF inv e, folded hp'_def]
  note enter_alloc = enter_alloc [OF inv e, folded hp'_def]
  have s: "names_inv m" using inv by (simp add: mvcc_inv_def)
  have h: "heap (enter writer b m) = hp'" "storages (enter writer b m) = storages m" "recycler (enter writer b m) = recycler m"
    "storage_versions (enter writer b m) = storage_versions m @ [(vs_version (the (heap m b)), b)]"
    by (simp_all add: enter_def hp'_def)
  have hn: "heap m i \<noteq> None" if "i \<in> insert b (set (storages m) \<union> set (actives m) \<union> set (recycler m))" for i
    using that mvcc_invD(5) [OF inv, of i] e by (auto simp: enterable_def store_ok_def)
  have hs: "heap m i \<noteq> None" if "(v, i) \<in> set (storage_versions m)" for v i
    by (rule hn) (use that in \<open>auto simp: actives_def image_iff intro: bexI [rotated]\<close>)
  have v: "\<forall>(v, i) \<in> set (storage_versions m @ [(vs_version (the (heap m b)), b)]). vs_version (the (hp' i)) = v"
    using s hs hn [of b] by (auto simp: names_inv_def enter_the(1))
  have tl: "set (tl (storages m)) \<subseteq> set (storages m)" "hd (storages m) \<in> set (storages m)"
    using mvcc_invD(1) [OF inv] by (auto dest: list.set_sel(2) [rotated])
  have nb: "b \<notin> set (storages m)" "b \<notin> set (recycler m)" "b \<notin> snd ` set (storage_versions m)"
    "vs_version (the (heap m b)) \<notin> fst ` set (storage_versions m)"
    "\<forall>r \<in> set (recycler m). vs_version (the (heap m r)) \<noteq> vs_version (the (heap m b))"
    using e by (simp_all add: enterable_def)
  have hb: "hd (storages m) \<noteq> b" using tl(2) nb(1) by auto
  have rv: "vs_version (the (hp' r)) = vs_version (the (heap m r))" "read_only (the (hp' r)) = read_only (the (heap m r))"
    if "r \<in> set (recycler m)" for r using hn [of r] nb(2) that enter_the(1,5) [of r] by auto
  have inj: "inj_on (\<lambda>r. vs_version (the (hp' r))) (set (recycler m))"
    using s rv(1) by (simp add: names_inv_def cong: inj_on_cong)
  show ?thesis
    using s v nb hb inj rv unfolding names_inv_def h by (auto simp: enter_alloc(2))
qed

lemma enter_base:
  assumes inv: "mvcc_inv m" and e: "enterable writer b m"
  shows "t \<in> set (actives m) \<Longrightarrow> base (enter_heap writer b m) t = base (heap m) t" "base (enter_heap writer b m) b = last (storages m)"
proof -
  assume t: "t \<in> set (actives m)"
  then have "t \<noteq> b" using e by (auto simp: enterable_def actives_def)
  then show "base (enter_heap writer b m) t = base (heap m) t" using enter_the(4) [OF inv e, of t] active_based(4) [OF inv t] by (simp add: base_def)
next
  have "heap m b \<noteq> None" using e by (simp add: enterable_def store_ok_def)
  then show "base (enter_heap writer b m) b = last (storages m)" by (auto simp: base_def enter_heap_eq [OF inv e])
qed

lemma enter_readonly:
  assumes inv: "mvcc_inv m" and e: "enterable writer b m"
  shows "t \<in> set (actives m) \<Longrightarrow> read_only (the (enter_heap writer b m t)) = read_only (the (heap m t))" "read_only (the (enter_heap writer b m b)) = (\<not> writer)"
proof -
  assume t: "t \<in> set (actives m)"
  then have "t \<noteq> b" using e by (auto simp: enterable_def actives_def)
  then show "read_only (the (enter_heap writer b m t)) = read_only (the (heap m t))" using enter_the(5) [OF inv e, of t] active_based(4) [OF inv t] by simp
next
  have "heap m b \<noteq> None" using e by (simp add: enterable_def store_ok_def)
  then show "read_only (the (enter_heap writer b m b)) = (\<not> writer)" by (auto simp: enter_heap_eq [OF inv e])
qed

lemma reach_all: "ss \<noteq> [] \<Longrightarrow> distinct ss \<Longrightarrow> reach ss (last ss) = ss"
  using reach_last [of "butlast ss" "last ss"] by simp

lemma enter_readers:
  assumes inv: "mvcc_inv m" and e: "enterable writer b m" and c: "c \<in> set (storages m)"
  shows "readers (the (enter_heap writer b m c)) = length (filter (\<lambda>t. c \<in> set (reach (storages m) (base (enter_heap writer b m) t))) (actives m @ [b]))"
proof -
  define hp' where "hp' = enter_heap writer b m"
  note enter_heap_eq = enter_heap_eq [OF inv e, folded hp'_def]
  note enter_base = enter_base [OF inv e, folded hp'_def]
  have t: "txns_inv m" using inv by (simp add: mvcc_inv_def)
  have "heap m c \<noteq> None" "c \<noteq> b" using mvcc_invD(5) [OF inv, of c] c e by (auto simp: store_ok_def enterable_def)
  then have "readers (the (hp' c)) = Suc (readers (the (heap m c)))" using c by (auto simp: enter_heap_eq add_reader_def)
  also have "readers (the (heap m c)) = length (filter (\<lambda>t. c \<in> set (reach (storages m) (base (heap m) t))) (actives m))"
    using t c by (simp add: txns_inv_def)
  also have "filter (\<lambda>t. c \<in> set (reach (storages m) (base (heap m) t))) (actives m) =
      filter (\<lambda>t. c \<in> set (reach (storages m) (base hp' t))) (actives m)"
    by (rule filter_cong) (simp_all add: enter_base(1))
  finally show ?thesis unfolding hp'_def [symmetric] using c reach_all [OF mvcc_invD(1,2) [OF inv]] by (simp add: enter_base(2))
qed

lemma enter_txns:
  assumes inv: "mvcc_inv m" and e: "enterable writer b m" and len: "length (actives m) + 1 < 2 ^ 32"
  shows "txns_inv (enter writer b m)"
proof -
  define hp' where "hp' = enter_heap writer b m"
  note enter_heap_eq = enter_heap_eq [OF inv e, folded hp'_def]
  note enter_the = enter_the [OF inv e, folded hp'_def]
  note enter_alloc = enter_alloc [OF inv e, folded hp'_def]
  note enter_base = enter_base [OF inv e, folded hp'_def]
  note enter_readonly = enter_readonly [OF inv e, folded hp'_def]
  note enter_readers = enter_readers [OF inv e, folded hp'_def]
  have t: "txns_inv m" using inv by (simp add: mvcc_inv_def)
  have h: "heap (enter writer b m) = hp'" "storages (enter writer b m) = storages m" "mv_order (enter writer b m) = mv_order m"
    "last_comitted_version (enter writer b m) = last_comitted_version m" "last_address (enter writer b m) = last_address m"
    "recovery (enter writer b m) = recovery m" "mv_local_writes (enter writer b m) = mv_local_writes m" "active_transactions (enter writer b m) = active_transactions m + 1"
    "writing_transactions (enter writer b m) = (if writer then writing_transactions m + 1 else writing_transactions m)"
    by (simp_all add: enter_def hp'_def)
  let ?w = "\<lambda>t. \<not> read_only (the (hp' t))"
  have fw: "filter ?w (actives m @ [b]) = filter (\<lambda>t. \<not> read_only (the (heap m t))) (actives m) @ (if writer then [b] else [])"
    using enter_readonly by (auto intro: filter_cong)
  have w0: "length (filter (\<lambda>t. \<not> read_only (the (heap m t))) (actives m)) = 0" if writer
  proof -
    have "writing_transactions m = 0" using e that by (simp add: enterable_def)
    then have "of_nat (length (filter (\<lambda>t. \<not> read_only (the (heap m t))) (actives m))) = (0 :: u32)"
      and "length (filter (\<lambda>t. \<not> read_only (the (heap m t))) (actives m)) \<le> 1"
      using t by (simp_all add: txns_inv_def)
    then show ?thesis by (cases "length (filter (\<lambda>t. \<not> read_only (the (heap m t))) (actives m))") auto
  qed
  note cv = enter_alloc(4)
  have l: "last (storages m) \<in> set (storages m)" using mvcc_invD(1) [OF inv] by simp
  have bs: "\<exists>c. based (the (hp' t)) = Some c \<and> c \<in> set (storages m)" if "t \<in> set (actives m @ [b])" for t
  proof (cases "t = b")
    case True
    have "heap m b \<noteq> None" using e by (simp add: enterable_def store_ok_def)
    then show ?thesis using True l by (auto simp: enter_heap_eq)
  next
    case False
    then show ?thesis using that active_based [OF inv, of t] enter_the(4) [of t] by auto
  qed
  have each: "if read_only (the (hp' t)) then vview hp' t = Map.empty
        else base hp' t = last (storages m) \<and> (\<forall>c \<in> set (storages m). older hp' c t) \<and>
          opened (the (alloc_of hp' t)) \<and> vs_order (the (hp' t)) = mv_order m \<and> readers (the (hp' t)) = 0 \<and>
          last_comitted_version m < vs_version (the (hp' t)) \<and> last_address m \<le> next_address (the (alloc_of hp' t))"
    if "t \<in> set (actives m @ [b])" for t
  proof (cases "t = b")
    case True
    have "heap m b \<noteq> None" using e by (simp add: enterable_def store_ok_def)
    then show ?thesis using e True enter_readonly(2) enter_base(2) enter_the(1,2,6) [of b]
      by (simp add: enterable_def enter_alloc)
  next
    case False
    then have a: "t \<in> set (actives m)" using that by simp
    then have "if read_only (the (heap m t)) then vview (heap m) t = Map.empty
        else base (heap m) t = last (storages m) \<and> (\<forall>c \<in> set (storages m). older (heap m) c t) \<and>
          opened (the (alloc_of (heap m) t)) \<and> vs_order (the (heap m t)) = mv_order m \<and> readers (the (heap m t)) = 0 \<and>
          last_comitted_version m < vs_version (the (heap m t)) \<and> last_address m \<le> next_address (the (alloc_of (heap m) t))"
      using t by (simp add: txns_inv_def)
    then show ?thesis
      using a enter_readonly(1) [OF a] enter_base(1) [OF a] enter_the(1,2,6) [of t] active_based(3,4) [OF inv a]
      by (simp add: enter_alloc)
  qed
  show ?thesis
    unfolding txns_inv_def h enter_actives [OF e]
  proof (intro conjI ballI)
    show "active_transactions m + 1 = of_nat (length (actives m @ [b]))" using t by (simp add: txns_inv_def)
    show "length (actives m @ [b]) < 2 ^ 32" using len by simp
    show "(if writer then writing_transactions m + 1 else writing_transactions m) = of_nat (length (filter ?w (actives m @ [b])))"
      using t unfolding fw by (simp add: txns_inv_def)
    show "length (filter ?w (actives m @ [b])) \<le> 1" unfolding fw using t w0 by (cases writer) (simp_all add: txns_inv_def)
    show "\<not> recovery m" "mv_local_writes m" using t by (simp_all add: txns_inv_def)
    show "w \<le> last_address m" if "w \<in> dom (cview hp' (rev (storages m)))" for w using that t by (simp add: cv txns_inv_def)
  qed (use bs each enter_readers in blast)+
qed

lemma enter_db:
  assumes inv: "mvcc_inv m" and e: "enterable writer b m"
  shows "db (enter writer b m) =
    (db m)\<lparr>txns := (txns (db m))(b \<mapsto> \<lparr>snap = committed (db m), own = Map.empty, writing = writer\<rparr>)\<rparr>"
proof -
  define hp' where "hp' = enter_heap writer b m"
  note enter_heap_eq = enter_heap_eq [OF inv e, folded hp'_def]
  note enter_the = enter_the [OF inv e, folded hp'_def]
  note enter_alloc = enter_alloc [OF inv e, folded hp'_def]
  note enter_base = enter_base [OF inv e, folded hp'_def]
  note enter_readonly = enter_readonly [OF inv e, folded hp'_def]
  note cv = enter_alloc(4)
  have h: "heap (enter writer b m) = hp'" "storages (enter writer b m) = storages m" by (simp_all add: enter_def hp'_def)
  have nb: "b \<notin> set (actives m)" using e by (auto simp: enterable_def actives_def)
  have b: "txn_of (enter writer b m) b = \<lparr>snap = committed (db m), own = Map.empty, writing = writer\<rparr>"
    using e reach_all [OF mvcc_invD(1,2) [OF inv]] enter_base(2) enter_readonly(2)
    by (simp add: txn_of_def h cv enter_alloc(2) db_def enterable_def)
  have o: "txn_of (enter writer b m) t = txn_of m t" if "t \<in> set (actives m)" for t
    using that by (simp add: txn_of_def h cv enter_alloc(2) enter_base enter_readonly)
  show ?thesis using b o nb by (auto simp: db_def h cv enter_actives [OF e] fun_eq_iff)
qed

section \<open>Choosing the store\<close>

text \<open>A version that is later than everything in the heap.\<close>

definition later_than_store :: "version \<Rightarrow> version_store option \<Rightarrow> bool" where
  "later_than_store v x = (case x of None \<Rightarrow> True | Some s \<Rightarrow>
     vs_version s < v \<and> (case vs_allocator s of None \<Rightarrow> True | Some a \<Rightarrow> \<forall>y \<in> vset a. y < v))"

definition fresh_version :: "version \<Rightarrow> mvcc \<Rightarrow> bool" where
  "fresh_version v m \<longleftrightarrow> last_comitted_version m < v \<and> list_all (\<lambda>i. later_than_store v (heap m i)) [0..<next_id m]"

lemma fresh_versionD:
  assumes inv: "mvcc_inv m" and f: "fresh_version v m" and s: "heap m i = Some s"
  shows "vs_version s < v" "vs_allocator s = Some a \<Longrightarrow> x \<in> vset a \<Longrightarrow> x < v"
proof -
  have "i < next_id m" using inv s by (cases "next_id m \<le> i") (auto simp: mvcc_inv_def stores_inv_def)
  then have "later_than_store v (heap m i)" using f by (simp add: fresh_version_def list_all_iff)
  then show "vs_version s < v" "vs_allocator s = Some a \<Longrightarrow> x \<in> vset a \<Longrightarrow> x < v"
    using s by (auto simp: later_than_store_def)
qed

lemma agree_alloc: "hp' i = hp i \<Longrightarrow> alloc_of hp' i = alloc_of hp i \<and> vview hp' i = vview hp i"
  by (simp add: alloc_of_def vview_def)

lemma agree_linked: "(\<And>i. i \<in> set ss \<Longrightarrow> hp' i = hp i) \<Longrightarrow> linked hp' p ss = linked hp p ss"
  by (induction ss arbitrary: p) simp_all

lemma mvcc_inv_extend:
  fixes s
  assumes inv: "mvcc_inv m"
  defines "m1 \<equiv> m\<lparr>heap := (heap m)(next_id m \<mapsto> s), next_id := Suc (next_id m)\<rparr>"
  shows "mvcc_inv m1" "db m1 = db m"
proof -
  define hp where "hp = (heap m)(next_id m \<mapsto> s)"
  have s: "stores_inv m" "names_inv m" "txns_inv m" using inv by (simp_all add: mvcc_inv_def)
  have ac: "actives m1 = actives m" by (simp add: m1_def actives_def)
  let ?R = "set (storages m) \<union> set (actives m) \<union> set (recycler m)"
  have ag: "hp i = heap m i" if "i \<in> ?R" for i
    using mvcc_invD(5) [OF inv that] by (simp add: hp_def store_ok_def)
  have al: "alloc_of hp i = alloc_of (heap m) i \<and> vview hp i = vview (heap m) i" if "i \<in> ?R" for i
    by (rule agree_alloc, rule ag, rule that)
  have h: "heap m1 = hp" "storages m1 = storages m" "recycler m1 = recycler m" "storage_versions m1 = storage_versions m" "next_id m1 = Suc (next_id m)"
    by (simp_all add: m1_def hp_def)
  have ol: "older hp i j = older (heap m) i j" if "i \<in> ?R" "j \<in> ?R" for i j using al that by (simp add: older_def)
  have ok: "store_ok (Suc (next_id m)) hp i" if "i \<in> ?R" for i
    using mvcc_invD(5) [OF inv that] ag [OF that] al [OF that] by (auto simp: store_ok_def usable_at_def)
  have sl: "sorted_wrt (older hp) (storages m)"
    by (rule sorted_wrt_mono_rel [of _ "older (heap m)"]) (use s(1) ol in \<open>simp_all add: stores_inv_def\<close>)
  have tl: "set (tl (storages m)) \<subseteq> set (storages m)" using mvcc_invD(1) [OF inv] by (auto dest: list.set_sel(2) [rotated])
  have st: "stores_inv m1"
    unfolding stores_inv_def h ac
  proof (intro conjI ballI allI impI)
    show "hp i = None" if "Suc (next_id m) \<le> i" for i using s(1) that by (simp add: stores_inv_def hp_def)
    show "linked hp None (storages m)" using agree_linked [of "storages m" hp "heap m"] ag mvcc_invD(3) [OF inv] by simp
    show "opened (the (alloc_of hp b))" if "b \<in> set (tl (storages m))" for b
      using s(1) that tl al [of b] by (auto simp: stores_inv_def)
  qed (use ok sl mvcc_invD(1,2) [OF inv] in auto)
  have sv: "i \<in> ?R" if "(v, i) \<in> set (storage_versions m)" for v i
    using that by (auto simp: actives_def image_iff intro: bexI [rotated])
  have nm: "names_inv m1"
  proof -
    have n1: "\<forall>(v, i) \<in> set (storage_versions m). vs_version (the (hp i)) = v"
    proof clarify
      fix v i assume vi: "(v, i) \<in> set (storage_versions m)"
      then show "vs_version (the (hp i)) = v" using s(2) ag [OF sv [OF vi]] by (auto simp: names_inv_def)
    qed
    have n2: "hp r = heap m r" "vview hp r = vview (heap m) r" if "r \<in> set (recycler m)" for r using ag al that by auto
    have n3: "inj_on (\<lambda>r. vs_version (the (hp r))) (set (recycler m))"
      using s(2) n2(1) by (simp add: names_inv_def cong: inj_on_cong)
    show ?thesis using s(2) n1 n2 n3 unfolding names_inv_def h by simp
  qed
  have cv: "cview hp xs = cview (heap m) xs" if "set xs \<subseteq> set (storages m)" for xs
    by (rule cview_cong) (use al that in auto)
  have ba: "base hp t = base (heap m) t" "read_only (the (hp t)) = read_only (the (heap m t))" if "t \<in> set (actives m)" for t
    using ag [of t] that by (simp_all add: base_def)
  have f: "filter (\<lambda>t. c \<in> set (reach (storages m) (base hp t))) (actives m) =
      filter (\<lambda>t. c \<in> set (reach (storages m) (base (heap m) t))) (actives m)"
    "filter (\<lambda>t. \<not> read_only (the (hp t))) (actives m) = filter (\<lambda>t. \<not> read_only (the (heap m t))) (actives m)" for c
    by (rule filter_cong; simp add: ba)+
  have tx: "txns_inv m1"
  proof -
    have k: "mv_order m1 = mv_order m" "active_transactions m1 = active_transactions m" "writing_transactions m1 = writing_transactions m"
      "last_comitted_version m1 = last_comitted_version m" "last_address m1 = last_address m" "recovery m1 = recovery m" "mv_local_writes m1 = mv_local_writes m"
      by (simp_all add: m1_def)
    have "\<forall>t \<in> set (actives m). hp t = heap m t \<and> alloc_of hp t = alloc_of (heap m) t \<and> vview hp t = vview (heap m) t \<and>
        (\<forall>b \<in> set (storages m). older hp b t = older (heap m) b t)"
      using ag al ol by auto
    moreover have "\<forall>b \<in> set (storages m). hp b = heap m b" using ag by auto
    ultimately show ?thesis using s(3) ba unfolding txns_inv_def h ac k f cv [of "rev (storages m)", simplified] by simp
  qed
  show "mvcc_inv m1" using st nm tx by (simp add: mvcc_inv_def)
  have "cview hp (rev (reach (storages m) (base (heap m) t))) = cview (heap m) (rev (reach (storages m) (base (heap m) t)))"
    if "t \<in> set (actives m)" for t
    by (rule cv) (use set_reach [OF active_based(2) [OF inv that]] in simp)
  then have "txn_of m1 t = txn_of m t" if "t \<in> set (actives m)" for t
    using that ba al by (simp add: txn_of_def h)
  then show "db m1 = db m" by (simp add: db_def h ac cv fun_eq_iff)
qed

lemma begin_allocator_ok:
  "usable ((begin_allocator m)\<lparr>alloc_version := v\<rparr>)" "view ((begin_allocator m)\<lparr>alloc_version := v\<rparr>) = Map.empty"
  "vset ((begin_allocator m)\<lparr>alloc_version := v\<rparr>) = {v}" "opened ((begin_allocator m)\<lparr>alloc_version := v\<rparr>)"
  "last_address m \<le> next_address ((begin_allocator m)\<lparr>alloc_version := v\<rparr>)"
proof -
  define a where "a = (begin_allocator m)\<lparr>alloc_version := v\<rparr>"
  have c: "cache a = Map.empty" "stored_rows a = []"
    by (simp_all add: a_def begin_allocator_def set_allocation_start_def new_allocator_def cache_def [abs_def] stored_rows_def)
  then have st: "stored a = Map.empty" by (simp add: stored_def [abs_def])
  show "usable ((begin_allocator m)\<lparr>alloc_version := v\<rparr>)"
    unfolding a_def [symmetric] usable_def store_inv_def c st
    by (simp add: a_def begin_allocator_def set_allocation_start_def new_allocator_def)
  show "view ((begin_allocator m)\<lparr>alloc_version := v\<rparr>) = Map.empty"
    unfolding a_def [symmetric] by (simp add: view_def c st)
  show "vset ((begin_allocator m)\<lparr>alloc_version := v\<rparr>) = {v}" "opened ((begin_allocator m)\<lparr>alloc_version := v\<rparr>)"
    "last_address m \<le> next_address ((begin_allocator m)\<lparr>alloc_version := v\<rparr>)"
    by (simp_all add: begin_allocator_def set_allocation_start_def new_allocator_def vset_def opened_def)
qed

text \<open>Entering is what \<^verbatim>\<open>begin\<close> does once it has a store.\<close>

lemma begin_enters:
  assumes e: "enterable writer b m1" and ne: "storages m1 \<noteq> []" and w: "writer \<Longrightarrow> writing_transactions m = 0"
    and c: "(if writer \<or> recycler m = [] then
             (next_id m,
              m\<lparr>heap := (heap m)(next_id m \<mapsto>
                   set_allocator (Some (begin_allocator m)) (new_version_store (last_address m) (mv_order m) v)),
                next_id := Suc (next_id m)\<rparr>)
           else (last (recycler m), m\<lparr>recycler := butlast (recycler m)\<rparr>)) = (b, m1)"
  shows "mvcc_begin writer v m = Inr (b, enter writer b m1)"
proof -
  obtain s where s: "heap m1 b = Some s" using e by (auto simp: enterable_def store_ok_def)
  have nv: "vs_version s \<notin> fst ` set (storage_versions m1)" using e s by (simp add: enterable_def)
  have g: "\<not> (writer \<and> writing_transactions m \<noteq> 0)" using w by auto
  have d: "deref b (on_store (\<lambda>s. s\<lparr>read_only := \<not> writer\<rparr>) b (heap m1)) = Inr (s\<lparr>read_only := \<not> writer\<rparr>)"
    using s by (simp add: deref_def on_store_def)
  show ?thesis
    using ne s nv unfolding mvcc_begin_def c if_not_P [OF g]
    by (simp add: Let_def d lift_result_def enter_def enter_heap_def update_new)
qed

lemma recycled_ok:
  assumes inv: "mvcc_inv m" and r: "recycler m \<noteq> []"
  defines "m1 \<equiv> m\<lparr>recycler := butlast (recycler m)\<rparr>"
  shows "mvcc_inv m1" "db m1 = db m" "actives m1 = actives m" "enterable False (last (recycler m)) m1"
proof -
  have s: "stores_inv m" "names_inv m" "txns_inv m" using inv by (simp_all add: mvcc_inv_def)
  show ac: "actives m1 = actives m" by (simp add: m1_def actives_def)
  have h: "heap m1 = heap m" "storages m1 = storages m" "recycler m1 = butlast (recycler m)" "storage_versions m1 = storage_versions m"
    "next_id m1 = next_id m" by (simp_all add: m1_def)
  have sub: "set (butlast (recycler m)) \<subseteq> set (recycler m)" by (auto dest: in_set_butlastD)
  have d: "distinct (butlast (recycler m) @ [last (recycler m)])" using s(2) r by (simp add: names_inv_def)
  have "stores_inv m1" using s(1) sub unfolding stores_inv_def h ac by auto
  moreover have "names_inv m1"
  proof -
    have "inj_on (\<lambda>r. vs_version (the (heap m r))) (set (butlast (recycler m)))"
      using s(2) sub by (auto simp: names_inv_def intro: inj_on_subset)
    then show ?thesis using s(2) sub d unfolding names_inv_def h by auto
  qed
  moreover have "txns_inv m1" using s(3) unfolding txns_inv_def h ac by (simp add: m1_def)
  ultimately show "mvcc_inv m1" by (simp add: mvcc_inv_def)
  have "txn_of m1 = txn_of m" by (rule ext) (simp add: txn_of_def h)
  then show "db m1 = db m" by (simp add: db_def h ac cong: if_cong)
  have l: "last (recycler m) \<in> set (recycler m)" using r by simp
  have k: "store_ok (next_id m) (heap m) (last (recycler m))" using mvcc_invD(5) [OF inv] l by simp
  have n: "last (recycler m) \<notin> set (storages m)" "last (recycler m) \<notin> snd ` set (storage_versions m)"
    "vview (heap m) (last (recycler m)) = Map.empty" "vs_version (the (heap m (last (recycler m)))) \<notin> fst ` set (storage_versions m)"
    using s(2) l unfolding names_inv_def by auto
  have "vs_version (the (heap m r')) \<noteq> vs_version (the (heap m (last (recycler m))))" if "r' \<in> set (butlast (recycler m))" for r'
  proof -
    have "r' \<noteq> last (recycler m)" using that d by auto
    then show ?thesis using s(2) that sub l unfolding names_inv_def inj_on_def by blast
  qed
  then show "enterable False (last (recycler m)) m1" using k n d by (simp add: enterable_def h)
qed

lemma extended_ok:
  fixes v
  assumes inv: "mvcc_inv m" and f: "fresh_version v m" and w: "writer \<Longrightarrow> writing_transactions m = 0"
  defines "m1 \<equiv> m\<lparr>heap := (heap m)(next_id m \<mapsto>
             set_allocator (Some (begin_allocator m)) (new_version_store (last_address m) (mv_order m) v)),
             next_id := Suc (next_id m)\<rparr>"
  shows "enterable writer (next_id m) m1"
proof -
  define s where "s = set_allocator (Some (begin_allocator m)) (new_version_store (last_address m) (mv_order m) v)"
  define a where "a = (begin_allocator m)\<lparr>alloc_version := v\<rparr>"
  note a = begin_allocator_ok [where m = m and v = v, folded a_def]
  have s: "vs_allocator s = Some a" "vs_version s = v" "vs_order s = mv_order m" "readers s = 0"
    by (simp_all add: s_def set_allocator_def new_version_store_def a_def)
  have h: "heap m1 = (heap m)(next_id m \<mapsto> s)" "storages m1 = storages m" "recycler m1 = recycler m"
    "storage_versions m1 = storage_versions m" "next_id m1 = Suc (next_id m)"
    by (simp_all add: m1_def s_def)
  have al: "alloc_of (heap m1) (next_id m) = Some a" by (simp add: h alloc_of_def s)
  have R: "i < next_id m \<and> heap m i \<noteq> None" if "i \<in> set (storages m) \<union> set (actives m) \<union> set (recycler m)" for i
    using mvcc_invD(5) [OF inv that] by (simp add: store_ok_def)
  have sv: "i \<in> set (storages m) \<union> set (actives m) \<union> set (recycler m)" if "(x, i) \<in> set (storage_versions m)" for x i
    using that by (auto simp: actives_def image_iff intro: bexI [rotated])
  have nm: "names_inv m" using inv by (simp add: mvcc_inv_def)
  have less: "vs_version (the (heap m i)) < v" if "heap m i \<noteq> None" for i
    using fresh_versionD(1) [OF inv f, of i] that by auto
  have v0: "0 < v" using f by (simp add: fresh_version_def)
  have n1: "next_id m \<notin> set (storages m)" "next_id m \<notin> set (recycler m)" using R by blast+
  have n2: "next_id m \<notin> snd ` set (storage_versions m)"
  proof
    assume "next_id m \<in> snd ` set (storage_versions m)"
    then obtain x where "(x, next_id m) \<in> set (storage_versions m)" by auto
    then show False using R [OF sv [of x "next_id m"]] by simp
  qed
  have n3: "v \<notin> fst ` set (storage_versions m)"
  proof
    assume "v \<in> fst ` set (storage_versions m)"
    then obtain i where i: "(v, i) \<in> set (storage_versions m)" by auto
    then have "vs_version (the (heap m i)) = v" using nm by (auto simp: names_inv_def)
    then show False using less [of i] R [OF sv [OF i]] by simp
  qed
  have n4: "vs_version (the (heap m r)) \<noteq> v" if "r \<in> set (recycler m)" for r using less [of r] R [of r] that by auto
  have hn: "heap m1 r = heap m r" if "r \<in> set (storages m) \<union> set (recycler m)" for r using n1 that by (auto simp: h)
  have ol: "older (heap m1) c (next_id m)" if c: "c \<in> set (storages m)" for c
  proof -
    obtain t ac where t: "heap m c = Some t" "vs_allocator t = Some ac"
      using mvcc_invD(5) [OF inv, of c] c alloc_of_heap [of "heap m" c] by (auto simp: store_ok_def usable_at_def)
    then have "\<forall>x \<in> vset ac. x < v" using fresh_versionD(2) [OF inv f] by blast
    moreover have "alloc_of (heap m1) c = Some ac" using t hn [of c] c by (simp add: alloc_of_def)
    ultimately show ?thesis using a(3) al by (simp add: older_def)
  qed
  have ok: "store_ok (Suc (next_id m)) (heap m1) (next_id m)"
    using a(1) al v0 s(2) by (simp add: store_ok_def usable_at_def h a_def)
  have "vview (heap m1) (next_id m) = Map.empty" using al a(2) by (simp add: vview_def)
  moreover have "\<forall>r \<in> set (recycler m). vs_version (the (heap m1 r)) \<noteq> v" using n4 hn by auto
  moreover have "mv_order m1 = mv_order m" "last_comitted_version m1 = last_comitted_version m" "last_address m1 = last_address m"
    "writing_transactions m1 = writing_transactions m" by (simp_all add: m1_def)
  moreover have "last_comitted_version m < v" using f by (simp add: fresh_version_def)
  moreover have "vs_version (the (heap m1 (next_id m))) = v" "vs_order (the (heap m1 (next_id m))) = mv_order m" "readers (the (heap m1 (next_id m))) = 0" using s by (simp_all add: h)
  ultimately show ?thesis
    unfolding enterable_def h(2-5) using ok n1 n2 n3 ol al a(4,5) w by simp
qed

lemma begin_ok:
  assumes inv: "mvcc_inv m" and f: "fresh_version v m" and w: "writer \<Longrightarrow> writing_transactions m = 0"
    and len: "length (actives m) + 1 < 2 ^ 32"
  shows "\<exists>t m'. mvcc_begin writer v m = Inr (t, m') \<and> mvcc_inv m' \<and> t \<notin> set (actives m) \<and> actives m' = actives m @ [t] \<and>
    db m' = (db m)\<lparr>txns := (txns (db m))(t \<mapsto> \<lparr>snap = committed (db m), own = Map.empty, writing = writer\<rparr>)\<rparr>"
proof -
  have "\<exists>t m1. mvcc_begin writer v m = Inr (t, enter writer t m1) \<and> enterable writer t m1 \<and> mvcc_inv m1 \<and> db m1 = db m \<and>
      actives m1 = actives m"
  proof (cases "writer \<or> recycler m = []")
    case True
    define m1 where "m1 = m\<lparr>heap := (heap m)(next_id m \<mapsto>
       set_allocator (Some (begin_allocator m)) (new_version_store (last_address m) (mv_order m) v)), next_id := Suc (next_id m)\<rparr>"
    have e: "enterable writer (next_id m) m1" unfolding m1_def by (rule extended_ok [OF inv f w])
    have i: "mvcc_inv m1" "db m1 = db m" unfolding m1_def by (rule mvcc_inv_extend [OF inv])+
    have "mvcc_begin writer v m = Inr (next_id m, enter writer (next_id m) m1)"
      by (rule begin_enters [OF e mvcc_invD(1) [OF i(1)] w]) (simp_all add: m1_def True)
    then show ?thesis using e i by (auto simp: m1_def actives_def)
  next
    case False
    then have r: "recycler m \<noteq> []" "\<not> writer" by auto
    note k = recycled_ok [OF inv r(1)]
    have "mvcc_begin writer v m = Inr (last (recycler m), enter writer (last (recycler m)) (m\<lparr>recycler := butlast (recycler m)\<rparr>))"
      by (rule begin_enters [OF _ mvcc_invD(1) [OF k(1)] w]) (use r k(4) in simp_all)
    then show ?thesis using k r by auto
  qed
  then obtain t m1 where t: "mvcc_begin writer v m = Inr (t, enter writer t m1)" "enterable writer t m1" "mvcc_inv m1" "db m1 = db m"
    "actives m1 = actives m"
    by blast
  have "t \<notin> set (actives m1)" using t(2) by (auto simp: enterable_def actives_def)
  then have "t \<notin> set (actives m)" using t(5) by simp
  moreover have "mvcc_inv (enter writer t m1)"
    using enter_stores [OF t(3,2)] enter_names [OF t(3,2)] enter_txns [OF t(3,2)] len t(5) by (simp add: mvcc_inv_def)
  ultimately show ?thesis using t(1) enter_db [OF t(3,2)] t(4,5) enter_actives [OF t(2)] by auto
qed

end
