(* ===== verification/MvccEnd.thy ===== *)
theory MvccEnd
  imports MvccBegin
begin

text \<open>Discarding a transaction: the versions it was reading lose a reader.\<close>

section \<open>Readers\<close>

definition lose_reader :: "version_store \<Rightarrow> version_store" where
  "lose_reader s = s\<lparr>readers := readers s - 1\<rparr>"

lemma lose_reader_simps [simp]:
  "vs_allocator (lose_reader s) = vs_allocator s" "based (lose_reader s) = based s" "vs_version (lose_reader s) = vs_version s"
  "vs_order (lose_reader s) = vs_order s" "read_only (lose_reader s) = read_only s" "readers (lose_reader s) = readers s - 1"
  "merged (lose_reader s) = merged s"
  by (simp_all add: lose_reader_def)

definition leave :: "store_id list \<Rightarrow> store_heap \<Rightarrow> store_heap" where
  "leave bs hp = (\<lambda>i. if i \<in> set bs then map_option lose_reader (hp i) else hp i)"

lemma remove_readers_ok:
  "distinct bs \<Longrightarrow> (\<And>b. b \<in> set bs \<Longrightarrow> \<exists>s. hp b = Some s \<and> 0 < readers s) \<Longrightarrow> remove_readers bs hp = Inr (leave bs hp)"
proof (induction bs arbitrary: hp)
  case (Cons b bs)
  obtain s where s: "hp b = Some s" "0 < readers s" using Cons.prems(2) by auto
  have "remove_readers bs (hp(b \<mapsto> lose_reader s)) = Inr (leave bs (hp(b \<mapsto> lose_reader s)))"
    by (rule Cons.IH) (use Cons.prems in auto)
  moreover have "leave bs (hp(b \<mapsto> lose_reader s)) = leave (b # bs) hp"
    using Cons.prems(1) s(1) by (auto simp: leave_def fun_eq_iff)
  ultimately show ?case using s by (simp add: deref_def remove_reader_def lose_reader_def)
qed (simp add: leave_def)

text \<open>The number of readers without one of the transactions.\<close>

lemma distinct_actives: "names_inv m \<Longrightarrow> distinct (actives m)"
  by (simp add: names_inv_def actives_def)

lemma length_filter_remove:
  "distinct xs \<Longrightarrow> t \<in> set xs \<Longrightarrow>
   length (filter P xs) = (if P t then 1 else 0) + length (filter P (filter (\<lambda>u. u \<noteq> t) xs))"
proof (induction xs)
  case (Cons x xs)
  show ?case
  proof (cases "x = t")
    case True
    then have "filter (\<lambda>u. u \<noteq> t) xs = xs" using Cons.prems by (auto intro!: filter_True)
    then show ?thesis using True by simp
  qed (use Cons in auto)
qed simp

lemma readers_eq:
  "mvcc_inv m \<Longrightarrow> c \<in> set (storages m) \<Longrightarrow> readers (the (heap m c)) =
     length (filter (\<lambda>u. c \<in> set (reach (storages m) (base (heap m) u))) (actives m))"
  by (simp add: mvcc_inv_def txns_inv_def)

lemma readers_without:
  assumes inv: "mvcc_inv m" and t: "t \<in> set (actives m)" and c: "c \<in> set (storages m)"
  shows "readers (the (heap m c)) = (if c \<in> set (reach (storages m) (base (heap m) t)) then 1 else 0) +
    length (filter (\<lambda>u. c \<in> set (reach (storages m) (base (heap m) u))) (filter (\<lambda>u. u \<noteq> t) (actives m)))"
  unfolding readers_eq [OF inv c]
  by (rule length_filter_remove [OF distinct_actives t]) (use inv in \<open>simp add: mvcc_inv_def\<close>)

lemma reach_readers:
  assumes inv: "mvcc_inv m" and t: "t \<in> set (actives m)"
  shows "distinct (reach (storages m) (base (heap m) t))"
    "b \<in> set (reach (storages m) (base (heap m) t)) \<Longrightarrow> \<exists>s. heap m b = Some s \<and> 0 < readers s"
proof -
  note a = active_based [OF inv t]
  obtain ys where "storages m = reach (storages m) (base (heap m) t) @ ys" using reach_prefix [OF a(2)] by blast
  then show "distinct (reach (storages m) (base (heap m) t))" using mvcc_invD(2) [OF inv] by (metis distinct_append)
  assume b: "b \<in> set (reach (storages m) (base (heap m) t))"
  then have s: "b \<in> set (storages m)" using set_reach [OF a(2)] by auto
  then have "heap m b \<noteq> None" using mvcc_invD(5) [OF inv, of b] by (simp add: store_ok_def)
  then show "\<exists>s. heap m b = Some s \<and> 0 < readers s" using readers_without [OF inv t s] b by auto
qed

section \<open>Discarding\<close>

definition retire :: "version_store \<Rightarrow> version_store" where
  "retire s = vs_set_transient True (s\<lparr>read_only := True, discard_on_end := True\<rparr>)"

lemma retire_simps [simp]:
  "based (retire s) = based s" "vs_version (retire s) = vs_version s" "vs_order (retire s) = vs_order s" "read_only (retire s)"
  "readers (retire s) = readers s"
  "vs_allocator (retire s) = map_option (\<lambda>a. a\<lparr>transient := True\<rparr>) (vs_allocator s)"
  by (simp_all add: retire_def vs_set_transient_def with_allocator_def)

definition discard_heap :: "store_id \<Rightarrow> mvcc \<Rightarrow> store_heap" where
  "discard_heap t m = leave (rev (reach (storages m) (base (heap m) t))) (on_store retire t (heap m))"

definition discarded :: "store_id \<Rightarrow> mvcc \<Rightarrow> mvcc" where
  "discarded t m =
     (let ro = read_only (the (heap m t)) in
      m\<lparr>writing_transactions := if ro then writing_transactions m else writing_transactions m - 1,
        active_transactions := active_transactions m - 1, heap := discard_heap t m,
        recycler := if ro then recycler m @ [t] else recycler m,
        storage_versions := AList.delete (vs_version (the (heap m t))) (storage_versions m)\<rparr>)"

lemma chain_same_based: "(\<And>i. map_option based (hp' i) = map_option based (hp i)) \<Longrightarrow> chain n hp' b = chain n hp b"
proof (induction n hp b rule: chain.induct)
  case (3 n hp b)
  have "map_option based (hp' b) = map_option based (hp b)" by (rule "3.prems")
  then show ?case using "3.IH" "3.prems" by (cases "hp b"; cases "hp' b") auto
qed simp_all

lemma based_chain_same: "(\<And>i. map_option based (hp' i) = map_option based (hp i)) \<Longrightarrow> based_chain n hp' t = based_chain n hp t"
proof -
  assume b: "\<And>i. map_option based (hp' i) = map_option based (hp i)"
  show ?thesis using b [of t] chain_same_based [OF b, of n]
    by (cases "hp t"; cases "hp' t") (auto simp: based_chain_def)
qed

lemma active_version:
  assumes inv: "mvcc_inv m" and t: "t \<in> set (actives m)"
  shows "map_of (storage_versions m) (vs_version (the (heap m t))) = Some t"
proof -
  have n: "names_inv m" using inv by (simp add: mvcc_inv_def)
  obtain v where v: "(v, t) \<in> set (storage_versions m)" using t by (auto simp: actives_def)
  then have "vs_version (the (heap m t)) = v" using n by (auto simp: names_inv_def)
  then show ?thesis using v n by (simp add: names_inv_def)
qed

lemma discard_leaves:
  assumes inv: "mvcc_inv m" and t: "t \<in> set (actives m)"
  shows "mvcc_discard t m = Inr (discarded t m)"
proof -
  note a = active_based [OF inv t]
  obtain s where s: "heap m t = Some s" using a(4) by auto
  have "usable_at (heap m) t" using mvcc_invD(5) [OF inv, of t] t by (simp add: store_ok_def)
  then obtain al where al: "vs_allocator s = Some al" using s by (auto simp: usable_at_def alloc_of_def)
  have ga: "get_allocator t (heap m) = Inr al" using s al by (simp add: get_allocator_def deref_def)
  have b: "based s = Some (base (heap m) t)" using a(1) s by simp
  define hp1 where "hp1 = on_store retire t (heap m)"
  have hp1: "hp1 = on_store (\<lambda>s. vs_set_transient True (s\<lparr>read_only := True, discard_on_end := True\<rparr>)) t (heap m)"
    by (simp add: hp1_def on_store_def retire_def [abs_def])
  have "based_chain (next_id m) hp1 t = based_chain (next_id m) (heap m) t"
    by (rule based_chain_same) (simp add: hp1_def on_store_def option.map_comp comp_def)
  then have c: "based_chain (next_id m) hp1 t = rev (reach (storages m) (base (heap m) t))" by (simp add: active_chain [OF inv t])
  have "\<exists>s. hp1 b = Some s \<and> 0 < readers s" if r: "b \<in> set (reach (storages m) (base (heap m) t))" for b
  proof -
    have "b \<noteq> t" using set_reach [OF a(2)] a(3) r by auto
    then show ?thesis using reach_readers(2) [OF inv t r] by (simp add: hp1_def on_store_def)
  qed
  then have "remove_readers (rev (reach (storages m) (base (heap m) t))) hp1 = Inr (discard_heap t m)"
    unfolding discard_heap_def hp1_def [symmetric] by (intro remove_readers_ok) (use reach_readers(1) [OF inv t] in simp_all)
  then show ?thesis
    using s b ga active_version [OF inv t] c
    by (simp add: mvcc_discard_def deref_def lift_result_def Let_def lookup_version_def hp1 [symmetric] discarded_def)
qed

text \<open>The heap that a discard leaves.\<close>

lemma discard_heap_eq:
  assumes inv: "mvcc_inv m" and t: "t \<in> set (actives m)"
  shows "discard_heap t m i = (if i = t then map_option retire (heap m t)
    else if i \<in> set (reach (storages m) (base (heap m) t)) then map_option lose_reader (heap m i) else heap m i)"
  using set_reach [OF active_based(2) [OF inv t]] active_based(3) [OF inv t]
  by (auto simp: discard_heap_def leave_def on_store_def)

lemma discard_alloc:
  assumes inv: "mvcc_inv m" and t: "t \<in> set (actives m)"
  shows "alloc_of (discard_heap t m) i = (if i = t then map_option (\<lambda>a. a\<lparr>transient := True\<rparr>) (alloc_of (heap m) t) else alloc_of (heap m) i)"
  by (cases "heap m i") (auto simp: alloc_of_def discard_heap_eq [OF inv t] option.map_comp comp_def)

lemma discard_view:
  assumes inv: "mvcc_inv m" and t: "t \<in> set (actives m)"
  shows "vview (discard_heap t m) i = vview (heap m) i" "cview (discard_heap t m) xs = cview (heap m) xs"
proof -
  have v: "vview (discard_heap t m) i = vview (heap m) i" for i
    by (cases "alloc_of (heap m) t") (auto simp: vview_def discard_alloc [OF inv t])
  show "vview (discard_heap t m) i = vview (heap m) i" by (fact v)
  show "cview (discard_heap t m) xs = cview (heap m) xs" by (rule cview_cong) (rule v)
qed

lemma discard_the:
  assumes inv: "mvcc_inv m" and t: "t \<in> set (actives m)"
  shows "heap m i \<noteq> None \<Longrightarrow> vs_version (the (discard_heap t m i)) = vs_version (the (heap m i))"
    "heap m i \<noteq> None \<Longrightarrow> vs_order (the (discard_heap t m i)) = vs_order (the (heap m i))"
    "(discard_heap t m i = None) = (heap m i = None)"
    "heap m i \<noteq> None \<Longrightarrow> based (the (discard_heap t m i)) = based (the (heap m i))"
    "heap m i \<noteq> None \<Longrightarrow> read_only (the (discard_heap t m i)) = (i = t \<or> read_only (the (heap m i)))"
    "heap m i \<noteq> None \<Longrightarrow> i \<notin> set (storages m) \<Longrightarrow> readers (the (discard_heap t m i)) = readers (the (heap m i))"
  using set_reach [OF active_based(2) [OF inv t]] by (auto simp: discard_heap_eq [OF inv t])


lemma discarded_simps:
  "heap (discarded t m) = discard_heap t m" "storages (discarded t m) = storages m" "next_id (discarded t m) = next_id m"
  "recycler (discarded t m) = (if read_only (the (heap m t)) then recycler m @ [t] else recycler m)"
  "storage_versions (discarded t m) = AList.delete (vs_version (the (heap m t))) (storage_versions m)"
  "mv_order (discarded t m) = mv_order m" "last_comitted_version (discarded t m) = last_comitted_version m"
  "last_address (discarded t m) = last_address m" "recovery (discarded t m) = recovery m"
  "mv_local_writes (discarded t m) = mv_local_writes m"
  by (simp_all add: discarded_def Let_def)

lemma discarded_counts:
  "active_transactions (discarded t m) = active_transactions m - 1"
  "writing_transactions (discarded t m) =
     (if read_only (the (heap m t)) then writing_transactions m else writing_transactions m - 1)"
  by (simp_all add: discarded_def Let_def)

lemma delete_versions:
  assumes "distinct (map fst al)" "distinct (map snd al)" "map_of al v = Some i"
  shows "map snd (AList.delete v al) = filter (\<lambda>j. j \<noteq> i) (map snd al)"
  using assms
proof (induction al)
  case (Cons p al)
  obtain u j where p: "p = (u, j)" by force
  show ?case
  proof (cases "u = v")
    case True
    then have "j = i" using Cons.prems(3) p by simp
    moreover have "AList.delete v al = al" using Cons.prems(1) p True by (force simp: AList.delete_eq intro!: filter_True)
    moreover have "filter (\<lambda>j. j \<noteq> i) (map snd al) = map snd al" using Cons.prems(2) p \<open>j = i\<close> by (auto intro!: filter_True)
    ultimately show ?thesis using p True by simp
  next
    case False
    then have "j \<noteq> i" using Cons.prems p by (force dest: map_of_SomeD)
    then show ?thesis using Cons p False by simp
  qed
qed simp

lemma discard_versions:
  assumes inv: "mvcc_inv m" and t: "t \<in> set (actives m)"
  shows "map snd (AList.delete (vs_version (the (heap m t))) (storage_versions m)) = filter (\<lambda>j. j \<noteq> t) (map snd (storage_versions m))"
  by (rule delete_versions [OF _ _ active_version [OF inv t]]) (use inv in \<open>simp_all add: mvcc_inv_def names_inv_def\<close>)

lemma discard_actives:
  assumes inv: "mvcc_inv m" and t: "t \<in> set (actives m)"
  shows "actives (discarded t m) = filter (\<lambda>u. u \<noteq> t) (actives m)"
  by (simp add: actives_def discarded_simps discard_versions [OF inv t]) (simp add: conj_commute)

lemma discard_store_ok:
  assumes inv: "mvcc_inv m" and t: "t \<in> set (actives m)"
  shows "store_ok n (discard_heap t m) i = store_ok n (heap m) i"
proof -
  have "usable (a\<lparr>transient := True\<rparr>) = usable a" for a by (simp add: usable_def)
  then have "usable_at (discard_heap t m) i = usable_at (heap m) i"
    by (auto simp: usable_at_def discard_alloc [OF inv t])
  then show ?thesis using discard_the(1,3) [OF inv t, of i]
    by (cases "heap m i"; cases "alloc_of (heap m) i") (auto simp: store_ok_def discard_alloc [OF inv t] usable_at_def)
qed

lemma discard_linked:
  assumes inv: "mvcc_inv m" and t: "t \<in> set (actives m)"
  shows "linked (heap m) p ss \<Longrightarrow> linked (discard_heap t m) p ss"
  by (induction ss arbitrary: p) (auto simp: discard_the [OF inv t])

lemma discard_older:
  assumes inv: "mvcc_inv m" and t: "t \<in> set (actives m)"
  shows "j \<noteq> t \<Longrightarrow> i \<noteq> t \<Longrightarrow> older (discard_heap t m) i j = older (heap m) i j"
  by (simp add: older_def discard_alloc [OF inv t])

lemma discard_stores:
  assumes inv: "mvcc_inv m" and t: "t \<in> set (actives m)"
  shows "stores_inv (discarded t m)"
proof -
  have s: "stores_inv m" using inv by (simp add: mvcc_inv_def)
  have nt: "t \<notin> set (storages m)" by (rule active_based(3) [OF inv t])
  have tl: "set (tl (storages m)) \<subseteq> set (storages m)" using mvcc_invD(1) [OF inv] by (auto dest: list.set_sel(2) [rotated])
  have "sorted_wrt (older (heap m)) (storages m)" using s by (simp add: stores_inv_def)
  then have so: "sorted_wrt (older (discard_heap t m)) (storages m)"
    by (rule sorted_wrt_mono_rel [rotated]) (use nt in \<open>subst discard_older [OF inv t]; auto\<close>)
  have op: "\<forall>b \<in> set (tl (storages m)). opened (the (alloc_of (discard_heap t m) b))"
    using s nt tl by (auto simp: stores_inv_def discard_alloc [OF inv t])
  have sub: "set (recycler (discarded t m)) \<subseteq> insert t (set (recycler m))" by (simp add: discarded_simps subset_insertI)
  have ok: "\<forall>i \<in> set (storages m) \<union> set (actives (discarded t m)) \<union> set (recycler (discarded t m)). store_ok (next_id m) (discard_heap t m) i"
    using s t sub by (auto simp: stores_inv_def discard_store_ok [OF inv t] discard_actives [OF inv t])
  show ?thesis
    using s so op ok discard_linked [OF inv t, of None "storages m"] discard_the(3) [OF inv t]
    unfolding stores_inv_def discarded_simps(1-3) by simp
qed

lemma discard_names:
  assumes inv: "mvcc_inv m" and t: "t \<in> set (actives m)"
  shows "names_inv (discarded t m)"
proof -
  have n: "names_inv m" using inv by (simp add: mvcc_inv_def)
  note dv = discard_versions [OF inv t]
  define sv where "sv = AList.delete (vs_version (the (heap m t))) (storage_versions m)"
  have svs: "set sv = {(v, i) \<in> set (storage_versions m). v \<noteq> vs_version (the (heap m t))}"
    by (auto simp: sv_def AList.delete_eq)
  have snds: "snd ` set sv = snd ` set (storage_versions m) - {t}"
    using arg_cong [OF dv, of set] unfolding sv_def [symmetric] by auto
  have hn: "heap m i \<noteq> None" if "i \<in> set (storages m) \<union> set (actives m) \<union> set (recycler m)" for i
    using mvcc_invD(5) [OF inv that] by (simp add: store_ok_def)
  have hs: "heap m i \<noteq> None" if "(v, i) \<in> set (storage_versions m)" for v i
    by (rule hn) (use that in \<open>auto simp: actives_def image_iff intro: bexI [rotated]\<close>)
  have tt: "(vs_version (the (heap m t)), t) \<in> set (storage_versions m)" using active_version [OF inv t] by (rule map_of_SomeD)
  have nt: "t \<notin> set (storages m)" by (rule active_based(3) [OF inv t])
  have tl: "set (tl (storages m)) \<subseteq> set (storages m)" using mvcc_invD(1) [OF inv] by (auto dest: list.set_sel(2) [rotated])
  have nr: "t \<notin> set (recycler m)" using n image_eqI [OF _ tt, of t snd] by (auto simp: names_inv_def)
  have vr: "vs_version (the (heap m r)) \<noteq> vs_version (the (heap m t))" if "r \<in> set (recycler m)" for r
  proof -
    have "vs_version (the (heap m t)) \<in> fst ` set (storage_versions m)" using image_eqI [OF _ tt, of _ fst] by simp
    then show ?thesis using n that unfolding names_inv_def by metis
  qed
  have em: "vview (heap m) t = Map.empty" if "read_only (the (heap m t))"
    using inv t that unfolding mvcc_inv_def txns_inv_def by (auto split: if_splits)
  note dt = discard_the [OF inv t] and dw = discard_view [OF inv t]
  have vh: "vs_version (the (discard_heap t m r)) = vs_version (the (heap m r))" if "r \<in> insert t (set (recycler m))" for r
    using dt(1) hn that t by auto
  have inj: "inj_on (\<lambda>r. vs_version (the (discard_heap t m r))) (insert t (set (recycler m)))"
  proof -
    have "inj_on (\<lambda>r. vs_version (the (heap m r))) (insert t (set (recycler m)))"
      using n vr nr unfolding names_inv_def inj_on_insert by (simp add: image_iff eq_commute [of "vs_version (the (heap m t))"])
    then show ?thesis using vh by (simp cong: inj_on_cong)
  qed
  have old: "vs_version (the (discard_heap t m r)) \<notin> fst ` set sv \<and> vview (discard_heap t m) r = Map.empty \<and>
      read_only (the (discard_heap t m r))" if "r \<in> set (recycler m)" for r
  proof -
    have "vs_version (the (heap m r)) \<notin> fst ` set (storage_versions m)" "vview (heap m) r = Map.empty" "read_only (the (heap m r))"
      using n that unfolding names_inv_def by blast+
    moreover have "fst ` set sv \<subseteq> fst ` set (storage_versions m)" using svs by auto
    ultimately show ?thesis using vh [of r] hn [of r] dt(5) [of r] that by (auto simp: dw)
  qed
  have this_one: "vs_version (the (discard_heap t m t)) \<notin> fst ` set sv \<and> vview (discard_heap t m) t = Map.empty \<and>
      read_only (the (discard_heap t m t))" if "read_only (the (heap m t))"
    using svs vh [of t] em [OF that] hn [of t] dt(5) [of t] t by (auto simp: dw)
  show ?thesis
    unfolding names_inv_def discarded_simps sv_def [symmetric]
  proof (intro conjI)
    show "distinct (map fst sv)" unfolding sv_def using n by (simp add: names_inv_def distinct_delete)
    show "distinct (map snd sv)" unfolding sv_def dv using n by (simp add: names_inv_def)
    show "\<forall>(v, i) \<in> set sv. vs_version (the (discard_heap t m i)) = v" using n svs hs dt(1) by (auto simp: names_inv_def)
    show "\<forall>c \<in> set (tl (storages m)). c \<in> snd ` set sv" using n snds nt tl by (auto simp: names_inv_def)
    show "hd (storages m) \<notin> snd ` set sv" using n snds by (simp add: names_inv_def)
    show "distinct (if read_only (the (heap m t)) then recycler m @ [t] else recycler m)" using n nr by (simp add: names_inv_def)
    show "set (if read_only (the (heap m t)) then recycler m @ [t] else recycler m) \<inter> (set (storages m) \<union> snd ` set sv) = {}"
      using n nt snds by (auto simp: names_inv_def)
    show "\<forall>r \<in> set (if read_only (the (heap m t)) then recycler m @ [t] else recycler m).
        vs_version (the (discard_heap t m r)) \<notin> fst ` set sv \<and> vview (discard_heap t m) r = Map.empty \<and>
        read_only (the (discard_heap t m r))"
      using old this_one by auto
    show "inj_on (\<lambda>r. vs_version (the (discard_heap t m r))) (set (if read_only (the (heap m t)) then recycler m @ [t] else recycler m))"
      by (rule inj_on_subset [OF inj]) auto
  qed
qed


lemma discard_base:
  assumes inv: "mvcc_inv m" and t: "t \<in> set (actives m)" and u: "u \<in> set (actives m)"
  shows "base (discard_heap t m) u = base (heap m) u"
  using discard_the(4) [OF inv t] active_based(4) [OF inv u] by (simp add: base_def)

lemma discard_readers:
  assumes inv: "mvcc_inv m" and t: "t \<in> set (actives m)" and c: "c \<in> set (storages m)"
  shows "readers (the (discard_heap t m c)) =
    length (filter (\<lambda>u. c \<in> set (reach (storages m) (base (discard_heap t m) u))) (actives (discarded t m)))"
proof -
  have "filter (\<lambda>u. c \<in> set (reach (storages m) (base (discard_heap t m) u))) (actives (discarded t m)) =
      filter (\<lambda>u. c \<in> set (reach (storages m) (base (heap m) u))) (filter (\<lambda>u. u \<noteq> t) (actives m))"
    unfolding discard_actives [OF inv t] by (rule filter_cong) (auto simp: discard_base [OF inv t])
  moreover have "heap m c \<noteq> None" "c \<noteq> t" using mvcc_invD(5) [OF inv, of c] c active_based(3) [OF inv t] by (auto simp: store_ok_def)
  ultimately show ?thesis using readers_without [OF inv t c] by (auto simp: discard_heap_eq [OF inv t])
qed

lemma u32_pred: "0 < n \<Longrightarrow> of_nat n - 1 = (of_nat (n - 1) :: u32)"
  by (cases n) simp_all

lemma discard_txns:
  assumes inv: "mvcc_inv m" and t: "t \<in> set (actives m)"
  shows "txns_inv (discarded t m)"
proof -
  have x: "txns_inv m" and n: "names_inv m" using inv by (simp_all add: mvcc_inv_def)
  note dt = discard_the [OF inv t] and dw = discard_view [OF inv t] and da = discard_actives [OF inv t]
  have dist: "distinct (actives m)" by (rule distinct_actives [OF n])
  have others: "u \<in> set (actives m)" "u \<noteq> t" "heap m u \<noteq> None" if "u \<in> set (actives (discarded t m))" for u
    using that active_based(4) [OF inv, of u] by (auto simp: da)
  let ?w = "\<lambda>u. \<not> read_only (the (heap m u))"
  have fw: "filter (\<lambda>u. \<not> read_only (the (discard_heap t m u))) (actives (discarded t m)) = filter ?w (filter (\<lambda>u. u \<noteq> t) (actives m))"
    unfolding da
  proof (rule filter_cong [OF refl])
    fix u assume "u \<in> set (filter (\<lambda>u. u \<noteq> t) (actives m))"
    then have u: "u \<in> set (actives (discarded t m))" by (simp add: da)
    show "(\<not> read_only (the (discard_heap t m u))) = ?w u" using dt(5) [OF others(3) [OF u]] others(2) [OF u] by simp
  qed
  have w: "length (filter ?w (actives m)) = (if ?w t then 1 else 0) + length (filter ?w (filter (\<lambda>u. u \<noteq> t) (actives m)))"
    by (rule length_filter_remove [OF dist t])
  have l: "length (actives m) = Suc (length (actives (discarded t m)))"
    using length_filter_remove [OF dist t, of "\<lambda>u. True"] by (simp add: da)
  have bs: "\<exists>b. based (the (discard_heap t m u)) = Some b \<and> b \<in> set (storages m)" if "u \<in> set (actives (discarded t m))" for u
    using others [OF that] active_based(1,2) [OF inv, of u] dt(4) by auto
  have nt: "t \<notin> set (storages m)" by (rule active_based(3) [OF inv t])
  have each: "if read_only (the (discard_heap t m u)) then vview (discard_heap t m) u = Map.empty
        else base (discard_heap t m) u = last (storages m) \<and> (\<forall>c \<in> set (storages m). older (discard_heap t m) c u) \<and>
          opened (the (alloc_of (discard_heap t m) u)) \<and> vs_order (the (discard_heap t m u)) = mv_order m \<and> readers (the (discard_heap t m u)) = 0 \<and>
          last_comitted_version m < vs_version (the (discard_heap t m u)) \<and>
          last_address m \<le> next_address (the (alloc_of (discard_heap t m) u))"
    if "u \<in> set (actives (discarded t m))" for u
  proof -
    note o = others [OF that]
    have "if read_only (the (heap m u)) then vview (heap m) u = Map.empty
        else base (heap m) u = last (storages m) \<and> (\<forall>c \<in> set (storages m). older (heap m) c u) \<and>
          opened (the (alloc_of (heap m) u)) \<and> vs_order (the (heap m u)) = mv_order m \<and> readers (the (heap m u)) = 0 \<and>
          last_comitted_version m < vs_version (the (heap m u)) \<and> last_address m \<le> next_address (the (alloc_of (heap m) u))"
      using x o(1) by (simp add: txns_inv_def)
    moreover have "older (discard_heap t m) c u = older (heap m) c u" if "c \<in> set (storages m)" for c
      by (rule discard_older [OF inv t]) (use o nt that in auto)
    ultimately show ?thesis
      using o(2,3) dt(1,2,5,6) [of u] active_based(3) [OF inv o(1)] discard_base [OF inv t o(1)] by (simp add: dw discard_alloc [OF inv t])
  qed
  have la: "v \<le> last_address m" if "v \<in> dom (cview (discard_heap t m) (rev (storages m)))" for v
    using that x by (simp add: dw txns_inv_def)
  have act: "active_transactions (discarded t m) = of_nat (length (actives (discarded t m)))"
  proof -
    have "active_transactions m = of_nat (length (actives m))" using x by (simp add: txns_inv_def)
    then show ?thesis unfolding discarded_counts l by simp
  qed
  have wr: "writing_transactions (discarded t m) =
      of_nat (length (filter (\<lambda>u. \<not> read_only (the (discard_heap t m u))) (actives (discarded t m))))"
  proof -
    have "writing_transactions m = of_nat (length (filter ?w (actives m)))" using x by (simp add: txns_inv_def)
    then show ?thesis unfolding discarded_counts fw w by simp
  qed
  show ?thesis
    unfolding txns_inv_def discarded_simps
  proof (intro conjI ballI)
    show "length (actives (discarded t m)) < 2 ^ 32" using x l by (simp add: txns_inv_def)
    show "length (filter (\<lambda>u. \<not> read_only (the (discard_heap t m u))) (actives (discarded t m))) \<le> 1"
      using x w unfolding fw by (simp add: txns_inv_def)
    show "\<not> recovery m" "mv_local_writes m" using x by (simp_all add: txns_inv_def)
  qed (use bs each la act wr discard_readers [OF inv t] in blast)+
qed

lemma discard_db:
  assumes inv: "mvcc_inv m" and t: "t \<in> set (actives m)"
  shows "db (discarded t m) = (db m)\<lparr>txns := (txns (db m))(t := None)\<rparr>"
proof -
  have "txn_of (discarded t m) u = txn_of m u" if "u \<in> set (actives m)" "u \<noteq> t" for u
    using that discard_the(5) [OF inv t, of u] active_based(4) [OF inv that(1)]
    by (simp add: txn_of_def discarded_simps discard_view [OF inv t] discard_base [OF inv t])
  then show ?thesis
    by (auto simp: db_def discarded_simps discard_view [OF inv t] discard_actives [OF inv t] fun_eq_iff)
qed

lemma discard_ok:
  assumes inv: "mvcc_inv m" and t: "t \<in> set (actives m)"
  shows "\<exists>m'. mvcc_discard t m = Inr m' \<and> mvcc_inv m' \<and> actives m' = filter (\<lambda>u. u \<noteq> t) (actives m) \<and>
    db m' = (db m)\<lparr>txns := (txns (db m))(t := None)\<rparr>"
  using discard_leaves [OF assms] discard_stores [OF assms] discard_names [OF assms] discard_txns [OF assms]
    discard_actives [OF assms] discard_db [OF assms]
  by (simp add: mvcc_inv_def)

end
