(* ===== verification/MvccTidy.thy ===== *)
theory MvccTidy
  imports MvccEnd
begin

text \<open>Merging idle versions: the blocks of the versions nobody reads move into the oldest of them.\<close>

section \<open>Shapes\<close>

text \<open>What merging leaves of a store: everything but its allocator and its flag.\<close>

definition shape :: "version_store \<Rightarrow> version_store" where
  "shape s = s\<lparr>vs_allocator := None, vs_allocated_version := 0, merged := False\<rparr>"

definition same_shapes :: "store_heap \<Rightarrow> store_heap \<Rightarrow> bool" where
  "same_shapes hp hp' \<longleftrightarrow> (\<forall>i. map_option shape (hp' i) = map_option shape (hp i))"

lemma same_shapes_refl [simp]: "same_shapes hp hp"
  by (simp add: same_shapes_def)

lemma same_shapes_trans: "same_shapes a b \<Longrightarrow> same_shapes b c \<Longrightarrow> same_shapes a c"
  by (simp add: same_shapes_def)

lemma shape_eq:
  "shape s = shape s' \<longleftrightarrow> based s = based s' \<and> vs_version s = vs_version s' \<and> readers s = readers s' \<and> vs_order s = vs_order s' \<and>
     vs_initial s = vs_initial s' \<and> read_only s = read_only s' \<and> discard_on_end s = discard_on_end s'"
  by (cases s; cases s') (simp add: shape_def)

lemma shapes_the:
  assumes "same_shapes hp hp'"
  shows "based (the (hp' i)) = based (the (hp i))" "vs_version (the (hp' i)) = vs_version (the (hp i))"
    "readers (the (hp' i)) = readers (the (hp i))" "vs_order (the (hp' i)) = vs_order (the (hp i))"
    "read_only (the (hp' i)) = read_only (the (hp i))" "(hp' i = None) = (hp i = None)"
proof -
  have "map_option shape (hp' i) = map_option shape (hp i)" using assms by (simp add: same_shapes_def)
  then show "based (the (hp' i)) = based (the (hp i))" "vs_version (the (hp' i)) = vs_version (the (hp i))"
    "readers (the (hp' i)) = readers (the (hp i))" "vs_order (the (hp' i)) = vs_order (the (hp i))"
    "read_only (the (hp' i)) = read_only (the (hp i))" "(hp' i = None) = (hp i = None)"
    by (cases "hp i"; cases "hp' i"; simp add: shape_eq)+
qed

lemma shape_update [simp]: "shape (s\<lparr>vs_allocator := a\<rparr>) = shape s" "shape (s\<lparr>merged := b\<rparr>) = shape s"
  by (simp_all add: shape_def)

lemma shapes_put [simp]: "same_shapes hp (put_allocator i a hp)"
  by (simp add: same_shapes_def option.map_comp comp_def)

lemma shapes_mark [simp]: "same_shapes hp (on_store (\<lambda>s. s\<lparr>merged := b\<rparr>) i hp)"
  by (simp add: same_shapes_def on_store_def option.map_comp comp_def)

lemma alloc_of_mark [simp]: "alloc_of (on_store (\<lambda>s. s\<lparr>merged := b\<rparr>) i hp) j = alloc_of hp j"
  by (cases "hp i") (auto simp: alloc_of_def on_store_def)

section \<open>Moving a run of versions\<close>

lemma alloc_exists: "alloc_of hp i = Some a \<Longrightarrow> hp i \<noteq> None"
  by (cases "hp i") (auto simp: alloc_of_def)

lemma vs_move_ok:
  assumes i: "alloc_of hp i = Some a" "usable a" "opened a" and j: "alloc_of hp j = Some b" "usable b" and ij: "i \<noteq> j"
    and o: "older hp j i"
  shows "\<exists>a' b'. vs_move h i j hp = Inr (put_allocator j b' (put_allocator i a' hp)) \<and> usable b' \<and> kept b b' \<and>
    vset b' \<subseteq> vset b \<union> vset a \<and> view b' = view b ++ view a \<and> view a' = Map.empty"
proof -
  define V where "V = Max (vset b)"
  have up: "\<forall>v \<in> vset a. V < v"
    using o i(1) j(1) Max_in [OF finite_vset, of b] by (auto simp: older_def V_def vset_def)
  have "set (stored_rows a) \<subseteq> set (the_rows (session a)) \<union> set (the_rows (file_rows a))" by (auto simp: stored_rows_def)
  then have "v \<in> vset a" if "(w, v, x) \<in> set (stored_rows a)" for w v x using that by (force simp: vset_def)
  moreover have "desc_version d \<in> vset a" if "(w, d) \<in> set (allocations a)" for w d using that by (force simp: vset_def)
  ultimately have nw1: "newer V a" using up by (auto simp: newer_def)
  have nw2: "not_newer V b"
  proof -
    have le: "v \<le> V" if "v \<in> vset b" for v using that by (simp add: V_def)
    have "desc_version d \<le> V" if "(w, d) \<in> set (allocations b)" for w d by (rule le) (use that in \<open>force simp: vset_def\<close>)
    then show ?thesis using le [OF alloc_version_vset] by (auto simp: not_newer_def)
  qed
  note nw = nw1 nw2
  obtain a' b' where m: "move h a b = Inr (a', b')" "store_inv b'" "local_writes b'" "view b' = view b ++ view a" "kept b b'"
    "view a' = Map.empty" "\<forall>P. within P a \<longrightarrow> within P b \<longrightarrow> P (alloc_version b) \<longrightarrow> within P b'"
  proof -
    have u: "store_inv a" "is_read_cache a" "store_inv b" "local_writes b" "is_read_cache b" using i(2) j(2) by (simp_all add: usable_def)
    show ?thesis using move_ok [OF u(1,2) i(3) nw(1) u(3,4) nw(2), of h] by (elim exE conjE) (rule that; assumption)
  qed
  have "usable b'" using m j(2) by (simp add: usable_def kept_def)
  moreover have "vset b' \<subseteq> vset b \<union> vset a"
  proof -
    have "within (\<lambda>v. v \<in> vset b \<union> vset a) a" "within (\<lambda>v. v \<in> vset b \<union> vset a) b"
      using vset_within [of a "\<lambda>v. v \<in> vset b \<union> vset a"] vset_within [of b "\<lambda>v. v \<in> vset b \<union> vset a"] by simp_all
    then have "within (\<lambda>v. v \<in> vset b \<union> vset a) b'" using m(7) by simp
    moreover have "alloc_version b' \<in> vset b" using m(5) alloc_version_vset [of b] by (simp add: kept_def)
    ultimately show ?thesis using vset_within [of b' "\<lambda>v. v \<in> vset b \<union> vset a"] by auto
  qed
  moreover have "vs_move h i j hp = Inr (put_allocator j b' (put_allocator i a' hp))"
    using i(1) j(1) m(1) by (simp add: vs_move_def get_allocator_eq)
  ultimately show ?thesis using m(4,5,6) by blast
qed

text \<open>A store with the blocks of a run of stores, of which it is the oldest.\<close>

definition absorbs :: "store_heap \<Rightarrow> store_heap \<Rightarrow> store_id list \<Rightarrow> store_id \<Rightarrow> bool" where
  "absorbs hp hp' xs i \<longleftrightarrow> (\<exists>a a'. alloc_of hp i = Some a \<and> alloc_of hp' i = Some a' \<and> usable a' \<and> kept a a' \<and>
     vset a' \<subseteq> (\<Union>j \<in> set xs. vset (the (alloc_of hp j))) \<and> view a' = cview hp xs)"

definition mergeable :: "store_heap \<Rightarrow> store_id \<Rightarrow> bool" where
  "mergeable hp i \<longleftrightarrow> usable_at hp i \<and> readers (the (hp i)) = 0 \<and> alloc_version (the (alloc_of hp i)) = vs_version (the (hp i))"

lemma older_version:
  assumes "older hp i j" "alloc_version (the (alloc_of hp i)) = vs_version (the (hp i))"
    "alloc_version (the (alloc_of hp j)) = vs_version (the (hp j))"
  shows "vs_version (the (hp i)) < vs_version (the (hp j))"
  using assms alloc_version_vset [of "the (alloc_of hp i)"] alloc_version_vset [of "the (alloc_of hp j)"]
  unfolding older_def by metis

lemma merge_run_ok:
  "\<lbrakk>distinct (l # is); \<And>i. i \<in> set (l # is) \<Longrightarrow> mergeable hp i; \<And>i. i \<in> set (butlast (l # is)) \<Longrightarrow> opened (the (alloc_of hp i));
    sorted_wrt (\<lambda>i j. older hp j i) (l # is)\<rbrakk> \<Longrightarrow>
   \<exists>hp'. merge_run h l is hp = Inr hp' \<and> same_shapes hp hp' \<and> (\<forall>i. i \<notin> set (l # is) \<longrightarrow> hp' i = hp i) \<and>
     (\<forall>i \<in> set (l # is). merged (the (hp' i)) = (i \<noteq> last (l # is)) \<and> alloc_of hp' i \<noteq> None) \<and> absorbs hp hp' (l # is) (last (l # is))"
proof (induction "is" arbitrary: l hp)
  case Nil
  obtain a where a: "alloc_of hp l = Some a" "usable a" using Nil.prems(2) [of l] by (auto simp: mergeable_def usable_at_def)
  then have "absorbs hp (on_store (\<lambda>s. s\<lparr>merged := False\<rparr>) l hp) [l] l" by (simp add: absorbs_def vview_def)
  moreover obtain s where "hp l = Some s" using alloc_exists [OF a(1)] by auto
  ultimately show ?case using a by (auto simp: on_store_def alloc_of_def same_shapes_def)
next
  case (Cons i "is")
  have li: "l \<noteq> i" "l \<notin> set is" "i \<notin> set is" using Cons.prems(1) by auto
  obtain a where a: "alloc_of hp l = Some a" "usable a" "opened a"
    using Cons.prems(2) [of l] Cons.prems(3) [of l] by (auto simp: mergeable_def usable_at_def)
  obtain b where b: "alloc_of hp i = Some b" "usable b" using Cons.prems(2) [of i] by (auto simp: mergeable_def usable_at_def)
  have ol: "older hp i l" using Cons.prems(4) by simp
  obtain a' b' where m: "vs_move h l i hp = Inr (put_allocator i b' (put_allocator l a' hp))" "usable b'" "kept b b'"
    "vset b' \<subseteq> vset b \<union> vset a" "view b' = view b ++ view a"
    using vs_move_ok [OF a b li(1) ol, of h] by blast
  define hp1 where "hp1 = on_store (\<lambda>s. s\<lparr>merged := True\<rparr>) l (put_allocator i b' (put_allocator l a' hp))"
  have h0: "hp l \<noteq> None" "hp i \<noteq> None" using alloc_exists a(1) b(1) by blast+
  have sh: "same_shapes hp hp1" unfolding hp1_def
    by (rule same_shapes_trans [OF _ shapes_mark], rule same_shapes_trans [OF _ shapes_put]) simp
  have al: "alloc_of hp1 j = (if j = i then Some b' else if j = l then Some a' else alloc_of hp j)" for j
    using h0 by (auto simp: hp1_def)
  have same: "hp1 j = hp j" if "j \<noteq> l" "j \<noteq> i" for j using that by (simp add: hp1_def on_store_def)
  have ov: "vs_version (the (hp i)) < vs_version (the (hp l))"
    by (rule older_version [OF ol]) (use Cons.prems(2) in \<open>auto simp: mergeable_def\<close>)
  have run: "merge_run h l (i # is) hp = merge_run h i is hp1"
    using h0 ov Cons.prems(2) [of i] m(1)
    by (auto simp: deref_def is_unused_def mergeable_def hp1_def not_le)
  have mg: "mergeable hp1 j" if j: "j \<in> set (i # is)" for j
  proof -
    have "mergeable hp j" using Cons.prems(2) j by simp
    then show ?thesis using m(2,3) li j b(1) shapes_the(2,3) [OF sh, of j]
      by (auto simp: mergeable_def usable_at_def al kept_def)
  qed
  have op: "opened (the (alloc_of hp1 j))" if j: "j \<in> set (butlast (i # is))" for j
  proof -
    have "j \<noteq> l" using j li by (auto dest: in_set_butlastD split: if_splits)
    moreover have "opened (the (alloc_of hp j))" using Cons.prems(3) [of j] j by simp
    ultimately show ?thesis using m(3) b(1) by (auto simp: al kept_def)
  qed
  have ol1: "older hp1 j i" if j: "j \<in> set is" for j
  proof -
    have "older hp j i" "older hp j l" using Cons.prems(4) j by auto
    then show ?thesis using m(4) a(1) b(1) li j by (auto simp: older_def al)
  qed
  have "sorted_wrt (\<lambda>i j. older hp1 j i) is"
  proof (rule sorted_wrt_mono_rel)
    show "sorted_wrt (\<lambda>i j. older hp j i) is" using Cons.prems(4) by simp
    fix x y assume "x \<in> set is" "y \<in> set is" "older hp y x"
    moreover from this have "x \<noteq> l" "x \<noteq> i" "y \<noteq> l" "y \<noteq> i" using li by auto
    ultimately show "older hp1 y x" by (simp add: older_def al)
  qed
  then have so: "sorted_wrt (\<lambda>i j. older hp1 j i) (i # is)" using ol1 by simp
  obtain hp' where r: "merge_run h i is hp1 = Inr hp'" "same_shapes hp1 hp'" "\<forall>j. j \<notin> set (i # is) \<longrightarrow> hp' j = hp1 j"
    "\<forall>j \<in> set (i # is). merged (the (hp' j)) = (j \<noteq> last (i # is)) \<and> alloc_of hp' j \<noteq> None" "absorbs hp1 hp' (i # is) (last (i # is))"
    using Cons.IH [OF _ mg op so] Cons.prems(1) by auto
  define k where "k = last (i # is)"
  obtain c c' where c: "alloc_of hp1 k = Some c" "alloc_of hp' k = Some c'" "usable c'" "kept c c'"
    "vset c' \<subseteq> (\<Union>j \<in> set (i # is). vset (the (alloc_of hp1 j)))" "view c' = cview hp1 (i # is)"
    using r(5) [folded k_def] unfolding absorbs_def by blast
  have kin: "k \<in> set (i # is)" unfolding k_def by (rule last_in_set) simp
  then have os: "k \<in> set (i # is)" "k \<noteq> l" using li by auto
  have "\<exists>d. alloc_of hp k = Some d \<and> kept d c" using c(1) os m(3) b(1) by (auto simp: al split: if_splits)
  then obtain d where d: "alloc_of hp k = Some d" "kept d c'" using kept_trans [OF _ c(4)] by blast
  have "(\<Union>j \<in> set (i # is). vset (the (alloc_of hp1 j))) \<subseteq> (\<Union>j \<in> set (l # i # is). vset (the (alloc_of hp j)))"
  proof (rule UN_least)
    fix j assume j: "j \<in> set (i # is)"
    show "vset (the (alloc_of hp1 j)) \<subseteq> (\<Union>j \<in> set (l # i # is). vset (the (alloc_of hp j)))"
    proof (cases "j = i")
      case True
      then show ?thesis using m(4) a(1) b(1) by (simp add: al) blast
    next
      case False
      then have "alloc_of hp1 j = alloc_of hp j" using j li by (auto simp: al)
      then show ?thesis using j by auto
    qed
  qed
  then have vs: "vset c' \<subseteq> (\<Union>j \<in> set (l # i # is). vset (the (alloc_of hp j)))" by (rule subset_trans [OF c(5)])
  have "cview hp1 is = cview hp is" by (rule cview_cong) (use li in \<open>auto simp: vview_def al\<close>)
  moreover have "vview hp1 i = vview hp i ++ vview hp l" using a(1) b(1) m(5) by (simp add: vview_def al)
  ultimately have "view c' = cview hp (l # i # is)" using c(6) by simp
  then have ab: "absorbs hp hp' (l # i # is) k" using d c(2,3) vs unfolding absorbs_def by blast
  have ml: "merged (the (hp' l))" "alloc_of hp' l \<noteq> None"
  proof -
    have "hp' l = hp1 l" using r(3) li by auto
    then show "merged (the (hp' l))" "alloc_of hp' l \<noteq> None" using h0(1) al [of l] li by (auto simp: hp1_def on_store_def alloc_of_def)
  qed
  have out: "\<forall>j. j \<notin> set (l # i # is) \<longrightarrow> hp' j = hp j" using r(3) same by simp
  have lk: "last (l # i # is) = k" by (simp add: k_def)
  have "\<forall>j \<in> set (l # i # is). merged (the (hp' j)) = (j \<noteq> k) \<and> alloc_of hp' j \<noteq> None"
    using r(4) [folded k_def] ml os(2) by simp
  then show ?case unfolding lk run r(1) using same_shapes_trans [OF sh r(2)] out ab by simp
qed


section \<open>The loops of a merge\<close>

definition unmark :: "store_id list \<Rightarrow> store_heap \<Rightarrow> store_heap" where
  "unmark ss hp = (\<lambda>i. if i \<in> set ss then map_option (\<lambda>s. s\<lparr>merged := False\<rparr>) (hp i) else hp i)"

definition ascending :: "store_heap \<Rightarrow> store_id list \<Rightarrow> bool" where
  "ascending hp ss \<longleftrightarrow> sorted_wrt (\<lambda>i j. vs_version (the (hp i)) < vs_version (the (hp j))) ss"

lemma clear_all_merged_ok:
  "\<lbrakk>ascending hp ss; distinct ss; \<And>i. i \<in> set ss \<Longrightarrow> hp i \<noteq> None \<and> v < vs_version (the (hp i))\<rbrakk> \<Longrightarrow>
   clear_all_merged v ss hp = Inr (unmark ss hp)"
proof (induction ss arbitrary: v hp)
  case (Cons c cs)
  obtain s where s: "hp c = Some s" "v < vs_version s" using Cons.prems(3) [of c] by auto
  define hp1 where "hp1 = on_store (\<lambda>s. s\<lparr>merged := False\<rparr>) c hp"
  have same: "hp1 i = hp i" if "i \<in> set cs" for i using that Cons.prems(2) by (auto simp: hp1_def on_store_def)
  have "ascending hp cs" using Cons.prems(1) by (simp add: ascending_def)
  then have "ascending hp1 cs" unfolding ascending_def by (rule sorted_wrt_mono_rel [rotated]) (simp add: same)
  moreover have "hp1 i \<noteq> None \<and> vs_version s < vs_version (the (hp1 i))" if "i \<in> set cs" for i
    using that Cons.prems(1) Cons.prems(3) [of i] s(1) same [OF that] by (auto simp: ascending_def)
  ultimately have "clear_all_merged (vs_version s) cs hp1 = Inr (unmark cs hp1)" by (intro Cons.IH) (use Cons.prems(2) in auto)
  moreover have "unmark cs hp1 = unmark (c # cs) hp" using Cons.prems(2) by (auto simp: unmark_def hp1_def on_store_def fun_eq_iff)
  ultimately show ?case using s by (simp add: deref_def hp1_def not_le [symmetric])
qed (simp add: unmark_def fun_eq_iff)

lemma merge_idle_unused:
  "(\<And>c. c \<in> set xs \<Longrightarrow> hp c \<noteq> None \<and> readers (the (hp c)) = 0) \<Longrightarrow>
   merge_idle h idle (xs @ ys) hp = merge_idle h (idle @ xs) ys hp"
proof (induction xs arbitrary: idle)
  case (Cons c xs)
  obtain s where "hp c = Some s" "readers s = 0" using Cons.prems [of c] by auto
  then show ?case using Cons.IH [of "idle @ [c]"] Cons.prems by (simp add: deref_def is_unused_def)
qed simp

lemma merge_idle_used:
  "(\<And>c. c \<in> set ys \<Longrightarrow> hp c \<noteq> None \<and> 0 < readers (the (hp c))) \<Longrightarrow> merge_idle h [] ys hp = Inr hp"
proof (induction ys)
  case (Cons c ys)
  obtain s where "hp c = Some s" "0 < readers s" using Cons.prems [of c] by auto
  then show ?case using Cons by (simp add: deref_def is_unused_def merge_idle_run_def)
qed (simp add: merge_idle_run_def)

definition orphan :: "version_store \<Rightarrow> version_store" where
  "orphan s = (vs_set_transient True s)\<lparr>based := None\<rparr>"

lemma drop_kept:
  "(\<And>c. c \<in> set us \<Longrightarrow> hp c \<noteq> None \<and> \<not> merged (the (hp c))) \<Longrightarrow>
   drop_merged h False (us @ ms) (hp, sv) = bindE (drop_merged h False ms (hp, sv)) (\<lambda>(ks, hp', sv'). Inr (us @ ks, hp', sv'))"
proof (induction us)
  case Nil
  then show ?case by (cases "drop_merged h False ms (hp, sv)") auto
next
  case (Cons c us)
  obtain s where "hp c = Some s" "\<not> merged s" using Cons.prems [of c] by auto
  then show ?case using Cons by (cases "drop_merged h False ms (hp, sv)") (auto simp: deref_def split_beta)
qed

lemma drop_dropped:
  "\<lbrakk>distinct ms; \<And>c. c \<in> set ms \<Longrightarrow> alloc_of hp c \<noteq> None \<and> merged (the (hp c)) \<and> readers (the (hp c)) = 0\<rbrakk> \<Longrightarrow>
   drop_merged h False ms (hp, sv) =
     Inr ([], (\<lambda>i. if i \<in> set ms then map_option orphan (hp i) else hp i),
          filter (\<lambda>p. fst p \<notin> (\<lambda>c. vs_version (the (hp c))) ` set ms) sv)"
proof (induction ms arbitrary: hp sv)
  case (Cons c ms)
  obtain a where a: "alloc_of hp c = Some a" using Cons.prems(2) [of c] by auto
  then obtain s where s: "hp c = Some s" "merged s" "readers s = 0" using Cons.prems(2) [of c] alloc_exists [OF a] by auto
  define hp1 where "hp1 = on_store (\<lambda>s. (vs_set_transient True s)\<lparr>based := None\<rparr>) c hp"
  have same: "hp1 i = hp i" if "i \<noteq> c" for i using that by (simp add: hp1_def on_store_def)
  have "alloc_of hp1 i \<noteq> None \<and> merged (the (hp1 i)) \<and> readers (the (hp1 i)) = 0" if i: "i \<in> set ms" for i
  proof -
    have "hp1 i = hp i" by (rule same) (use i Cons.prems(1) in auto)
    then show ?thesis using Cons.prems(2) [of i] i by (simp add: alloc_of_def)
  qed
  then have "drop_merged h False ms (hp1, AList.delete (vs_version s) sv) =
      Inr ([], (\<lambda>i. if i \<in> set ms then map_option orphan (hp1 i) else hp1 i),
        filter (\<lambda>p. fst p \<notin> (\<lambda>c. vs_version (the (hp1 c))) ` set ms) (AList.delete (vs_version s) sv))"
    by (intro Cons.IH) (use Cons.prems(1) in auto)
  moreover have "(\<lambda>c. vs_version (the (hp1 c))) ` set ms = (\<lambda>c. vs_version (the (hp c))) ` set ms"
  proof (rule image_cong [OF refl])
    fix x assume "x \<in> set ms"
    then have "hp1 x = hp x" by (intro same) (use Cons.prems(1) in auto)
    then show "vs_version (the (hp1 x)) = vs_version (the (hp x))" by simp
  qed
  moreover have "(\<lambda>i. if i \<in> set ms then map_option orphan (hp1 i) else hp1 i) =
      (\<lambda>i. if i \<in> set (c # ms) then map_option orphan (hp i) else hp i)"
    using Cons.prems(1) same by (auto simp: hp1_def on_store_def orphan_def [abs_def] fun_eq_iff)
  moreover have "filter (\<lambda>p. fst p \<notin> V) (AList.delete (vs_version s) sv) = filter (\<lambda>p. fst p \<notin> insert (vs_version s) V) sv" for V
    by (auto simp: AList.delete_eq intro!: filter_cong)
  ultimately show ?case using a s by (simp add: deref_def is_unused_def get_allocator_eq hp1_def)
qed simp

lemma relink_same:
  "\<lbrakk>linked hp prev ss; ascending hp ss; distinct ss; \<And>c. c \<in> set ss \<Longrightarrow> vs_version (the (hp c)) \<notin> set seen;
    \<And>p. prev = Some p \<Longrightarrow> hp p \<noteq> None \<and> (\<forall>c \<in> set ss. vs_version (the (hp p)) < vs_version (the (hp c)))\<rbrakk> \<Longrightarrow>
   relink prev seen ss hp = Inr hp"
proof (induction ss arbitrary: prev seen)
  case (Cons c cs)
  obtain s where s: "hp c = Some s" "based s = prev" using Cons.prems(1) by auto
  have id: "on_store (\<lambda>s. s\<lparr>based := prev\<rparr>) c hp = hp" using s by (auto simp: on_store_def fun_eq_iff)
  have "relink (Some c) (vs_version s # seen) cs hp = Inr hp"
  proof (rule Cons.IH)
    show "linked hp (Some c) cs" "ascending hp cs" "distinct cs" using Cons.prems(1,2,3) by (simp_all add: ascending_def)
    show "vs_version (the (hp d)) \<notin> set (vs_version s # seen)" if "d \<in> set cs" for d
      using that Cons.prems(2) Cons.prems(4) [of d] s(1) by (auto simp: ascending_def)
    show "hp p \<noteq> None \<and> (\<forall>d \<in> set cs. vs_version (the (hp p)) < vs_version (the (hp d)))" if "Some c = Some p" for p
      using that Cons.prems(2) s(1) by (auto simp: ascending_def)
  qed
  moreover have "vs_version s \<notin> set seen" using Cons.prems(4) [of c] s(1) by simp
  moreover have "(case prev of None \<Rightarrow> Inr False | Some p \<Rightarrow> bindE (deref p hp) (\<lambda>q. Inr (vs_version s \<le> vs_version q))) =
      (Inr False :: bool store_result)"
    using Cons.prems(5) s(1) by (auto simp: deref_def not_le split: option.splits)
  ultimately show ?case using s(1) by (simp add: deref_def id)
qed simp

end
