(* ===== verification/MvccMerge.thy ===== *)
theory MvccMerge
  imports MvccTidy
begin

text \<open>Merging idle versions keeps the invariant of the coordinator and shows the same database.\<close>

section \<open>The coordinator after a merge\<close>

definition tidied :: "store_id list \<Rightarrow> store_id \<Rightarrow> store_id list \<Rightarrow> store_heap \<Rightarrow> mvcc \<Rightarrow> mvcc" where
  "tidied us i ms hp' m =
     m\<lparr>storages := us @ [i], heap := hp',
       storage_versions := filter (\<lambda>p. fst p \<notin> (\<lambda>c. vs_version (the (heap m c))) ` set ms) (storage_versions m)\<rparr>"

lemma tidied_simps:
  "heap (tidied us i ms hp' m) = hp'" "storages (tidied us i ms hp' m) = us @ [i]" "next_id (tidied us i ms hp' m) = next_id m"
  "recycler (tidied us i ms hp' m) = recycler m" "mv_order (tidied us i ms hp' m) = mv_order m"
  "last_comitted_version (tidied us i ms hp' m) = last_comitted_version m"
  "last_address (tidied us i ms hp' m) = last_address m" "recovery (tidied us i ms hp' m) = recovery m"
  "mv_local_writes (tidied us i ms hp' m) = mv_local_writes m"
  "active_transactions (tidied us i ms hp' m) = active_transactions m"
  "writing_transactions (tidied us i ms hp' m) = writing_transactions m"
  "storage_versions (tidied us i ms hp' m) =
     filter (\<lambda>p. fst p \<notin> (\<lambda>c. vs_version (the (heap m c))) ` set ms) (storage_versions m)"
  by (simp_all add: tidied_def)

lemma filter_versions:
  assumes n: "names_inv m" and ms: "set ms \<subseteq> set (tl (storages m))"
  shows "map snd (filter (\<lambda>p. fst p \<notin> (\<lambda>c. vs_version (the (heap m c))) ` set ms) (storage_versions m)) =
    filter (\<lambda>i. i \<notin> set ms) (map snd (storage_versions m))"
proof -
  have "fst p \<notin> (\<lambda>c. vs_version (the (heap m c))) ` set ms \<longleftrightarrow> snd p \<notin> set ms" if p: "p \<in> set (storage_versions m)" for p
  proof -
    have v: "vs_version (the (heap m (snd p))) = fst p" using n p by (force simp: names_inv_def)
    have "snd p = c" if c: "c \<in> set ms" "fst p = vs_version (the (heap m c))" for c
    proof -
      have "c \<in> snd ` set (storage_versions m)" using n ms c(1) by (auto simp: names_inv_def)
      then obtain q where q: "q \<in> set (storage_versions m)" "snd q = c" by auto
      then have "fst q = fst p" using n c(2) by (force simp: names_inv_def)
      then have "q = p" using n p q(1) by (auto simp: names_inv_def distinct_map dest: inj_onD)
      then show ?thesis using q(2) by simp
    qed
    then show ?thesis using v by force
  qed
  then have "filter (\<lambda>p. fst p \<notin> (\<lambda>c. vs_version (the (heap m c))) ` set ms) (storage_versions m) =
      filter (\<lambda>p. snd p \<notin> set ms) (storage_versions m)" by (intro filter_cong) auto
  then show ?thesis by (simp add: filter_map comp_def)
qed

definition merges :: "store_id list \<Rightarrow> store_id \<Rightarrow> store_id list \<Rightarrow> mvcc \<Rightarrow> store_heap \<Rightarrow> bool" where
  "merges us i ms m hp' \<longleftrightarrow> storages m = us @ i # ms \<and> (ms \<noteq> [] \<longrightarrow> (\<forall>c \<in> set (i # ms). readers (the (heap m c)) = 0)) \<and>
     (\<forall>j. j \<notin> set ms \<longrightarrow> map_option shape (hp' j) = map_option shape (heap m j)) \<and>
     (\<forall>j. j \<notin> set (i # ms) \<longrightarrow> alloc_of hp' j = alloc_of (heap m) j) \<and> (\<forall>j. (hp' j = None) = (heap m j = None)) \<and>
     absorbs (heap m) hp' (rev (i # ms)) i"

lemma merges_the:
  assumes "merges us i ms m hp'" "j \<notin> set ms"
  shows "based (the (hp' j)) = based (the (heap m j))" "vs_version (the (hp' j)) = vs_version (the (heap m j))"
    "readers (the (hp' j)) = readers (the (heap m j))" "vs_order (the (hp' j)) = vs_order (the (heap m j))"
    "read_only (the (hp' j)) = read_only (the (heap m j))" "base hp' j = base (heap m) j"
proof -
  have "map_option shape (hp' j) = map_option shape (heap m j)" using assms by (simp add: merges_def)
  then show "based (the (hp' j)) = based (the (heap m j))" "vs_version (the (hp' j)) = vs_version (the (heap m j))"
    "readers (the (hp' j)) = readers (the (heap m j))" "vs_order (the (hp' j)) = vs_order (the (heap m j))"
    "read_only (the (hp' j)) = read_only (the (heap m j))" "base hp' j = base (heap m) j"
    by (cases "heap m j"; cases "hp' j"; simp add: shape_eq base_def)+
qed

lemma merges_sets:
  assumes inv: "mvcc_inv m" and mg: "merges us i ms m hp'"
  shows "distinct (us @ i # ms)" "set ms \<subseteq> set (tl (storages m))" "i \<notin> set ms" "set (us @ [i]) \<subseteq> set (storages m)"
    "t \<in> set (actives m) \<union> set (recycler m) \<Longrightarrow> t \<notin> set (storages m)"
    "actives (tidied us i ms hp' m) = actives m" "set (us @ [i]) \<inter> set ms = {}"
proof -
  have st: "storages m = us @ i # ms" using mg by (simp add: merges_def)
  show d: "distinct (us @ i # ms)" using mvcc_invD(2) [OF inv] st by simp
  show tl: "set ms \<subseteq> set (tl (storages m))" unfolding st by (cases us) auto
  show "i \<notin> set ms" "set (us @ [i]) \<subseteq> set (storages m)" "set (us @ [i]) \<inter> set ms = {}" using d st by auto
  have n: "names_inv m" using inv by (simp add: mvcc_inv_def)
  show "t \<notin> set (storages m)" if "t \<in> set (actives m) \<union> set (recycler m)" using that n by (auto simp: actives_def names_inv_def)
  show "actives (tidied us i ms hp' m) = actives m"
    unfolding actives_def tidied_simps filter_versions [OF n tl] filter_filter st by (rule filter_cong) auto
qed

lemma merges_bases:
  assumes inv: "mvcc_inv m" and mg: "merges us i ms m hp'" and t: "t \<in> set (actives m)"
  shows "base (heap m) t \<in> set (us @ [i])" "base (heap m) t = i \<Longrightarrow> ms = []"
proof -
  have st: "storages m = us @ i # ms" using mg by (simp add: merges_def)
  note b = active_based(2) [OF inv t]
  have "0 < readers (the (heap m (base (heap m) t)))" using readers_without [OF inv t b] by (simp add: reach_def)
  then have "ms \<noteq> [] \<Longrightarrow> base (heap m) t \<notin> set (i # ms)" using mg by (auto simp: merges_def)
  then show "base (heap m) t \<in> set (us @ [i])" "base (heap m) t = i \<Longrightarrow> ms = []" using b st by (cases "ms = []"; auto)+
qed

lemma merges_oldest:
  assumes inv: "mvcc_inv m" and mg: "merges us i ms m hp'"
  shows "older (heap m) j i \<Longrightarrow> (\<And>c. c \<in> set ms \<Longrightarrow> older (heap m) j c) \<Longrightarrow> j \<notin> set (i # ms) \<Longrightarrow> older hp' j i"
    "older (heap m) i j \<Longrightarrow> ms = [] \<Longrightarrow> j \<noteq> i \<Longrightarrow> older hp' i j"
proof -
  obtain a' where a: "alloc_of hp' i = Some a'" "vset a' \<subseteq> (\<Union>j \<in> set (rev (i # ms)). vset (the (alloc_of (heap m) j)))"
    using mg unfolding merges_def absorbs_def by blast
  have same: "j \<notin> set (i # ms) \<Longrightarrow> alloc_of hp' j = alloc_of (heap m) j" for j using mg by (simp add: merges_def)
  show "older hp' j i" if "older (heap m) j i" "\<And>c. c \<in> set ms \<Longrightarrow> older (heap m) j c" "j \<notin> set (i # ms)"
    unfolding older_def
  proof (intro ballI)
    fix x y assume x: "x \<in> vset (the (alloc_of hp' j))" and y: "y \<in> vset (the (alloc_of hp' i))"
    from y a obtain c where c: "c \<in> set (i # ms)" "y \<in> vset (the (alloc_of (heap m) c))" by auto
    then have "older (heap m) j c" using that(1,2) by auto
    then show "x < y" using x c(2) same [OF that(3)] by (auto simp: older_def)
  qed
  show "older hp' i j" if "older (heap m) i j" "ms = []" "j \<noteq> i"
    using that a same [of j] by (auto simp: older_def)
qed

lemma merges_views:
  assumes inv: "mvcc_inv m" and mg: "merges us i ms m hp'"
  shows "j \<notin> set (i # ms) \<Longrightarrow> vview hp' j = vview (heap m) j" "cview hp' (rev (us @ [i])) = cview (heap m) (rev (storages m))"
    "t \<in> set (actives m) \<Longrightarrow> cview hp' (rev (reach (us @ [i]) (base hp' t))) = cview (heap m) (rev (reach (storages m) (base (heap m) t)))"
proof -
  note s = merges_sets [OF inv mg]
  have st: "storages m = us @ i # ms" using mg by (simp add: merges_def)
  show v: "vview hp' j = vview (heap m) j" if "j \<notin> set (i # ms)" for j using that mg by (simp add: merges_def vview_def)
  have vi: "vview hp' i = cview (heap m) (rev (i # ms))" using mg by (auto simp: merges_def absorbs_def vview_def)
  have app: "cview hp (xs @ ys) = cview hp ys ++ cview hp xs" for hp xs ys by (induction xs) simp_all
  have u: "cview hp' (rev us) = cview (heap m) (rev us)" by (rule cview_cong, rule v) (use s(1) in auto)
  show c: "cview hp' (rev (us @ [i])) = cview (heap m) (rev (storages m))" using u vi by (simp add: st app)
  assume t: "t \<in> set (actives m)"
  have "t \<notin> set ms" using s(5) [of t] t st by auto
  then have bt: "base hp' t = base (heap m) t" by (rule merges_the(6) [OF mg])
  note b = merges_bases [OF inv mg t]
  show "cview hp' (rev (reach (us @ [i]) (base hp' t))) = cview (heap m) (rev (reach (storages m) (base (heap m) t)))"
  proof (cases "base (heap m) t = i")
    case True
    then have "ms = []" by (rule b(2))
    then show ?thesis using c True s(1) by (simp add: bt st reach_last)
  next
    case False
    then have bu: "base (heap m) t \<in> set us" using b(1) by simp
    then have "set (reach us (base (heap m) t)) \<subseteq> set us" by (rule set_reach)
    then have "cview hp' (rev (reach us (base (heap m) t))) = cview (heap m) (rev (reach us (base (heap m) t)))"
      by (intro cview_cong v) (use s(1) in auto)
    then show ?thesis using bu by (simp add: bt st)
  qed
qed


lemma tidied_stores:
  assumes inv: "mvcc_inv m" and mg: "merges us i ms m hp'"
  shows "stores_inv (tidied us i ms hp' m)"
proof -
  note s = merges_sets [OF inv mg] and the_eq = merges_the [OF mg]
  have si: "stores_inv m" using inv by (simp add: mvcc_inv_def)
  have st: "storages m = us @ i # ms" using mg by (simp add: merges_def)
  have same: "alloc_of hp' j = alloc_of (heap m) j" if "j \<notin> set (i # ms)" for j using that mg by (simp add: merges_def)
  obtain a a' where a: "alloc_of (heap m) i = Some a" "alloc_of hp' i = Some a'" "usable a'" "kept a a'"
    using mg unfolding merges_def absorbs_def by blast
  have none: "(hp' j = None) = (heap m j = None)" for j using mg by (simp add: merges_def)
  have ok: "store_ok (next_id m) hp' j" if j: "j \<in> set (us @ [i]) \<union> set (actives m) \<union> set (recycler m)" for j
  proof -
    have nm: "j \<notin> set ms" using j s(4,5,7) st by auto
    have o: "store_ok (next_id m) (heap m) j" using mvcc_invD(5) [OF inv, of j] j s(4) by auto
    show ?thesis
    proof (cases "j = i")
      case True
      then show ?thesis using o a none [of i] the_eq(2) [OF nm] by (auto simp: store_ok_def usable_at_def kept_def)
    next
      case False
      then have "alloc_of hp' j = alloc_of (heap m) j" using nm by (simp add: same)
      then show ?thesis using o none [of j] the_eq(2) [OF nm] by (simp add: store_ok_def usable_at_def)
    qed
  qed
  have "linked hp' p xs = linked (heap m) p xs" if "set xs \<inter> set ms = {}" for p xs
    using that by (induction xs arbitrary: p) (auto simp: none the_eq)
  moreover have "linked (heap m) None (us @ [i])" using si unfolding stores_inv_def st by (simp add: linked_append)
  ultimately have li: "linked hp' None (us @ [i])" using s(7) by blast
  have so: "sorted_wrt (older (heap m)) (us @ i # ms)" using si unfolding stores_inv_def st by simp
  have "sorted_wrt (older hp') us"
  proof (rule sorted_wrt_mono_rel)
    show "sorted_wrt (older (heap m)) us" using so by (simp add: sorted_wrt_append)
    fix x y assume "x \<in> set us" "y \<in> set us" "older (heap m) x y"
    moreover from this have "x \<notin> set (i # ms)" "y \<notin> set (i # ms)" using s(1) by auto
    ultimately show "older hp' x y" by (simp add: older_def same)
  qed
  moreover have "older hp' x i" if x: "x \<in> set us" for x
    by (rule merges_oldest(1) [OF inv mg]) (use x so s(1) in \<open>auto simp: sorted_wrt_append\<close>)
  ultimately have so': "sorted_wrt (older hp') (us @ [i])" by (simp add: sorted_wrt_append)
  have op: "opened (the (alloc_of hp' b))" if b: "b \<in> set (tl (us @ [i]))" for b
  proof -
    have o: "opened (the (alloc_of (heap m) b))" using si b unfolding stores_inv_def st by (cases us) auto
    show ?thesis
    proof (cases "b = i")
      case True
      then show ?thesis using o a by (simp add: kept_def)
    next
      case False
      have "b \<in> set (us @ [i])" using b by (cases us) auto
      then have "b \<notin> set ms" using s(7) by auto
      then show ?thesis using False o by (simp add: same)
    qed
  qed
  show ?thesis
    unfolding stores_inv_def tidied_simps s(6) using si ok li so' op none s(1) by (simp add: stores_inv_def)
qed

lemma tidied_names:
  assumes inv: "mvcc_inv m" and mg: "merges us i ms m hp'"
  shows "names_inv (tidied us i ms hp' m)"
proof -
  note s = merges_sets [OF inv mg] and the_eq = merges_the [OF mg]
  have n: "names_inv m" using inv by (simp add: mvcc_inv_def)
  have st: "storages m = us @ i # ms" using mg by (simp add: merges_def)
  define sv where "sv = filter (\<lambda>p. fst p \<notin> (\<lambda>c. vs_version (the (heap m c))) ` set ms) (storage_versions m)"
  have fv: "map snd sv = filter (\<lambda>i. i \<notin> set ms) (map snd (storage_versions m))"
    unfolding sv_def by (rule filter_versions [OF n s(2)])
  have sub: "set sv \<subseteq> set (storage_versions m)" by (auto simp: sv_def)
  have snds: "snd ` set sv = snd ` set (storage_versions m) - set ms" using arg_cong [OF fv, of set] by auto
  have rm: "r \<notin> set ms" "r \<noteq> i" "r \<notin> set us" if "r \<in> set (recycler m)" for r using s(5) [of r] that st by auto
  have old: "vs_version (the (hp' r)) \<notin> fst ` set sv \<and> vview hp' r = Map.empty \<and> read_only (the (hp' r))"
    if r: "r \<in> set (recycler m)" for r
  proof -
    have "vs_version (the (heap m r)) \<notin> fst ` set (storage_versions m)" "vview (heap m) r = Map.empty" "read_only (the (heap m r))"
      using n r unfolding names_inv_def by blast+
    moreover have "vview hp' r = vview (heap m) r" by (rule merges_views(1) [OF inv mg]) (use rm [OF r] in simp)
    ultimately show ?thesis using sub the_eq(2,5) [OF rm(1) [OF r]] by auto
  qed
  have vv: "vs_version (the (hp' j)) = v" if "(v, j) \<in> set sv" for v j
  proof -
    have "j \<notin> set ms" using snds image_eqI [OF _ that, of j snd] by auto
    moreover have "vs_version (the (heap m j)) = v" using n sub that unfolding names_inv_def by blast
    ultimately show ?thesis using the_eq(2) by simp
  qed
  have inj: "inj_on (\<lambda>r. vs_version (the (hp' r))) (set (recycler m))"
    using n the_eq(2) [OF rm(1)] by (simp add: names_inv_def cong: inj_on_cong)
  show ?thesis
    unfolding names_inv_def tidied_simps sv_def [symmetric]
  proof (intro conjI)
    show "distinct (map fst sv)" unfolding sv_def using n by (simp add: names_inv_def distinct_map_filter)
    show "distinct (map snd sv)" unfolding fv using n by (simp add: names_inv_def)
    show "\<forall>(v, j) \<in> set sv. vs_version (the (hp' j)) = v" using vv by auto
    show "\<forall>c \<in> set (tl (us @ [i])). c \<in> snd ` set sv"
    proof
      fix c assume c: "c \<in> set (tl (us @ [i]))"
      then have "c \<in> set (tl (storages m))" unfolding st by (cases us) auto
      then have "c \<in> snd ` set (storage_versions m)" using n by (simp add: names_inv_def)
      moreover have "c \<in> set (us @ [i])" using c by (cases us) auto
      then have "c \<notin> set ms" using s(7) by auto
      ultimately show "c \<in> snd ` set sv" using snds by auto
    qed
    show "hd (us @ [i]) \<notin> snd ` set sv"
    proof -
      have "hd (us @ [i]) = hd (storages m)" unfolding st by (cases us) auto
      moreover have "hd (storages m) \<notin> snd ` set (storage_versions m)" using n by (simp add: names_inv_def)
      ultimately show ?thesis using snds by auto
    qed
    show "distinct (recycler m)" using n by (simp add: names_inv_def)
    show "set (recycler m) \<inter> (set (us @ [i]) \<union> snd ` set sv) = {}"
    proof -
      have "set (recycler m) \<inter> snd ` set (storage_versions m) = {}" using n by (auto simp: names_inv_def)
      moreover have "i \<notin> set (recycler m)" using rm(2) by blast
      ultimately show ?thesis using snds rm(3) by auto
    qed
  qed (use old inj in auto)
qed

lemma tidied_txns:
  assumes inv: "mvcc_inv m" and mg: "merges us i ms m hp'"
  shows "txns_inv (tidied us i ms hp' m)"
proof -
  note s = merges_sets [OF inv mg] and the_eq = merges_the [OF mg]
  have x: "txns_inv m" using inv by (simp add: mvcc_inv_def)
  have st: "storages m = us @ i # ms" using mg by (simp add: merges_def)
  have tm: "t \<notin> set ms" "t \<noteq> i" "t \<notin> set us" if "t \<in> set (actives m)" for t using s(5) [of t] that st by auto
  note te = the_eq [OF tm(1)]
  have fw: "filter (\<lambda>t. \<not> read_only (the (hp' t))) (actives m) = filter (\<lambda>t. \<not> read_only (the (heap m t))) (actives m)"
    by (rule filter_cong) (simp_all add: te)
  have same: "alloc_of hp' j = alloc_of (heap m) j" if "j \<notin> set (i # ms)" for j using that mg by (simp add: merges_def)
  have rd: "readers (the (hp' b)) = length (filter (\<lambda>t. b \<in> set (reach (us @ [i]) (base hp' t))) (actives m))"
    if b: "b \<in> set (us @ [i])" for b
  proof -
    have "b \<notin> set ms" using b s(7) by auto
    then have "readers (the (hp' b)) = readers (the (heap m b))" by (rule the_eq(3))
    also have "\<dots> = length (filter (\<lambda>t. b \<in> set (reach (storages m) (base (heap m) t))) (actives m))"
      by (rule readers_eq [OF inv]) (use b s(4) in auto)
    also have "filter (\<lambda>t. b \<in> set (reach (storages m) (base (heap m) t))) (actives m) =
        filter (\<lambda>t. b \<in> set (reach (us @ [i]) (base hp' t))) (actives m)"
    proof (rule filter_cong [OF refl])
      fix t assume t: "t \<in> set (actives m)"
      have "storages m = (us @ [i]) @ ms" using st by simp
      then show "(b \<in> set (reach (storages m) (base (heap m) t))) = (b \<in> set (reach (us @ [i]) (base hp' t)))"
        using reach_append [OF merges_bases(1) [OF inv mg t], of ms] te(6) [OF t] by simp
    qed
    finally show ?thesis .
  qed
  have each: "if read_only (the (hp' t)) then vview hp' t = Map.empty
        else base hp' t = last (us @ [i]) \<and> (\<forall>b \<in> set (us @ [i]). older hp' b t) \<and> opened (the (alloc_of hp' t)) \<and>
          vs_order (the (hp' t)) = mv_order m \<and> readers (the (hp' t)) = 0 \<and> last_comitted_version m < vs_version (the (hp' t)) \<and>
          last_address m \<le> next_address (the (alloc_of hp' t))" if t: "t \<in> set (actives m)" for t
  proof -
    have e: "if read_only (the (heap m t)) then vview (heap m) t = Map.empty
        else base (heap m) t = last (storages m) \<and> (\<forall>b \<in> set (storages m). older (heap m) b t) \<and>
          opened (the (alloc_of (heap m) t)) \<and> vs_order (the (heap m t)) = mv_order m \<and> readers (the (heap m t)) = 0 \<and>
          last_comitted_version m < vs_version (the (heap m t)) \<and> last_address m \<le> next_address (the (alloc_of (heap m) t))"
      using x t by (simp add: txns_inv_def)
    have al: "alloc_of hp' t = alloc_of (heap m) t" using tm [OF t] by (simp add: same)
    show ?thesis
    proof (cases "read_only (the (heap m t))")
      case True
      then show ?thesis using e te(5) [OF t] al by (simp add: vview_def)
    next
      case False
      then have w: "base (heap m) t = last (storages m)" "\<forall>b \<in> set (storages m). older (heap m) b t" using e by simp_all
      have ms: "ms = []"
      proof (rule ccontr)
        assume "ms \<noteq> []"
        then have "base (heap m) t \<in> set ms" using w(1) st by simp
        then show False using merges_bases(1) [OF inv mg t] s(7) by auto
      qed
      have "older hp' b t" if b: "b \<in> set (us @ [i])" for b
      proof (cases "b = i")
        case True
        then show ?thesis using merges_oldest(2) [OF inv mg _ ms] w(2) st tm(2) [OF t] by auto
      next
        case False
        then have "b \<notin> set (i # ms)" "older (heap m) b t" using b w(2) st s(7) by auto
        then show ?thesis using al by (simp add: older_def same)
      qed
      moreover have "base hp' t = last (us @ [i])" using w(1) ms st te(6) [OF t] by simp
      ultimately show ?thesis using False e te [OF t] al by simp
    qed
  qed
  have bs: "\<exists>b. based (the (hp' t)) = Some b \<and> b \<in> set (us @ [i])" if t: "t \<in> set (actives m)" for t
    using active_based(1) [OF inv t] merges_bases(1) [OF inv mg t] te(1) [OF t] by simp
  have la: "w \<le> last_address m" if "w \<in> dom (cview hp' (rev (us @ [i])))" for w
    using that x unfolding merges_views(2) [OF inv mg] by (simp add: txns_inv_def)
  show ?thesis
    unfolding txns_inv_def tidied_simps s(6) fw
  proof (intro conjI)
    show "\<forall>w \<in> dom (cview hp' (rev (us @ [i]))). w \<le> last_address m" using la by blast
  qed (use x rd each bs in \<open>simp_all add: txns_inv_def\<close>)
qed

lemma tidied_db:
  assumes inv: "mvcc_inv m" and mg: "merges us i ms m hp'"
  shows "db (tidied us i ms hp' m) = db m"
proof -
  note s = merges_sets [OF inv mg]
  have st: "storages m = us @ i # ms" using mg by (simp add: merges_def)
  have "txn_of (tidied us i ms hp' m) t = txn_of m t" if t: "t \<in> set (actives m)" for t
  proof -
    have tm: "t \<notin> set (i # ms)" using s(5) [of t] t st by auto
    then show ?thesis using merges_the(5) [OF mg, of t] merges_views(1) [OF inv mg tm] merges_views(3) [OF inv mg t]
      by (simp add: txn_of_def tidied_simps)
  qed
  then show ?thesis using merges_views(2) [OF inv mg] s(6) by (auto simp: db_def tidied_simps fun_eq_iff)
qed


section \<open>The merge\<close>

lemma reach_before:
  assumes "distinct (xs @ d # ys)" "b \<in> set (xs @ d # ys)" "c \<in> set ys" "c \<in> set (reach (xs @ d # ys) b)"
  shows "d \<in> set (reach (xs @ d # ys) b)"
proof (rule ccontr)
  assume d: "d \<notin> set (reach (xs @ d # ys) b)"
  obtain zs where z: "xs @ d # ys = reach (xs @ d # ys) b @ zs" using reach_prefix [OF assms(2)] by blast
  define rs where "rs = reach (xs @ d # ys) b"
  have z: "xs @ d # ys = rs @ zs" using z by (simp add: rs_def)
  from z consider us where "xs = rs @ us" | us where "rs = xs @ us" "us @ zs = d # ys" by (auto simp: append_eq_append_conv2)
  then show False
  proof cases
    case 1
    have "c \<in> set rs" using assms(4) by (simp add: rs_def)
    then have "c \<in> set xs" by (simp add: 1)
    then show False using assms(1,3) by auto
  next
    case 2
    then show False using d assms by (cases us) (auto simp: rs_def)
  qed
qed

text \<open>The versions that are read come before those that are not.\<close>

lemma split_used:
  assumes inv: "mvcc_inv m"
  obtains us vs where "storages m = us @ vs" "\<And>c. c \<in> set us \<Longrightarrow> 0 < readers (the (heap m c))"
    "\<And>c. c \<in> set vs \<Longrightarrow> readers (the (heap m c)) = 0"
proof -
  let ?P = "\<lambda>c. 0 < readers (the (heap m c))"
  define us where "us = takeWhile ?P (storages m)"
  define vs where "vs = dropWhile ?P (storages m)"
  have st: "storages m = us @ vs" by (simp add: us_def vs_def)
  have u: "?P c" if "c \<in> set us" for c using that set_takeWhileD unfolding us_def by fastforce
  have v: "readers (the (heap m c)) = 0" if c: "c \<in> set vs" for c
  proof (rule ccontr)
    assume r: "readers (the (heap m c)) \<noteq> 0"
    obtain d ws where d: "vs = d # ws" using c by (cases vs) auto
    then have dr: "\<not> ?P d" unfolding vs_def by (simp add: dropWhile_eq_Cons_conv)
    then have cw: "c \<in> set ws" using c d r by auto
    have cs: "c \<in> set (storages m)" using c st by simp
    from r readers_eq [OF inv cs] obtain t where t: "t \<in> set (actives m)" "c \<in> set (reach (storages m) (base (heap m) t))"
      by (auto simp: filter_empty_conv)
    have s: "storages m = us @ d # ws" using st d by simp
    have "d \<in> set (reach (storages m) (base (heap m) t))"
      unfolding s by (rule reach_before) (use mvcc_invD(2) [OF inv] active_based(2) [OF inv t(1)] cw t(2) s in auto)
    moreover have "d \<in> set (storages m)" using s by simp
    ultimately have "0 < readers (the (heap m d))" using readers_without [OF inv t(1)] by simp
    then show False using dr by simp
  qed
  show ?thesis by (rule that [OF st u v])
qed

lemma storages_ascending: "mvcc_inv m \<Longrightarrow> ascending (heap m) (storages m)"
proof -
  assume inv: "mvcc_inv m"
  then have "sorted_wrt (older (heap m)) (storages m)" by (simp add: mvcc_inv_def stores_inv_def)
  then show ?thesis
    unfolding ascending_def
    by (rule sorted_wrt_mono_rel [rotated]) (use mvcc_invD(5) [OF inv] in \<open>auto intro!: older_version simp: store_ok_def\<close>)
qed

text \<open>After the first two loops.\<close>

definition idle_merged :: "mvcc \<Rightarrow> store_id list \<Rightarrow> store_id \<Rightarrow> store_id list \<Rightarrow> store_heap \<Rightarrow> bool" where
  "idle_merged m us i ms hp2 \<longleftrightarrow> storages m = us @ i # ms \<and> (\<forall>c \<in> set us. 0 < readers (the (heap m c))) \<and>
     (ms \<noteq> [] \<longrightarrow> (\<forall>c \<in> set (i # ms). readers (the (heap m c)) = 0)) \<and>
     same_shapes (heap m) hp2 \<and> (\<forall>j. j \<notin> set (i # ms) \<longrightarrow> alloc_of hp2 j = alloc_of (heap m) j) \<and>
     (\<forall>c \<in> set (us @ [i]). \<not> merged (the (hp2 c))) \<and> (\<forall>c \<in> set ms. merged (the (hp2 c)) \<and> alloc_of hp2 c \<noteq> None) \<and>
     absorbs (heap m) hp2 (rev (i # ms)) i"

lemma alloc_of_unmark [simp]: "alloc_of (unmark ss hp) i = alloc_of hp i"
  by (cases "hp i") (auto simp: alloc_of_def unmark_def)

lemma shapes_unmark: "same_shapes hp (unmark ss hp)"
  by (auto simp: same_shapes_def unmark_def option.map_comp comp_def)

lemma unmark_merged: "c \<in> set ss \<Longrightarrow> hp c \<noteq> None \<Longrightarrow> \<not> merged (the (unmark ss hp c))"
  by (auto simp: unmark_def)

lemma absorbs_unmark: "absorbs (unmark ss hp) hp' xs i = absorbs hp hp' xs i"
proof -
  have "cview (unmark ss hp) xs = cview hp xs" by (rule cview_cong) (simp add: vview_def)
  then show ?thesis by (simp add: absorbs_def)
qed

lemma absorbs_self: "usable_at hp i \<Longrightarrow> absorbs hp (unmark ss hp) [i] i"
  by (auto simp: absorbs_def usable_at_def vview_def)


lemma idle_ok:
  assumes inv: "mvcc_inv m"
  shows "\<exists>us i ms hp2. merge_idle h [] (rev (storages m)) (unmark (storages m) (heap m)) = Inr hp2 \<and> idle_merged m us i ms hp2"
proof -
  obtain us vs where s: "storages m = us @ vs" "\<And>c. c \<in> set us \<Longrightarrow> 0 < readers (the (heap m c))"
    "\<And>c. c \<in> set vs \<Longrightarrow> readers (the (heap m c)) = 0" by (rule split_used [OF inv]) blast
  define hp1 where "hp1 = unmark (storages m) (heap m)"
  have sh: "same_shapes (heap m) hp1" unfolding hp1_def by (rule shapes_unmark)
  note ok = mvcc_invD(5) [OF inv]
  have h1: "hp1 c \<noteq> None" if "c \<in> set (storages m)" for c
    using ok [of c] that shapes_the(6) [OF sh, of c] by (simp add: store_ok_def)
  have un: "\<not> merged (the (hp1 c))" if "c \<in> set (storages m)" for c
    unfolding hp1_def by (rule unmark_merged [OF that]) (use ok [of c] that in \<open>simp add: store_ok_def\<close>)
  have d: "distinct (us @ vs)" using mvcc_invD(2) [OF inv] s(1) by simp
  have used: "merge_idle h [] (rev us) hp = Inr hp" if "\<And>c. c \<in> set us \<Longrightarrow> hp c = hp1 c" for hp
    by (rule merge_idle_used) (use that s h1 shapes_the(3) [OF sh] in auto)
  show ?thesis
  proof (cases vs)
    case Nil
    then have "us \<noteq> []" using s(1) mvcc_invD(1) [OF inv] by simp
    then obtain us' i where u: "us = us' @ [i]" by (metis append_butlast_last_id)
    have st: "storages m = us' @ [i]" using s(1) Nil u by simp
    have "merge_idle h [] (rev (storages m)) hp1 = Inr hp1" using used [of hp1] s(1) Nil by simp
    moreover have "absorbs (heap m) hp1 [i] i" unfolding hp1_def by (rule absorbs_self) (use ok [of i] st in \<open>simp add: store_ok_def\<close>)
    then have "idle_merged m us' i [] hp1" using st sh un s(2) u by (simp add: idle_merged_def hp1_def)
    ultimately show ?thesis unfolding hp1_def by blast
  next
    case (Cons i ms)
    define run where "run = rev vs"
    obtain l rs where lr: "run = l # rs" unfolding run_def by (cases "rev vs") (auto simp: Cons)
    have last: "last (l # rs) = i" using lr unfolding run_def Cons by (metis last_snoc rev.simps(2))
    have sets: "set (l # rs) = set vs" using lr unfolding run_def by (metis set_rev)
    have "distinct (l # rs)" using d lr unfolding run_def by (metis distinct_append distinct_rev)
    moreover have "mergeable hp1 j" if j: "j \<in> set (l # rs)" for j
    proof -
      have "j \<in> set vs" using j unfolding sets .
      then have "store_ok (next_id m) (heap m) j" "readers (the (heap m j)) = 0" using ok [of j] s(1,3) by auto
      moreover have "alloc_of hp1 j = alloc_of (heap m) j" by (simp add: hp1_def)
      ultimately show ?thesis using shapes_the(2,3) [OF sh, of j] by (simp add: mergeable_def store_ok_def usable_at_def)
    qed
    moreover have "opened (the (alloc_of hp1 j))" if "j \<in> set (butlast (l # rs))" for j
    proof -
      have "l # rs = rev ms @ [i]" using lr unfolding run_def Cons by simp
      then have "j \<in> set ms" using that by simp
      then have "j \<in> set (tl (storages m))" unfolding s(1) Cons by (cases us) auto
      then show ?thesis using inv by (simp add: mvcc_inv_def stores_inv_def hp1_def)
    qed
    moreover have "sorted_wrt (\<lambda>i j. older hp1 j i) (l # rs)"
    proof -
      have "sorted_wrt (older (heap m)) vs" using inv by (simp add: mvcc_inv_def stores_inv_def s(1) sorted_wrt_append)
      moreover have "older hp1 = older (heap m)" by (simp add: older_def hp1_def fun_eq_iff)
      ultimately show ?thesis unfolding lr [symmetric] run_def by (simp add: sorted_wrt_rev)
    qed
    ultimately obtain hp2 where r: "merge_run h l rs hp1 = Inr hp2" "same_shapes hp1 hp2" "\<forall>j. j \<notin> set (l # rs) \<longrightarrow> hp2 j = hp1 j"
      "\<forall>j \<in> set (l # rs). merged (the (hp2 j)) = (j \<noteq> i) \<and> alloc_of hp2 j \<noteq> None" "absorbs hp1 hp2 (l # rs) i"
      using merge_run_ok [of l rs hp1 h] unfolding last by blast
    have same: "hp2 j = hp1 j" if "j \<notin> set vs" for j using r(3) that unfolding sets by blast
    have "merge_idle h [] (rev vs @ rev us) hp1 = merge_idle h (rev vs) (rev us) hp1"
      using merge_idle_unused [of "rev vs" hp1 h "[]" "rev us"] h1 s shapes_the(3) [OF sh] by simp
    also have "\<dots> = bindE (merge_idle_run h (rev vs) hp1) (\<lambda>hp. merge_idle h [] (rev us) hp)"
    proof (cases "rev us")
      case Nil
      then show ?thesis by (cases "merge_idle_run h (rev vs) hp1") (simp_all add: merge_idle_run_def)
    next
      case (Cons c cs)
      then have c: "c \<in> set us" by (metis list.set_intros(1) set_rev)
      then obtain x where x: "hp1 c = Some x" "0 < readers x" using h1 [of c] s shapes_the(3) [OF sh, of c] by auto
      have "merge_idle h [] (c # cs) hp2 = merge_idle h [] cs hp2"
      proof -
        have "c \<notin> set vs" using c d by auto
        then have "hp2 c = Some x" using x(1) same by simp
        then show ?thesis using x(2) by (simp add: deref_def is_unused_def merge_idle_run_def)
      qed
      then show ?thesis using Cons x r(1) lr by (simp add: deref_def is_unused_def merge_idle_run_def run_def)
    qed
    also have "\<dots> = Inr hp2"
      using used [of hp2] same d lr r(1) by (auto simp: merge_idle_run_def run_def [symmetric])
    finally have m: "merge_idle h [] (rev (storages m)) hp1 = Inr hp2" using s(1) by simp
    have "absorbs (heap m) hp2 (rev (i # ms)) i" using r(5) lr absorbs_unmark unfolding run_def Cons hp1_def by metis
    moreover have "same_shapes (heap m) hp2" by (rule same_shapes_trans [OF sh r(2)])
    moreover have "alloc_of hp2 j = alloc_of (heap m) j" if "j \<notin> set (i # ms)" for j
    proof -
      have "hp2 j = hp1 j" using same that Cons by simp
      then have "alloc_of hp2 j = alloc_of hp1 j" by (simp add: alloc_of_def)
      then show ?thesis by (simp add: hp1_def)
    qed
    moreover have r4: "merged (the (hp2 j)) = (j \<noteq> i) \<and> alloc_of hp2 j \<noteq> None" if "j \<in> set vs" for j
      using r(4) that unfolding sets by blast
    moreover have "\<not> merged (the (hp2 c))" if c: "c \<in> set (us @ [i])" for c
    proof (cases "c = i")
      case True
      then show ?thesis using r4 [of i] Cons by simp
    next
      case False
      then have "c \<notin> set vs" using c d Cons by auto
      then show ?thesis using same [of c] un [of c] c s(1) Cons by auto
    qed
    moreover have "merged (the (hp2 c)) \<and> alloc_of hp2 c \<noteq> None" if c: "c \<in> set ms" for c
      using r4 [of c] c d Cons by auto
    ultimately have "idle_merged m us i ms hp2" using s Cons by (simp add: idle_merged_def)
    then show ?thesis using m unfolding hp1_def by blast
  qed
qed

lemma merge_down_ok:
  assumes inv: "mvcc_inv m"
  shows "\<exists>m'. merge_down h m = Inr m' \<and> mvcc_inv m' \<and> db m' = db m \<and> actives m' = actives m \<and>
    journal_synching m' = journal_synching m \<and> hd (storages m') = hd (storages m) \<and>
    (\<not> journal_synching m \<longrightarrow> (\<forall>c \<in> set (butlast (storages m')). 0 < readers (the (heap m' c))))"
proof (cases "journal_synching m")
  case True
  then show ?thesis using inv by (simp add: merge_down_def)
next
  case False
  note ok = mvcc_invD(5) [OF inv] and ne = mvcc_invD(1) [OF inv]
  obtain us i ms hp2 where id: "merge_idle h [] (rev (storages m)) (unmark (storages m) (heap m)) = Inr hp2" "idle_merged m us i ms hp2"
    using idle_ok [OF inv] by blast
  have st: "storages m = us @ i # ms" and us: "\<forall>c \<in> set us. 0 < readers (the (heap m c))"
    and un: "ms \<noteq> [] \<Longrightarrow> \<forall>c \<in> set (i # ms). readers (the (heap m c)) = 0" and sh: "same_shapes (heap m) hp2"
    and al: "\<forall>j. j \<notin> set (i # ms) \<longrightarrow> alloc_of hp2 j = alloc_of (heap m) j"
    and nm: "\<forall>c \<in> set (us @ [i]). \<not> merged (the (hp2 c))" and me: "\<forall>c \<in> set ms. merged (the (hp2 c)) \<and> alloc_of hp2 c \<noteq> None"
    and ab: "absorbs (heap m) hp2 (rev (i # ms)) i"
    using id(2) by (simp_all add: idle_merged_def)
  have d: "distinct (us @ i # ms)" using mvcc_invD(2) [OF inv] st by simp
  define hp3 where "hp3 = (\<lambda>j. if j \<in> set ms then map_option orphan (hp2 j) else hp2 j)"
  define sv where "sv = filter (\<lambda>p. fst p \<notin> (\<lambda>c. vs_version (the (heap m c))) ` set ms) (storage_versions m)"
  have c: "clear_all_merged 0 (storages m) (heap m) = Inr (unmark (storages m) (heap m))"
    by (rule clear_all_merged_ok [OF storages_ascending [OF inv] mvcc_invD(2) [OF inv]]) (use ok in \<open>simp add: store_ok_def\<close>)
  have h2: "hp2 c \<noteq> None" if "c \<in> set (storages m)" for c using ok [of c] that shapes_the(6) [OF sh, of c] by (simp add: store_ok_def)
  have dropped: "alloc_of hp2 c \<noteq> None \<and> merged (the (hp2 c)) \<and> readers (the (hp2 c)) = 0" if c: "c \<in> set ms" for c
  proof -
    have "ms \<noteq> []" using c by auto
    then have "readers (the (heap m c)) = 0" using un c by simp
    then show ?thesis using me c shapes_the(3) [OF sh, of c] by simp
  qed
  have "drop_merged h False ms (hp2, storage_versions m) =
      Inr ([], hp3, filter (\<lambda>p. fst p \<notin> (\<lambda>c. vs_version (the (hp2 c))) ` set ms) (storage_versions m))"
    unfolding hp3_def by (rule drop_dropped) (use d dropped in auto)
  also have "(\<lambda>c. vs_version (the (hp2 c))) ` set ms = (\<lambda>c. vs_version (the (heap m c))) ` set ms" by (simp add: shapes_the(2) [OF sh])
  finally have dm: "drop_merged h False ms (hp2, storage_versions m) = Inr ([], hp3, sv)" by (simp add: sv_def)
  have dr: "drop_merged h False (storages m) (hp2, storage_versions m) = Inr (us @ [i], hp3, sv)"
  proof -
    have "drop_merged h False ((us @ [i]) @ ms) (hp2, storage_versions m) =
        bindE (drop_merged h False ms (hp2, storage_versions m)) (\<lambda>(ks, hp', sv'). Inr ((us @ [i]) @ ks, hp', sv'))"
      by (rule drop_kept) (use nm h2 st in auto)
    then show ?thesis using dm st by simp
  qed
  have mg: "merges us i ms m hp3"
  proof -
    have 1: "map_option shape (hp3 j) = map_option shape (heap m j)" if "j \<notin> set ms" for j
      using that sh by (simp add: hp3_def same_shapes_def)
    have 2: "alloc_of hp3 j = alloc_of (heap m) j" if "j \<notin> set (i # ms)" for j
      using that al by (simp add: hp3_def alloc_of_def)
    have 3: "(hp3 j = None) = (heap m j = None)" for j using shapes_the(6) [OF sh, of j] by (simp add: hp3_def)
    have "alloc_of hp3 i = alloc_of hp2 i" using d by (simp add: hp3_def alloc_of_def)
    then have 4: "absorbs (heap m) hp3 (rev (i # ms)) i" using ab by (simp add: absorbs_def)
    show ?thesis unfolding merges_def using st un 1 2 3 4 by blast
  qed
  define m' where "m' = tidied us i ms hp3 m"
  have i': "mvcc_inv m'" unfolding m'_def mvcc_inv_def using tidied_stores [OF inv mg] tidied_names [OF inv mg] tidied_txns [OF inv mg] by simp
  have m': "storages m' = us @ [i]" "heap m' = hp3" by (simp_all add: m'_def tidied_simps)
  have "relink None [] (storages m') (heap m') = Inr (heap m')"
    by (rule relink_same [OF mvcc_invD(3) [OF i'] storages_ascending [OF i'] mvcc_invD(2) [OF i']]) simp_all
  moreover have "\<not> recovery m" using inv by (simp add: mvcc_inv_def txns_inv_def)
  ultimately have "merge_down h m = Inr m'"
    using False ne c id(1) dr by (simp add: merge_down_def lift_result_def m' m'_def tidied_def sv_def)
  moreover have "0 < readers (the (heap m' c))" if c: "c \<in> set (butlast (storages m'))" for c
  proof -
    have "c \<in> set us" using c by (simp add: m')
    moreover from this have "c \<notin> set ms" using d by auto
    ultimately show ?thesis using us merges_the(3) [OF mg, of c] by (simp add: m')
  qed
  moreover have "hd (storages m') = hd (storages m)" by (cases us) (simp_all add: m' st)
  ultimately show ?thesis using i' tidied_db [OF inv mg] merges_sets(6) [OF inv mg] by (simp add: m'_def tidied_def)
qed

end
