(* ===== verification/MvccCommit.thy ===== *)
theory MvccCommit
  imports MvccMerge
begin

text \<open>Committing a transaction: its store becomes the last version.\<close>

section \<open>The journal\<close>

lemma quiet_journal_blocks:
  "usable a \<Longrightarrow> \<forall>w \<in> set ws. view a w \<noteq> None \<Longrightarrow>
   \<exists>a'. foldE (journal_block h) ws (ps, a) = Inr (ps @ map (\<lambda>w. (w, the (view a w))) ws, a') \<and> quiet a a'"
proof (induction ws arbitrary: ps a)
  case (Cons w ws)
  then obtain b where b: "view a w = Some b" by auto
  have w: "w \<noteq> 0" using view_dom [of a w] Cons.prems(1) b by (simp add: usable_def)
  obtain r a1 where a1: "allocate h w Read a = Inr (r, w, a1)" "quiet a a1" "r \<noteq> End_block" "read_ref r a1 = b"
    using quiet_read [OF Cons.prems(1) w, of h] b by auto
  have q: "quiet a (complete h a1)"
    by (rule quiet_trans [OF a1(2) quiet_complete [OF quiet_usable [OF a1(2) Cons.prems(1)]]])
  have v: "view (complete h a1) = view a" using q by (simp add: quiet_def)
  have "\<exists>a'. foldE (journal_block h) ws (ps @ [(w, b)], complete h a1) =
      Inr ((ps @ [(w, b)]) @ map (\<lambda>w. (w, the (view (complete h a1) w))) ws, a') \<and> quiet (complete h a1) a'"
    by (rule Cons.IH [OF quiet_usable [OF q Cons.prems(1)]]) (use Cons.prems(2) v in simp)
  then obtain a' where a': "foldE (journal_block h) ws (ps @ [(w, b)], complete h a1) =
      Inr ((ps @ [(w, b)]) @ map (\<lambda>w. (w, the (view a w))) ws, a')" "quiet (complete h a1) a'"
    unfolding v by blast
  have "journal_block h w (ps, a) = Inr (ps @ [(w, b)], complete h a1)" using a1 by (simp add: journal_block_def is_end_def)
  then show ?case using a'(1) b quiet_trans [OF q a'(2)] by simp
qed simp

lemma quiet_journal:
  assumes u: "usable a" and o: "opened a"
  shows "\<exists>a'. journal h a = Inr (map (\<lambda>w. (w, the (view a w))) (get_modified_addresses a), a') \<and> quiet a a'"
  using quiet_journal_blocks [OF u, of "get_modified_addresses a" h "[]"] modified_addresses_dom [OF u o]
  by (simp add: journal_def)

text \<open>The pages a commit hands to the journal, and the coordinator behind it.\<close>

definition pages_of :: "mvcc \<Rightarrow> store_id \<Rightarrow> (address \<times> buffer) list" where
  "pages_of m t = map (\<lambda>w. (w, the (vview (heap m) t w))) (get_modified_addresses (the (alloc_of (heap m) t)))"

lemma commit_journal_ok:
  assumes inv: "mvcc_inv m" and t: "t \<in> set (actives m)" "\<not> read_only (the (heap m t))"
  shows "\<exists>hp'. (if \<not> recovery m \<and> mv_local_writes m then vs_journal h t (heap m) else Inr ([], heap m)) = Inr (pages_of m t, hp') \<and>
    quiet_heap (heap m) hp'"
proof -
  have x: "txns_inv m" using inv by (simp add: mvcc_inv_def)
  have "usable_at (heap m) t" using mvcc_invD(5) [OF inv, of t] t(1) by (simp add: store_ok_def)
  then obtain a where a: "alloc_of (heap m) t = Some a" "usable a" by (auto simp: usable_at_def)
  then obtain s where s: "heap m t = Some s" "vs_allocator s = Some a" using alloc_of_heap by blast
  have "opened a" using x t a(1) unfolding txns_inv_def by fastforce
  then obtain a' where a': "journal h a = Inr (map (\<lambda>w. (w, the (view a w))) (get_modified_addresses a), a')" "quiet a a'"
    using quiet_journal [OF a(2)] by blast
  have "vs_journal h t (heap m) = Inr (map (\<lambda>w. (w, the (view a w))) (get_modified_addresses a), put_allocator t a' (heap m))"
    using s a'(1) by (simp add: vs_journal_def deref_def)
  moreover have "quiet_heap (heap m) (put_allocator t a' (heap m))" by (rule quiet_put [OF a(1) a'(2)])
  moreover have "\<not> recovery m" "mv_local_writes m" using x by (simp_all add: txns_inv_def)
  ultimately show ?thesis by (simp add: pages_of_def vview_def a(1))
qed

text \<open>The pages are the blocks of the transaction: replaying them is what a commit does to the database.\<close>

lemma pages_own:
  assumes inv: "mvcc_inv m" and t: "t \<in> set (actives m)" "\<not> read_only (the (heap m t))"
  shows "map_of (pages_of m t) = own (txn_of m t)" "distinct (map fst (pages_of m t))"
proof -
  show "distinct (map fst (pages_of m t))" by (simp add: pages_of_def comp_def get_modified_addresses_def)
  have x: "txns_inv m" using inv by (simp add: mvcc_inv_def)
  have "usable_at (heap m) t" using mvcc_invD(5) [OF inv, of t] t(1) by (simp add: store_ok_def)
  then obtain a where a: "alloc_of (heap m) t = Some a" "usable a" by (auto simp: usable_at_def)
  have "opened a" using x t a(1) unfolding txns_inv_def by fastforce
  from journal_pages_view [OF a(2) this] show "map_of (pages_of m t) = own (txn_of m t)"
    by (simp add: pages_of_def txn_of_def vview_def a(1))
qed

section \<open>The coordinator behind a commit\<close>

definition commit_heap :: "store_id \<Rightarrow> mvcc \<Rightarrow> store_heap" where
  "commit_heap t m = leave (rev (storages m)) (on_store (\<lambda>s. s\<lparr>read_only := True\<rparr>) t (heap m))"

definition committed_by :: "store_id \<Rightarrow> mvcc \<Rightarrow> mvcc" where
  "committed_by t m =
     m\<lparr>heap := commit_heap t m, active_transactions := active_transactions m - 1,
       writing_transactions := writing_transactions m - 1,
       last_address := max (last_address m) (next_address (the (alloc_of (heap m) t))), storages := storages m @ [t],
       last_comitted_version := vs_version (the (heap m t)), mv_order := Suc (mv_order m)\<rparr>"

lemma committed_by_simps:
  "heap (committed_by t m) = commit_heap t m" "storages (committed_by t m) = storages m @ [t]"
  "next_id (committed_by t m) = next_id m" "recycler (committed_by t m) = recycler m"
  "storage_versions (committed_by t m) = storage_versions m" "mv_order (committed_by t m) = Suc (mv_order m)"
  "last_comitted_version (committed_by t m) = vs_version (the (heap m t))" "recovery (committed_by t m) = recovery m"
  "mv_local_writes (committed_by t m) = mv_local_writes m"
  "last_address (committed_by t m) = max (last_address m) (next_address (the (alloc_of (heap m) t)))"
  "active_transactions (committed_by t m) = active_transactions m - 1"
  "writing_transactions (committed_by t m) = writing_transactions m - 1"
  "journal_synching (committed_by t m) = journal_synching m"
  by (simp_all add: committed_by_def)

text \<open>A writing transaction of the coordinator.\<close>

lemma writer_facts:
  assumes inv: "mvcc_inv m" and t: "t \<in> set (actives m)" "\<not> read_only (the (heap m t))"
  shows "base (heap m) t = last (storages m)" "\<forall>b \<in> set (storages m). older (heap m) b t" "opened (the (alloc_of (heap m) t))"
    "vs_order (the (heap m t)) = mv_order m" "readers (the (heap m t)) = 0" "last_comitted_version m < vs_version (the (heap m t))"
    "last_address m \<le> next_address (the (alloc_of (heap m) t))"
    "u \<in> set (actives m) \<Longrightarrow> u \<noteq> t \<Longrightarrow> read_only (the (heap m u))"
    "reach (storages m) (base (heap m) t) = storages m"
proof -
  have x: "txns_inv m" and n: "names_inv m" using inv by (simp_all add: mvcc_inv_def)
  then show b: "base (heap m) t = last (storages m)" and "\<forall>b \<in> set (storages m). older (heap m) b t" "opened (the (alloc_of (heap m) t))"
    "vs_order (the (heap m t)) = mv_order m" "readers (the (heap m t)) = 0" "last_comitted_version m < vs_version (the (heap m t))"
    "last_address m \<le> next_address (the (alloc_of (heap m) t))"
    using t unfolding txns_inv_def by fastforce+
  show "reach (storages m) (base (heap m) t) = storages m" unfolding b by (rule reach_all [OF mvcc_invD(1,2) [OF inv]])
  show "read_only (the (heap m u))" if u: "u \<in> set (actives m)" "u \<noteq> t"
  proof (rule ccontr)
    assume nr: "\<not> read_only (the (heap m u))"
    let ?f = "filter (\<lambda>t. \<not> read_only (the (heap m t))) (actives m)"
    have "distinct ?f" "{t, u} \<subseteq> set ?f" using distinct_actives [OF n] t u nr by auto
    then have "card {t, u} \<le> length ?f" by (metis card_mono List.finite_set distinct_card)
    moreover have "length ?f \<le> 1" using x by (simp add: txns_inv_def)
    ultimately show False using u(2) by simp
  qed
qed

lemma commit_heap_eq:
  assumes inv: "mvcc_inv m" and t: "t \<in> set (actives m)"
  shows "commit_heap t m i = (if i = t then map_option (\<lambda>s. s\<lparr>read_only := True\<rparr>) (heap m t)
    else if i \<in> set (storages m) then map_option lose_reader (heap m i) else heap m i)"
  using active_based(3) [OF inv t] by (auto simp: commit_heap_def leave_def on_store_def)

lemma commit_alloc:
  assumes inv: "mvcc_inv m" and t: "t \<in> set (actives m)"
  shows "alloc_of (commit_heap t m) = alloc_of (heap m)" "vview (commit_heap t m) = vview (heap m)"
    "cview (commit_heap t m) = cview (heap m)" "older (commit_heap t m) = older (heap m)"
proof -
  have a: "alloc_of (commit_heap t m) i = alloc_of (heap m) i" for i
    by (cases "heap m i") (auto simp: alloc_of_def commit_heap_eq [OF inv t])
  then have v: "vview (commit_heap t m) i = vview (heap m) i" for i by (simp add: vview_def)
  show "alloc_of (commit_heap t m) = alloc_of (heap m)" "vview (commit_heap t m) = vview (heap m)"
    "older (commit_heap t m) = older (heap m)" by (simp_all add: fun_eq_iff a v older_def)
  show "cview (commit_heap t m) = cview (heap m)" using cview_cong [OF v] by (intro ext) metis
qed

lemma commit_the:
  assumes inv: "mvcc_inv m" and t: "t \<in> set (actives m)"
  shows "heap m i \<noteq> None \<Longrightarrow> vs_version (the (commit_heap t m i)) = vs_version (the (heap m i))"
    "heap m i \<noteq> None \<Longrightarrow> vs_order (the (commit_heap t m i)) = vs_order (the (heap m i))"
    "(commit_heap t m i = None) = (heap m i = None)"
    "heap m i \<noteq> None \<Longrightarrow> based (the (commit_heap t m i)) = based (the (heap m i))"
    "heap m i \<noteq> None \<Longrightarrow> read_only (the (commit_heap t m i)) = (i = t \<or> read_only (the (heap m i)))"
    "heap m i \<noteq> None \<Longrightarrow> i \<notin> set (storages m) \<Longrightarrow> readers (the (commit_heap t m i)) = readers (the (heap m i))"
    "heap m i \<noteq> None \<Longrightarrow> i \<in> set (storages m) \<Longrightarrow> readers (the (commit_heap t m i)) = readers (the (heap m i)) - 1"
  using active_based(3) [OF inv t] by (auto simp: commit_heap_eq [OF inv t])

lemma commit_store_ok:
  assumes inv: "mvcc_inv m" and t: "t \<in> set (actives m)"
  shows "store_ok n (commit_heap t m) i = store_ok n (heap m) i"
  using commit_the(1,3) [OF inv t, of i] by (cases "heap m i") (auto simp: store_ok_def usable_at_def commit_alloc [OF inv t])

lemma commit_linked:
  assumes inv: "mvcc_inv m" and t: "t \<in> set (actives m)"
  shows "linked (heap m) p ss \<Longrightarrow> linked (commit_heap t m) p ss"
  by (induction ss arbitrary: p) (auto simp: commit_the [OF inv t])

lemma commit_actives:
  assumes inv: "mvcc_inv m" and t: "t \<in> set (actives m)"
  shows "actives (committed_by t m) = filter (\<lambda>u. u \<noteq> t) (actives m)"
  by (simp add: actives_def committed_by_simps conj_commute)

lemma commit_stores:
  assumes inv: "mvcc_inv m" and t: "t \<in> set (actives m)" "\<not> read_only (the (heap m t))"
  shows "stores_inv (committed_by t m)"
proof -
  note w = writer_facts [OF inv t] and ca = commit_alloc [OF inv t(1)]
  have si: "stores_inv m" using inv by (simp add: mvcc_inv_def)
  have nt: "t \<notin> set (storages m)" by (rule active_based(3) [OF inv t(1)])
  have ne: "storages m \<noteq> []" by (rule mvcc_invD(1) [OF inv])
  have ht: "heap m t \<noteq> None" by (rule active_based(4) [OF inv t(1)])
  have "linked (heap m) None (storages m @ [t])"
    using si ne ht active_based(1) [OF inv t(1)] w(1) by (simp add: linked_append stores_inv_def)
  then have li: "linked (commit_heap t m) None (storages m @ [t])" by (rule commit_linked [OF inv t(1)])
  have ok: "\<forall>i \<in> set (storages m @ [t]) \<union> set (actives (committed_by t m)) \<union> set (recycler m). store_ok (next_id m) (commit_heap t m) i"
    using si t(1) by (auto simp: stores_inv_def commit_store_ok [OF inv t(1)] commit_actives [OF inv t(1)])
  have so: "sorted_wrt (older (commit_heap t m)) (storages m @ [t])"
    using si w(2) by (simp add: stores_inv_def ca(4) sorted_wrt_append)
  have op: "\<forall>b \<in> set (tl (storages m @ [t])). opened (the (alloc_of (commit_heap t m) b))"
    using si w(3) ne by (auto simp: stores_inv_def ca(1))
  show ?thesis
    using si li ok so op nt ne commit_the(3) [OF inv t(1)] unfolding stores_inv_def committed_by_simps by simp
qed

lemma commit_names:
  assumes inv: "mvcc_inv m" and t: "t \<in> set (actives m)"
  shows "names_inv (committed_by t m)"
proof -
  have n: "names_inv m" using inv by (simp add: mvcc_inv_def)
  note ca = commit_alloc [OF inv t] and ct = commit_the [OF inv t] and ne = mvcc_invD(1) [OF inv]
  have hn: "heap m i \<noteq> None" if "i \<in> set (storages m) \<union> set (actives m) \<union> set (recycler m)" for i
    using mvcc_invD(5) [OF inv that] by (simp add: store_ok_def)
  have hs: "heap m i \<noteq> None" if "(v, i) \<in> set (storage_versions m)" for v i
    by (rule hn) (use that in \<open>auto simp: actives_def image_iff intro: bexI [rotated]\<close>)
  have ts: "t \<in> snd ` set (storage_versions m)" using t by (auto simp: actives_def)
  have vv: "\<forall>(v, i) \<in> set (storage_versions m). vs_version (the (commit_heap t m i)) = v"
    using n hs ct(1) by (auto simp: names_inv_def)
  have rc: "vs_version (the (commit_heap t m r)) = vs_version (the (heap m r))" "read_only (the (commit_heap t m r))"
    if "r \<in> set (recycler m)" for r
    using that hn [of r] ct(1,5) [of r] n by (auto simp: names_inv_def)
  have inj: "inj_on (\<lambda>r. vs_version (the (commit_heap t m r))) (set (recycler m))"
    using n rc(1) by (simp add: names_inv_def cong: inj_on_cong)
  have tr: "t \<notin> set (recycler m)" using n ts by (auto simp: names_inv_def)
  show ?thesis
    unfolding names_inv_def committed_by_simps
  proof (intro conjI)
    show "\<forall>c \<in> set (tl (storages m @ [t])). c \<in> snd ` set (storage_versions m)" using n ts ne by (auto simp: names_inv_def)
    show "hd (storages m @ [t]) \<notin> snd ` set (storage_versions m)" using n ne by (simp add: names_inv_def)
    show "set (recycler m) \<inter> (set (storages m @ [t]) \<union> snd ` set (storage_versions m)) = {}" using n tr by (auto simp: names_inv_def)
    show "\<forall>r \<in> set (recycler m). vs_version (the (commit_heap t m r)) \<notin> fst ` set (storage_versions m) \<and>
        vview (commit_heap t m) r = Map.empty \<and> read_only (the (commit_heap t m r))"
      using n rc by (simp add: names_inv_def ca(2))
  qed (use n vv inj in \<open>simp_all add: names_inv_def\<close>)
qed


lemma commit_base:
  assumes inv: "mvcc_inv m" and t: "t \<in> set (actives m)" and u: "u \<in> set (actives m)"
  shows "base (commit_heap t m) u = base (heap m) u"
  using commit_the(4) [OF inv t] active_based(4) [OF inv u] by (simp add: base_def)

lemma commit_reach:
  assumes inv: "mvcc_inv m" and t: "t \<in> set (actives m)" and u: "u \<in> set (actives m)"
  shows "reach (storages m @ [t]) (base (commit_heap t m) u) = reach (storages m) (base (heap m) u)"
  unfolding commit_base [OF inv t u] by (rule reach_append [OF active_based(2) [OF inv u]])

lemma commit_readers:
  assumes inv: "mvcc_inv m" and t: "t \<in> set (actives m)" "\<not> read_only (the (heap m t))" and b: "b \<in> set (storages m @ [t])"
  shows "readers (the (commit_heap t m b)) =
    length (filter (\<lambda>u. b \<in> set (reach (storages m @ [t]) (base (commit_heap t m) u))) (actives (committed_by t m)))"
proof -
  note w = writer_facts [OF inv t]
  have f: "filter (\<lambda>u. b \<in> set (reach (storages m @ [t]) (base (commit_heap t m) u))) (actives (committed_by t m)) =
      filter (\<lambda>u. b \<in> set (reach (storages m) (base (heap m) u))) (filter (\<lambda>u. u \<noteq> t) (actives m))"
    unfolding commit_actives [OF inv t(1)] by (rule filter_cong) (simp_all add: commit_reach [OF inv t(1)])
  show ?thesis
  proof (cases "b = t")
    case True
    have nt: "t \<notin> set (storages m)" by (rule active_based(3) [OF inv t(1)])
    have "t \<notin> set (reach (storages m) (base (heap m) u))" if "u \<in> set (actives m)" for u
      using set_reach [OF active_based(2) [OF inv that]] nt by auto
    then have "filter (\<lambda>u. t \<in> set (reach (storages m) (base (heap m) u))) (filter (\<lambda>u. u \<noteq> t) (actives m)) = []"
      by (simp add: filter_empty_conv)
    then show ?thesis using f True w(5) commit_the(6) [OF inv t(1) active_based(4) [OF inv t(1)] nt] by simp
  next
    case False
    then have bs: "b \<in> set (storages m)" using b by simp
    then have hb: "heap m b \<noteq> None" using mvcc_invD(5) [OF inv, of b] by (simp add: store_ok_def)
    show ?thesis
      unfolding f commit_the(7) [OF inv t(1) hb bs] using readers_without [OF inv t(1) bs] bs by (simp add: w(9))
  qed
qed

lemma commit_view:
  assumes inv: "mvcc_inv m" and t: "t \<in> set (actives m)"
  shows "cview (commit_heap t m) (rev (storages m @ [t])) = cview (heap m) (rev (storages m)) ++ vview (heap m) t"
  by (simp add: commit_alloc [OF inv t])

lemma commit_txns:
  assumes inv: "mvcc_inv m" and t: "t \<in> set (actives m)" "\<not> read_only (the (heap m t))"
  shows "txns_inv (committed_by t m)"
proof -
  have x: "txns_inv m" and n: "names_inv m" using inv by (simp_all add: mvcc_inv_def)
  note w = writer_facts [OF inv t] and ca = commit_alloc [OF inv t(1)] and da = commit_actives [OF inv t(1)]
  have dist: "distinct (actives m)" by (rule distinct_actives [OF n])
  have l: "length (actives m) = Suc (length (actives (committed_by t m)))"
    using length_filter_remove [OF dist t(1), of "\<lambda>u. True"] by (simp add: da)
  have act: "active_transactions (committed_by t m) = of_nat (length (actives (committed_by t m)))"
  proof -
    have "active_transactions m = of_nat (length (actives m))" using x by (simp add: txns_inv_def)
    then show ?thesis unfolding committed_by_simps l by simp
  qed
  have others: "read_only (the (heap m u))" "u \<in> set (actives m)" if "u \<in> set (actives (committed_by t m))" for u
    using that w(8) by (simp_all add: da)
  have ro: "read_only (the (commit_heap t m u))" if u: "u \<in> set (actives (committed_by t m))" for u
    using others [OF u] active_based(4) [OF inv others(2) [OF u]] commit_the(5) [OF inv t(1)] by simp
  then have fw: "filter (\<lambda>u. \<not> read_only (the (commit_heap t m u))) (actives (committed_by t m)) = []" by (simp add: filter_empty_conv)
  have wr: "writing_transactions (committed_by t m) = 0"
  proof -
    let ?w = "\<lambda>u. \<not> read_only (the (heap m u))"
    have "filter ?w (filter (\<lambda>u. u \<noteq> t) (actives m)) = []" using w(8) by (auto simp: filter_empty_conv)
    then have "length (filter ?w (actives m)) = 1" using length_filter_remove [OF dist t(1), of ?w] t(2) by simp
    then have "writing_transactions m = 1" using x by (simp add: txns_inv_def)
    then show ?thesis by (simp add: committed_by_simps)
  qed
  have bs: "\<exists>b. based (the (commit_heap t m u)) = Some b \<and> b \<in> set (storages m @ [t])" if u: "u \<in> set (actives (committed_by t m))" for u
    using active_based(1,2,4) [OF inv others(2) [OF u]] commit_the(4) [OF inv t(1)] by simp
  have each: "vview (commit_heap t m) u = Map.empty" if u: "u \<in> set (actives (committed_by t m))" for u
    using x others [OF u] unfolding txns_inv_def ca(2) by auto
  have la: "v \<le> max (last_address m) (next_address (the (alloc_of (heap m) t)))"
    if v: "v \<in> dom (cview (commit_heap t m) (rev (storages m @ [t])))" for v
  proof -
    have "v \<in> dom (cview (heap m) (rev (storages m))) \<or> v \<in> dom (vview (heap m) t)" using v unfolding commit_view [OF inv t(1)] by auto
    moreover have "v \<le> last_address m" if "v \<in> dom (cview (heap m) (rev (storages m)))" using x that by (simp add: txns_inv_def)
    moreover have "v \<le> next_address (the (alloc_of (heap m) t))" if "v \<in> dom (vview (heap m) t)"
    proof -
      have "usable_at (heap m) t" using mvcc_invD(5) [OF inv, of t] t(1) by (simp add: store_ok_def)
      then obtain a where "alloc_of (heap m) t = Some a" "store_inv a" by (auto simp: usable_at_def usable_def)
      then show ?thesis using that view_dom [of a v] by (auto simp: vview_def)
    qed
    ultimately show ?thesis by (meson le_max_iff_disj)
  qed
  show ?thesis
    unfolding txns_inv_def
  proof (intro conjI ballI)
    show "active_transactions (committed_by t m) = of_nat (length (actives (committed_by t m)))" by (rule act)
    show "length (actives (committed_by t m)) < 2 ^ 32" using x l by (simp add: txns_inv_def)
    show "\<not> recovery (committed_by t m)" "mv_local_writes (committed_by t m)" using x by (simp_all add: txns_inv_def committed_by_simps)
    show "writing_transactions (committed_by t m) =
        of_nat (length (filter (\<lambda>u. \<not> read_only (the (heap (committed_by t m) u))) (actives (committed_by t m))))"
      unfolding wr committed_by_simps(1) fw by simp
  qed (use bs each la fw ro commit_readers [OF inv t] in \<open>simp_all only: committed_by_simps if_True list.size zero_le_one\<close>)
qed

lemma commit_db:
  assumes inv: "mvcc_inv m" and t: "t \<in> set (actives m)"
  shows "db (committed_by t m) = \<lparr>committed = committed (db m) ++ own (txn_of m t), txns = (txns (db m))(t := None)\<rparr>"
proof -
  have "txn_of (committed_by t m) u = txn_of m u" if "u \<in> set (actives m)" "u \<noteq> t" for u
    using that commit_the(5) [OF inv t, of u] active_based(4) [OF inv that(1)]
    by (simp add: txn_of_def committed_by_simps commit_alloc [OF inv t] commit_reach [OF inv t])
  then show ?thesis
    using commit_view [OF inv t]
    by (auto simp: db_def committed_by_simps commit_actives [OF inv t] txn_of_def fun_eq_iff)
qed

text \<open>
  What a commit does once it has written to the journal, whether the coordinator recovers (then \<open>b\<close>) or not.
\<close>

lemma commit_reaches:
  assumes inv: "mvcc_inv m" and t: "t \<in> set (actives m)" "\<not> read_only (the (heap m t))"
    and hp: "(if \<not> b \<and> mv_local_writes m then vs_journal h t (heap m) else Inr ([], heap m)) = Inr (pages, hp)"
    "quiet_heap (heap m) hp"
  defines "m0 \<equiv> m\<lparr>heap := hp\<rparr>"
  shows "mvcc_commit h t (m\<lparr>recovery := b\<rparr>) =
      bindE (merge_down h ((committed_by t m0)\<lparr>recovery := b\<rparr>)) (\<lambda>m'. Inr (pages, m'))"
    "mvcc_inv (committed_by t m0)" "actives (committed_by t m0) = filter (\<lambda>u. u \<noteq> t) (actives m)"
    "db (committed_by t m0) = \<lparr>committed = committed (db m) ++ own (txn_of m t), txns = (txns (db m))(t := None)\<rparr>"
    "journal_synching (committed_by t m0) = journal_synching m" "hd (storages (committed_by t m0)) = hd (storages m)"
proof -
  have f: "same_frames (heap m) hp" using hp(2) by (simp add: quiet_except_def)
  have i0: "mvcc_inv m0" "db m0 = db m" unfolding m0_def by (rule mvcc_inv_quiet [OF inv hp(2)], rule db_quiet [OF hp(2)])
  have a0: "actives m0 = actives m" "storages m0 = storages m" "heap m0 = hp" by (simp_all add: m0_def)
  have t0: "t \<in> set (actives m0)" "\<not> read_only (the (heap m0 t))" using t by (simp_all add: a0 frames_the [OF f])
  have tx: "txn_of m0 t = txn_of m t"
  proof -
    have "txns (db m0) t = txns (db m) t" using i0(2) by simp
    then show ?thesis using t(1) by (simp add: db_def a0)
  qed
  note w = writer_facts [OF inv t]
  have x: "txns_inv m" using inv by (simp add: mvcc_inv_def)
  obtain s where s: "heap m t = Some s" using active_based(4) [OF inv t(1)] by auto
  have act: "active_transactions m \<noteq> 0"
  proof -
    have "active_transactions m = of_nat (length (actives m))" "length (actives m) < 2 ^ 32" using x by (simp_all add: txns_inv_def)
    moreover have "length (actives m) \<noteq> 0" using t(1) by auto
    ultimately show ?thesis using dvd_imp_le [of "2 ^ 32" "length (actives m)"] by (auto simp: word_of_nat_eq_0_iff)
  qed
  have version: "lookup_version (vs_version s) (m\<lparr>recovery := b\<rparr>) = Inr t"
    using active_version [OF inv t(1)] s by (simp add: lookup_version_def)
  define hp1 where "hp1 = on_store (\<lambda>s. s\<lparr>read_only := True\<rparr>) t hp"
  have "usable_at hp t" using mvcc_invD(5) [OF i0(1), of t] t0(1) by (simp add: store_ok_def a0)
  then obtain a where a: "alloc_of hp t = Some a" by (auto simp: usable_at_def)
  then obtain s0 where s0: "hp t = Some s0" "vs_allocator s0 = Some a" using alloc_of_heap by blast
  have ga: "get_allocator t hp1 = Inr a" and dt: "deref t hp1 = Inr (s0\<lparr>read_only := True\<rparr>)"
    using s0 by (simp_all add: hp1_def on_store_def get_allocator_def deref_def)
  have bs: "based s0 = Some (last (storages m))" using active_based(1) [OF i0(1) t0(1)] writer_facts(1) [OF i0(1) t0] s0 by (simp add: a0)
  have "based_chain (next_id m) hp1 t = based_chain (next_id m0) (heap m0) t"
    unfolding a0 by (simp add: m0_def, rule based_chain_same) (simp add: hp1_def on_store_def option.map_comp comp_def)
  also have "\<dots> = rev (storages m)" using active_chain [OF i0(1) t0(1)] writer_facts(9) [OF i0(1) t0] by (simp add: a0)
  finally have ch: "based_chain (next_id m) hp1 t = rev (storages m)" .
  have "\<exists>s. hp1 b = Some s \<and> 0 < readers s" if b: "b \<in> set (storages m)" for b
  proof -
    have "b \<noteq> t" using b active_based(3) [OF inv t(1)] by auto
    moreover have "\<exists>s. hp b = Some s \<and> 0 < readers s"
      using reach_readers(2) [OF i0(1) t0(1), of b] writer_facts(9) [OF i0(1) t0] b by (simp add: a0)
    ultimately show ?thesis by (simp add: hp1_def on_store_def)
  qed
  then have rr: "remove_readers (rev (storages m)) hp1 = Inr (commit_heap t m0)"
    unfolding commit_heap_def a0 hp1_def [symmetric] by (intro remove_readers_ok) (use mvcc_invD(2) [OF inv] in simp_all)
  define m2 where "m2 = m\<lparr>recovery := b, heap := hp1, active_transactions := active_transactions m - 1,
    writing_transactions := writing_transactions m - 1, last_address := max (last_address m) (next_address a)\<rparr>"
  have vs: "vs_version s = vs_version s0" using frames_the(2) [OF f, of t] s s0 by simp
  have cm: "m2\<lparr>heap := commit_heap t m0, storages := storages m2 @ [t], last_comitted_version := vs_version s, mv_order := Suc (mv_order m2)\<rparr>
      = (committed_by t m0)\<lparr>recovery := b\<rparr>"
    using s0 a by (simp add: m2_def committed_by_def m0_def vs)
  have g: "\<not> read_only s" "\<not> vs_version s \<le> last_comitted_version m" "\<not> vs_order s < mv_order m" using t(2) w(4,6) s by simp_all
  have j: "(if \<not> recovery (m\<lparr>recovery := b\<rparr>) \<and> mv_local_writes (m\<lparr>recovery := b\<rparr>)
      then vs_journal h t (heap (m\<lparr>recovery := b\<rparr>)) else Inr ([], heap (m\<lparr>recovery := b\<rparr>))) = Inr (pages, hp)"
    using hp(1) by (cases b; cases "mv_local_writes m"; simp)
  show "mvcc_commit h t (m\<lparr>recovery := b\<rparr>) =
      bindE (merge_down h ((committed_by t m0)\<lparr>recovery := b\<rparr>)) (\<lambda>m'. Inr (pages, m'))"
    unfolding mvcc_commit_def j
    using s g act version ga dt bs ch rr cm
    by (simp add: deref_def lift_result_def hp1_def [symmetric] Let_def m2_def)
  show "mvcc_inv (committed_by t m0)"
    using commit_stores [OF i0(1) t0] commit_names [OF i0(1) t0(1)] commit_txns [OF i0(1) t0] by (simp add: mvcc_inv_def)
  show "actives (committed_by t m0) = filter (\<lambda>u. u \<noteq> t) (actives m)" using commit_actives [OF i0(1) t0(1)] by (simp add: a0)
  show "db (committed_by t m0) = \<lparr>committed = committed (db m) ++ own (txn_of m t), txns = (txns (db m))(t := None)\<rparr>"
    using commit_db [OF i0(1) t0(1)] tx i0(2) by simp
  show "journal_synching (committed_by t m0) = journal_synching m" by (simp add: committed_by_simps m0_def)
  show "hd (storages (committed_by t m0)) = hd (storages m)"
    using mvcc_invD(1) [OF inv] by (simp add: committed_by_simps m0_def)
qed

lemma same_recovery: "mvcc_inv m \<Longrightarrow> m\<lparr>recovery := False\<rparr> = (m :: mvcc)"
  by (simp add: mvcc_inv_def txns_inv_def)

lemma txn_commit_ok:
  assumes inv: "mvcc_inv m" and t: "t \<in> set (actives m)" "\<not> read_only (the (heap m t))"
  shows "\<exists>m'. mvcc_commit h t m = Inr (pages_of m t, m') \<and> map_of (pages_of m t) = own (txn_of m t) \<and>
    distinct (map fst (pages_of m t)) \<and> mvcc_inv m' \<and> actives m' = filter (\<lambda>u. u \<noteq> t) (actives m) \<and>
    db m' = \<lparr>committed = committed (db m) ++ own (txn_of m t), txns = (txns (db m))(t := None)\<rparr> \<and>
    journal_synching m' = journal_synching m \<and> hd (storages m') = hd (storages m) \<and>
    (\<not> journal_synching m \<longrightarrow> (\<forall>c \<in> set (butlast (storages m')). 0 < readers (the (heap m' c))))"
proof -
  obtain hp where hp: "(if \<not> recovery m \<and> mv_local_writes m then vs_journal h t (heap m) else Inr ([], heap m)) = Inr (pages_of m t, hp)"
    "quiet_heap (heap m) hp"
    using commit_journal_ok [OF inv t] by blast
  moreover have "\<not> recovery m" using inv by (simp add: mvcc_inv_def txns_inv_def)
  ultimately have c: "mvcc_commit h t (m\<lparr>recovery := False\<rparr>) =
      bindE (merge_down h ((committed_by t (m\<lparr>heap := hp\<rparr>))\<lparr>recovery := False\<rparr>)) (\<lambda>m'. Inr (pages_of m t, m'))"
    "mvcc_inv (committed_by t (m\<lparr>heap := hp\<rparr>))" "actives (committed_by t (m\<lparr>heap := hp\<rparr>)) = filter (\<lambda>u. u \<noteq> t) (actives m)"
    "db (committed_by t (m\<lparr>heap := hp\<rparr>)) = \<lparr>committed = committed (db m) ++ own (txn_of m t), txns = (txns (db m))(t := None)\<rparr>"
    "journal_synching (committed_by t (m\<lparr>heap := hp\<rparr>)) = journal_synching m"
    "hd (storages (committed_by t (m\<lparr>heap := hp\<rparr>))) = hd (storages m)"
    by (intro commit_reaches [OF inv t, of False]; simp)+
  from merge_down_ok [OF c(2), of h] show ?thesis
    using c(1) pages_own [OF inv t] unfolding same_recovery [OF inv] same_recovery [OF c(2)] c(3,4,5,6) by auto
qed

end
