(* ===== verification/MvccSystem.thy ===== *)
theory MvccSystem
  imports MvccCommit
begin

text \<open>
  The coordinator as a system: any interleaving of transactions, merges and journal synchronisations is
  an execution of a database whose transactions work on snapshots.
\<close>

section \<open>Maintenance of the versions\<close>

lemma each_storage_ok:
  "distinct ss \<Longrightarrow> (\<And>c. c \<in> set ss \<Longrightarrow> alloc_of hp c \<noteq> None) \<Longrightarrow>
   each_storage f ss hp = Inr (\<lambda>i. if i \<in> set ss then map_option f (hp i) else hp i)"
proof (induction ss arbitrary: hp)
  case (Cons c ss)
  obtain a where a: "alloc_of hp c = Some a" using Cons.prems(2) [of c] by auto
  have "each_storage f ss (on_store f c hp) = Inr (\<lambda>i. if i \<in> set ss then map_option f (on_store f c hp i) else on_store f c hp i)"
    by (rule Cons.IH) (use Cons.prems in \<open>auto simp: alloc_of_def on_store_def\<close>)
  moreover have "(\<lambda>i. if i \<in> set ss then map_option f (on_store f c hp i) else on_store f c hp i) =
      (\<lambda>i. if i \<in> set (c # ss) then map_option f (hp i) else hp i)"
    using Cons.prems(1) by (auto simp: on_store_def fun_eq_iff)
  ultimately show ?case using a by (simp add: get_allocator_eq)
qed (simp add: fun_eq_iff)

text \<open>What maintenance may do to an allocator.\<close>

definition maintains :: "(sqlite_allocator \<Rightarrow> sqlite_allocator) \<Rightarrow> bool" where
  "maintains g \<longleftrightarrow> (\<forall>a. usable a \<longrightarrow> usable (g a) \<and> view (g a) = view a \<and> steady a (g a) \<and> vset (g a) \<subseteq> vset a)"

lemma maintains_quiet: "(\<And>a. usable a \<Longrightarrow> quiet a (g a)) \<Longrightarrow> maintains g"
  using vset_quiet unfolding maintains_def quiet_def by (blast intro: kept_steady)

lemma maintain_ok:
  assumes inv: "mvcc_inv m" and g: "maintains g"
  shows "\<exists>hp'. each_storage (with_allocator g) (storages m) (heap m) = Inr hp' \<and> mvcc_inv (m\<lparr>heap := hp'\<rparr>) \<and>
    db (m\<lparr>heap := hp'\<rparr>) = db m \<and> (\<forall>c \<in> set (storages m). alloc_of hp' c = map_option g (alloc_of (heap m) c))"
proof -
  define hp' where "hp' = (\<lambda>i. if i \<in> set (storages m) then map_option (with_allocator g) (heap m i) else heap m i)"
  have u: "\<exists>a. alloc_of (heap m) i = Some a \<and> usable a" if "i \<in> set (storages m) \<union> set (actives m) \<union> set (recycler m)" for i
    using mvcc_invD(5) [OF inv that] by (simp add: store_ok_def usable_at_def)
  have e: "each_storage (with_allocator g) (storages m) (heap m) = Inr hp'"
    unfolding hp'_def by (rule each_storage_ok [OF mvcc_invD(2) [OF inv]]) (use u in force)
  have al: "alloc_of hp' i = (if i \<in> set (storages m) then map_option g (alloc_of (heap m) i) else alloc_of (heap m) i)" for i
    by (cases "heap m i") (auto simp: alloc_of_def hp'_def with_allocator_def)
  have f: "same_frames (heap m) hp'"
    unfolding same_frames_def
  proof
    fix j show "rel_option same_frame (heap m j) (hp' j)"
      by (cases "heap m j") (auto simp: hp'_def with_allocator_def same_frame_def)
  qed
  have v: "vview hp' i = vview (heap m) i" for i
    using u [of i] g by (auto simp: vview_def al maintains_def)
  have t: "tamed (heap m) hp' i" if i: "i \<in> set (storages m) \<union> set (actives m) \<union> set (recycler m)" for i
  proof -
    obtain a where a: "alloc_of (heap m) i = Some a" "usable a" using u [OF i] by blast
    have s: "steady a a" by (rule kept_steady) simp
    show ?thesis using a s g by (cases "i \<in> set (storages m)") (auto simp: tamed_def al maintains_def)
  qed
  have p: "stores_inv m" "names_inv m" "txns_inv m" using inv by (simp_all add: mvcc_inv_def)
  have "mvcc_inv (m\<lparr>heap := hp'\<rparr>)"
    unfolding mvcc_inv_def
  proof (intro conjI)
    show "stores_inv (m\<lparr>heap := hp'\<rparr>)" by (rule stores_inv_tamed [OF p(1) f t])
    show "names_inv (m\<lparr>heap := hp'\<rparr>)" by (rule names_inv_tamed [OF p(2) f v])
    show "txns_inv (m\<lparr>heap := hp'\<rparr>)" by (rule txns_inv_tamed [OF p(3) f t v v]) auto
  qed
  then show ?thesis using e db_frames [OF f v] al by auto
qed

lemma with_allocator_comp: "with_allocator f (with_allocator g s) = with_allocator (f \<circ> g) s"
  by (simp add: with_allocator_def option.map_comp)

definition checkpoint :: "host \<Rightarrow> sqlite_allocator \<Rightarrow> sqlite_allocator" where
  "checkpoint h a = commit h (begin_new (a\<lparr>transient := False\<rparr>))"

lemma vset_transient [simp]: "vset (a\<lparr>transient := b\<rparr>) = vset a"
  by (simp add: vset_def)

lemma maintains_checkpoint: "maintains (checkpoint h)"
  unfolding maintains_def
proof (intro allI impI)
  fix a assume a: "usable a"
  define b where "b = a\<lparr>transient := False\<rparr>"
  have u: "usable b" using a by (simp add: b_def usable_def)
  have q: "quiet b (checkpoint h a)"
    unfolding checkpoint_def b_def [symmetric]
    by (rule quiet_trans [OF quiet_begin(2) [OF u] quiet_commit [OF quiet_usable [OF quiet_begin(2) [OF u] u]]])
  have s: "steady a b" "view b = view a" "vset b = vset a" by (simp_all add: b_def steady_def)
  have "steady b (checkpoint h a)" using q by (simp add: quiet_def kept_steady)
  then have "steady a (checkpoint h a)" using s(1) by (auto simp: steady_def)
  then show "usable (checkpoint h a) \<and> view (checkpoint h a) = view a \<and> steady a (checkpoint h a) \<and> vset (checkpoint h a) \<subseteq> vset a"
    using q u s(2,3) vset_quiet [OF q] by (simp add: quiet_def)
qed

lemma journal_commit_eq:
  "journal_commit h m = bindE (lift_result m (each_storage (with_allocator (checkpoint h)) (storages m) (heap m))) (\<lambda>hp. Inr (m\<lparr>heap := hp\<rparr>))"
proof -
  have "(\<lambda>s. vs_commit h (vs_begin_new (vs_set_transient False s))) = with_allocator (checkpoint h)"
    by (simp add: vs_commit_def vs_begin_new_def vs_set_transient_def with_allocator_comp checkpoint_def [abs_def] comp_def)
  then show ?thesis by (simp add: journal_commit_def)
qed

lemma quiet_session: "usable a \<Longrightarrow> quiet a (get_session a)"
  using get_session_ok [of a] usable_kept [OF _ kept_session, of a] kept_session [of a] within_session
  by (auto simp: quiet_def usable_def)

lemma quiet_flush_back: "usable a \<Longrightarrow> quiet a (flush_back h f rel all a)"
proof -
  assume u: "usable a"
  then have a: "store_inv a" "local_writes a" by (simp_all add: usable_def)
  show ?thesis
    using flush_back_ok [OF a, of h f rel all] usable_kept [OF u kept_flush_back [of a h f rel all]]
      kept_flush_back [of a h f rel all] within_flush_back [of _ a h f rel all]
    by (simp add: quiet_def)
qed

lemma quiet_reduce_perm: "usable a \<Longrightarrow> quiet a (reduce_perm h a)"
  using quiet_session quiet_trans [OF quiet_flush_back quiet_session [OF quiet_usable [OF quiet_flush_back]]]
  by (auto simp: reduce_perm_def)

section \<open>The system\<close>

datatype mvcc_op =
  Txn_begin bool version | Txn_read store_id address | Txn_write store_id address buffer | Txn_new store_id buffer
| Txn_commit store_id | Txn_discard store_id | Make_singular | Synch_start | Synch_end | Checkpoint

datatype mvcc_out =
  Started store_id | Answer "buffer option" | Wrote bool | Made address | Journaled "(address \<times> buffer) list"
| Single bool | Finished

text \<open>
  A client of a transaction allocates a block, copies it or writes it, and completes; an empty block of
  the store itself means that there is none.
\<close>

definition is_missing :: "version_ref \<Rightarrow> bool" where
  "is_missing r \<longleftrightarrow> (case r of Empty_block i \<Rightarrow> True | Block_ref b q \<Rightarrow> False)"

definition in_store ::
    "mvcc \<Rightarrow> (version_ref \<times> address \<times> store_heap) store_result \<Rightarrow>
     (version_ref \<Rightarrow> address \<Rightarrow> store_heap \<Rightarrow> mvcc_out \<times> store_heap store_result) \<Rightarrow> (mvcc_out \<times> mvcc) mvcc_result" where
  "in_store m res f =
     bindE (lift_result m res) (\<lambda>(r, w, hp1).
       let (out, done) = f r w hp1 in bindE (lift_result m done) (\<lambda>hp2. Inr (out, m\<lparr>heap := hp2\<rparr>)))"

fun mvcc_step :: "host \<Rightarrow> mvcc_op \<Rightarrow> mvcc \<Rightarrow> (mvcc_out \<times> mvcc) mvcc_result" where
  "mvcc_step h (Txn_begin writer v) m = bindE (mvcc_begin writer v m) (\<lambda>(t, m'). Inr (Started t, m'))"
| "mvcc_step h (Txn_read t w) m =
     in_store m (vs_allocate h (next_id m) t w Read (heap m))
       (\<lambda>r w hp. (Answer (if is_missing r then None else Some (vs_read r hp)), vs_complete h t hp))"
| "mvcc_step h (Txn_write t w b) m =
     in_store m (vs_allocate h (next_id m) t w Write (heap m))
       (\<lambda>r w hp. (Wrote (\<not> is_missing r), vs_complete h t (vs_write r b hp)))"
| "mvcc_step h (Txn_new t b) m =
     in_store m (vs_allocate h (next_id m) t 0 Create (heap m)) (\<lambda>r w hp. (Made w, vs_complete h t (vs_write r b hp)))"
| "mvcc_step h (Txn_commit t) m = bindE (mvcc_commit h t m) (\<lambda>(pages, m'). Inr (Journaled pages, m'))"
| "mvcc_step h (Txn_discard t) m = bindE (mvcc_discard t m) (\<lambda>m'. Inr (Finished, m'))"
| "mvcc_step h Make_singular m = bindE (make_singular h m) (\<lambda>(b, m'). Inr (Single b, m'))"
| "mvcc_step h Synch_start m = Inr (Finished, journal_synch_start m)"
| "mvcc_step h Synch_end m = bindE (journal_synch_end h m) (\<lambda>m'. Inr (Finished, m'))"
| "mvcc_step h Checkpoint m = bindE (journal_commit h m) (\<lambda>m'. Inr (Finished, m'))"

text \<open>When a client may perform an operation.\<close>

fun can_step :: "mvcc_op \<Rightarrow> mvcc \<Rightarrow> bool" where
  "can_step (Txn_begin writer v) m =
     (fresh_version v m \<and> (writer \<longrightarrow> writing_transactions m = 0) \<and> active_transactions m + 1 \<noteq> 0)"
| "can_step (Txn_read t w) m = (t \<in> set (actives m) \<and> w \<noteq> 0)"
| "can_step (Txn_write t w b) m = (t \<in> set (actives m) \<and> \<not> read_only (the (heap m t)) \<and> w \<noteq> 0)"
| "can_step (Txn_new t b) m = (t \<in> set (actives m) \<and> \<not> read_only (the (heap m t)))"
| "can_step (Txn_commit t) m = (t \<in> set (actives m) \<and> \<not> read_only (the (heap m t)))"
| "can_step (Txn_discard t) m = (t \<in> set (actives m))"
| "can_step op m = True"

text \<open>The database: a transaction sees the snapshot it began with, under its own writes.\<close>

definition sees :: "txn \<Rightarrow> address \<rightharpoonup> buffer" where
  "sees x = snap x ++ own x"

definition write_own :: "store_id \<Rightarrow> address \<Rightarrow> buffer \<Rightarrow> database \<Rightarrow> database" where
  "write_own t w b d =
     d\<lparr>txns := (txns d)(t := map_option (\<lambda>x. x\<lparr>own := (own x)(w \<mapsto> b)\<rparr>) (txns d t))\<rparr>"

fun db_step :: "mvcc_op \<Rightarrow> database \<Rightarrow> mvcc_out \<Rightarrow> database \<Rightarrow> bool" where
  "db_step (Txn_begin writer v) d r d' =
     (\<exists>t. r = Started t \<and> txns d t = None \<and>
        d' = d\<lparr>txns := (txns d)(t \<mapsto> \<lparr>snap = committed d, own = Map.empty, writing = writer\<rparr>)\<rparr>)"
| "db_step (Txn_read t w) d r d' = (\<exists>x. txns d t = Some x \<and> r = Answer (sees x w) \<and> d' = d)"
| "db_step (Txn_write t w b) d r d' =
     (\<exists>x. txns d t = Some x \<and> writing x \<and> r = Wrote (sees x w \<noteq> None) \<and> d' = (if sees x w = None then d else write_own t w b d))"
| "db_step (Txn_new t b) d r d' =
     (\<exists>x w. txns d t = Some x \<and> writing x \<and> r = Made w \<and> w \<noteq> 0 \<and> sees x w = None \<and> committed d w = None \<and> d' = write_own t w b d)"
| "db_step (Txn_commit t) d r d' =
     (\<exists>x pages. txns d t = Some x \<and> writing x \<and> r = Journaled pages \<and> map_of pages = own x \<and> distinct (map fst pages) \<and>
        d' = \<lparr>committed = committed d ++ own x, txns = (txns d)(t := None)\<rparr>)"
| "db_step (Txn_discard t) d r d' = (r = Finished \<and> txns d t \<noteq> None \<and> d' = d\<lparr>txns := (txns d)(t := None)\<rparr>)"
| "db_step Make_singular d r d' = (d' = d \<and> (\<exists>b. r = Single b))"
| "db_step op d r d' = (d' = d \<and> r = Finished)"

lemma db_txn: "t \<in> set (actives m) \<Longrightarrow> txns (db m) t = Some (txn_of m t)" "t \<notin> set (actives m) \<Longrightarrow> txns (db m) t = None"
  by (simp_all add: db_def)

lemma write_own_db: "t \<in> set (actives m) \<Longrightarrow>
   write_own t w b (db m) = (db m)\<lparr>txns := (txns (db m))(t \<mapsto> (txn_of m t)\<lparr>own := (own (txn_of m t))(w \<mapsto> b)\<rparr>)\<rparr>"
  by (simp add: write_own_def db_txn)

lemma mvcc_inv_synching [simp]: "mvcc_inv (m\<lparr>journal_synching := b\<rparr>) = mvcc_inv m" "db (m\<lparr>journal_synching := b\<rparr>) = db m"
proof -
  have a: "actives (m\<lparr>journal_synching := b\<rparr>) = actives m" by (simp add: actives_def)
  have t: "txn_of (m\<lparr>journal_synching := b\<rparr>) = txn_of m" by (simp add: txn_of_def fun_eq_iff)
  show "mvcc_inv (m\<lparr>journal_synching := b\<rparr>) = mvcc_inv m"
    by (simp add: mvcc_inv_def stores_inv_def names_inv_def txns_inv_def a)
  show "db (m\<lparr>journal_synching := b\<rparr>) = db m" by (simp add: db_def a t cong: if_cong)
qed

lemma actives_below:
  assumes inv: "mvcc_inv m" and "active_transactions m + 1 \<noteq> 0"
  shows "length (actives m) + 1 < 2 ^ 32"
proof -
  have a: "active_transactions m = of_nat (length (actives m))" "length (actives m) < 2 ^ 32"
    using inv by (simp_all add: mvcc_inv_def txns_inv_def)
  have "of_nat (length (actives m) + 1) \<noteq> (0 :: u32)" using assms(2) a(1) by (simp add: add.commute)
  then have "length (actives m) + 1 \<noteq> 2 ^ 32" by (auto simp: word_of_nat_eq_0_iff)
  then show ?thesis using a(2) by simp
qed

lemma mvcc_step_ok:
  assumes inv: "mvcc_inv m" and can: "can_step op m"
  shows "\<exists>r m'. mvcc_step h op m = Inr (r, m') \<and> mvcc_inv m' \<and> db_step op (db m) r (db m')"
proof (cases op)
  case (Txn_begin writer v)
  have "\<exists>t m'. mvcc_begin writer v m = Inr (t, m') \<and> mvcc_inv m' \<and> t \<notin> set (actives m) \<and> actives m' = actives m @ [t] \<and>
      db m' = (db m)\<lparr>txns := (txns (db m))(t \<mapsto> \<lparr>snap = committed (db m), own = Map.empty, writing = writer\<rparr>)\<rparr>"
    by (rule begin_ok [OF inv]) (use can Txn_begin actives_below [OF inv] in simp_all)
  then show ?thesis by (auto simp: Txn_begin db_txn)
next
  case (Txn_read t w)
  then have t: "t \<in> set (actives m)" "w \<noteq> 0" using can by simp_all
  obtain r hp1 hp2 where r: "vs_allocate h (next_id m) t w Read (heap m) = Inr (r, w, hp1)" "vs_complete h t hp1 = Inr hp2"
    "reads_as t r hp1 (sees (txn_of m t) w)" "mvcc_inv (m\<lparr>heap := hp2\<rparr>)" "db (m\<lparr>heap := hp2\<rparr>) = db m"
    using txn_read_ok [OF inv t, of h] unfolding sees_def by blast
  have "(if is_missing r then None else Some (vs_read r hp1)) = sees (txn_of m t) w"
    using r(3) by (auto simp: reads_as_def is_missing_def split: option.splits)
  then show ?thesis using r t by (simp add: Txn_read in_store_def lift_result_def db_txn)
next
  case (Txn_write t w b)
  then have t: "t \<in> set (actives m)" "\<not> read_only (the (heap m t))" "w \<noteq> 0" using can by simp_all
  obtain r hp1 hp2 where r: "vs_allocate h (next_id m) t w Write (heap m) = Inr (r, w, hp1)"
    "vs_complete h t (vs_write r b hp1) = Inr hp2" "mvcc_inv (m\<lparr>heap := hp2\<rparr>)"
    "if sees (txn_of m t) w = None then r = Empty_block t \<and> db (m\<lparr>heap := hp2\<rparr>) = db m
     else r = Block_ref t (Cached w) \<and> db (m\<lparr>heap := hp2\<rparr>) = write_own t w b (db m)"
    using txn_write_ok [OF inv t, of h b] unfolding sees_def write_own_db [OF t(1)] by blast
  have "writing (txn_of m t)" using t(2) by (simp add: txn_of_def)
  then show ?thesis using r t(1)
    by (cases "sees (txn_of m t) w") (simp_all add: Txn_write in_store_def lift_result_def db_txn is_missing_def)
next
  case (Txn_new t b)
  then have t: "t \<in> set (actives m)" "\<not> read_only (the (heap m t))" using can by simp_all
  obtain w hp1 hp2 where r: "vs_allocate h (next_id m) t 0 Create (heap m) = Inr (Block_ref t (Cached w), w, hp1)"
    "vs_complete h t (vs_write (Block_ref t (Cached w)) b hp1) = Inr hp2" "mvcc_inv (m\<lparr>heap := hp2\<rparr>)" "w \<noteq> 0"
    "sees (txn_of m t) w = None" "committed (db m) w = None" "db (m\<lparr>heap := hp2\<rparr>) = write_own t w b (db m)"
    using txn_new_ok [OF inv t, of h b] unfolding sees_def write_own_db [OF t(1)] by blast
  have "writing (txn_of m t)" using t(2) by (simp add: txn_of_def)
  then show ?thesis using r t(1) by (simp add: Txn_new in_store_def lift_result_def db_txn)
next
  case (Txn_commit t)
  then have t: "t \<in> set (actives m)" "\<not> read_only (the (heap m t))" using can by simp_all
  have "writing (txn_of m t)" using t(2) by (simp add: txn_of_def)
  then show ?thesis using txn_commit_ok [OF inv t, of h] t(1) by (auto simp: Txn_commit db_txn)
next
  case (Txn_discard t)
  then have t: "t \<in> set (actives m)" using can by simp
  show ?thesis using discard_ok [OF inv t] t by (auto simp: Txn_discard db_txn)
next
  case Make_singular
  show ?thesis using merge_down_ok [OF inv, of h] by (auto simp: Make_singular make_singular_def)
next
  case Synch_start
  then show ?thesis using inv by (simp add: journal_synch_start_def)
next
  case Synch_end
  have i: "mvcc_inv (m\<lparr>journal_synching := False\<rparr>)" using inv by simp
  have g: "maintains (reduce_perm h)" by (rule maintains_quiet) (rule quiet_reduce_perm)
  show ?thesis
    using maintain_ok [OF i g]
    by (auto simp: Synch_end journal_synch_end_def mvcc_reduce_def lift_result_def)
next
  case Checkpoint
  show ?thesis using maintain_ok [OF inv maintains_checkpoint, of h] by (auto simp: Checkpoint journal_commit_eq lift_result_def)
qed

interpretation coordinator: refinement mvcc_inv db can_step "mvcc_step h" db_step for h
  by unfold_locales (rule mvcc_step_ok)

end
