(* ===== verification/StorageRegistry.thy ===== *)
theory StorageRegistry
  imports Journal MvccSystem
begin

text \<open>
  The storages of a process and their journal: recovery and synchronisation of
  \<^verbatim>\<open>src/src/storage/transactions/journal.cpp\<close>, and the registry of coordinators of
  \<^verbatim>\<open>src/src/storage/transactions/abstracted_storage.cpp\<close>.  A hash map is an association list in the
  unspecified order of its iteration.  What the file system holds under a name, whether the directory of
  a storage exists, and the versions that \<^verbatim>\<open>create_version\<close> makes for a new coordinator and for the
  transaction of recovery are arguments.
\<close>

section \<open>State\<close>

record surroundings =
  disk :: "store_name \<Rightarrow> rows option"
  valid_directory :: "store_name \<Rightarrow> bool"
  first_version :: "store_name \<Rightarrow> version"
  begin_version :: "store_name \<Rightarrow> version"

type_synonym registry = "(store_name \<times> mvcc) list"

record recovery_state =
  instances :: registry
  pending :: "(store_name \<times> store_id option) list"

text \<open>An exception that leaves an operation of a coordinator, without the state it leaves behind.\<close>

definition escape :: "'a mvcc_result \<Rightarrow> 'a store_result" where
  "escape r = (case r of Inl (e, m) \<Rightarrow> Inl e | Inr x \<Rightarrow> Inr x)"

definition new_storage :: "surroundings \<Rightarrow> store_name \<Rightarrow> mvcc" where
  "new_storage env nm = new_mvcc (first_version env nm) (new_allocator False (disk env nm))"

text \<open>\<^verbatim>\<open>_get_abstracted_storage\<close>: the coordinator of a name, made if there is none.\<close>

definition get_storage :: "surroundings \<Rightarrow> store_name \<Rightarrow> registry \<Rightarrow> mvcc" where
  "get_storage env nm reg = (case map_of reg nm of None \<Rightarrow> new_storage env nm | Some m \<Rightarrow> m)"

definition put_storage :: "store_name \<Rightarrow> mvcc \<Rightarrow> recovery_state \<Rightarrow> recovery_state" where
  "put_storage nm m st = st\<lparr>instances := AList.update nm m (instances st)\<rparr>"

section \<open>Recovery\<close>

text \<open>One page of a committed batch: the transaction of its storage is begun with the first.\<close>

definition pending_transaction :: "store_name \<Rightarrow> recovery_state \<Rightarrow> store_id option" where
  "pending_transaction nm st = (case map_of (pending st) nm of None \<Rightarrow> None | Some t \<Rightarrow> t)"

definition begin_recovery :: "surroundings \<Rightarrow> store_name \<Rightarrow> store_id option \<Rightarrow> mvcc \<Rightarrow> (store_id option \<times> mvcc) store_result" where
  "begin_recovery env nm t m =
     (if t = None \<and> valid_directory env nm
      then bindE (escape (mvcc_begin True (begin_version env nm) m)) (\<lambda>(t', m'). Inr (Some t', m'))
      else Inr (t, m))"

definition replay_page :: "host \<Rightarrow> store_id \<Rightarrow> address \<Rightarrow> buffer \<Rightarrow> mvcc \<Rightarrow> mvcc store_result" where
  "replay_page h t w b m =
     bindE (vs_allocate h (next_id m) t w Create (heap m)) (\<lambda>(r, w', hp1).
       bindE (vs_complete h t (vs_write r b hp1)) (\<lambda>hp2. Inr (m\<lparr>heap := hp2\<rparr>)))"

definition replay_command :: "host \<Rightarrow> surroundings \<Rightarrow> command \<Rightarrow> recovery_state \<Rightarrow> recovery_state store_result" where
  "replay_command h env c st =
     (let nm = cmd_name c; m = (get_storage env nm (instances st))\<lparr>recovery := True\<rparr> in
      bindE (begin_recovery env nm (pending_transaction nm st) m) (\<lambda>(t, m1).
        let st1 = st\<lparr>pending := AList.update nm t (pending st)\<rparr> in
        if active_transactions m1 = 0 then Inr (put_storage nm m1 st1)
        else (case t of
                None \<Rightarrow> Inl Std_exception
              | Some t' \<Rightarrow> bindE (replay_page h t' (cmd_address c) (cmd_buffer c) m1) (\<lambda>m2. Inr (put_storage nm m2 st1)))))"

text \<open>
  A rollback entry: \<^verbatim>\<open>discard\<close> is called when there is no transaction, with the null pointer.
\<close>

definition replay_rollback :: "surroundings \<Rightarrow> command \<Rightarrow> recovery_state \<Rightarrow> recovery_state store_result" where
  "replay_rollback env c st =
     (if pending_transaction (cmd_name c) st = None then Inl Std_exception else Inr st)"

text \<open>
  The loop over the journal; \<open>seq\<close> is the last sequence number, \<open>cmds\<close> the pages since the last commit.
  The flag of the result is \<^verbatim>\<open>is_error\<close>.
\<close>

function recover_loop ::
    "host \<Rightarrow> surroundings \<Rightarrow> u64 \<Rightarrow> command list \<Rightarrow> reader \<Rightarrow> recovery_state \<Rightarrow> (bool \<times> recovery_state) store_result" where
  "recover_loop h env seq cmds r st =
     (if snd r then
        let (c, r1) = load_command r; seq1 = (if seq = 0 then cmd_sequence c else seq + 1) in
        if seq \<noteq> 0 \<and> cmd_sequence c \<noteq> seq1 then Inr (cmd_sequence c \<noteq> 0, st)
        else
          let cmds1 = (if cmd_command c = JOURNAL_PAGE then cmds @ [c] else cmds) in
          if cmd_command c = JOURNAL_COMMIT then
            bindE (foldE (replay_command h env) cmds1 st) (\<lambda>st1. recover_loop h env seq1 [] r1 st1)
          else if cmd_command c = JOURNAL_ROLLBACK then
            bindE (replay_rollback env c st) (\<lambda>st1. recover_loop h env seq1 cmds1 r1 st1)
          else recover_loop h env seq1 cmds1 r1 st
      else Inr (False, st))"
  by pat_completeness auto

termination
proof (relation "measure (\<lambda>(h, env, seq, cmds, r, st). reader_size r)")
qed (auto simp: Let_def intro!: load_command_less [OF _ sym])

declare recover_loop.simps [simp del]

definition finish_storage ::
    "host \<Rightarrow> surroundings \<Rightarrow> bool \<Rightarrow> store_name \<times> store_id option \<Rightarrow> recovery_state \<Rightarrow> recovery_state store_result" where
  "finish_storage h env failed p st =
     (let (nm, t) = p; m = get_storage env nm (instances st) in
      bindE (if active_transactions m = 0 then Inr m
             else (case t of
                     None \<Rightarrow> Inl Std_exception
                   | Some t' \<Rightarrow> escape (if failed then mvcc_discard t' m else bindE (mvcc_commit h t' m) (\<lambda>(pages, m'). Inr m'))))
        (\<lambda>m1. Inr (put_storage nm (m1\<lparr>recovery := False\<rparr>) st)))"

text \<open>What a recovery leaves of the journal: the file is renamed or removed, and an empty one is opened.\<close>

definition reset_journal :: "journal_state \<Rightarrow> journal_state" where
  "reset_journal j = j\<lparr>sequence := 0, last_synch := 0, journal_ostr := [], journal_file := []\<rparr>"

definition recover ::
    "host \<Rightarrow> surroundings \<Rightarrow> journal_state \<Rightarrow> registry \<Rightarrow> (journal_state \<times> registry) store_result" where
  "recover h env j reg =
     bindE (recover_loop h env 0 [] (journal_file j, True) \<lparr>instances = reg, pending = []\<rparr>) (\<lambda>(failed, st).
     bindE (foldE (finish_storage h env failed) (pending st) st) (\<lambda>st1. Inr (reset_journal j, instances st1)))"

section \<open>Synchronisation\<close>

text \<open>An operation of every participant, as the journal calls it.\<close>

definition on_participant ::
    "surroundings \<Rightarrow> (mvcc \<Rightarrow> mvcc store_result) \<Rightarrow> store_name \<Rightarrow> registry \<Rightarrow> registry store_result" where
  "on_participant env f nm reg =
     bindE (f (get_storage env nm reg)) (\<lambda>m. Inr (AList.update nm m reg))"

definition count_singular ::
    "host \<Rightarrow> surroundings \<Rightarrow> store_name \<Rightarrow> nat \<times> registry \<Rightarrow> (nat \<times> registry) store_result" where
  "count_singular h env nm = (\<lambda>(n, reg).
     bindE (escape (make_singular h (get_storage env nm reg))) (\<lambda>(b, m).
       Inr (if b then Suc n else n, AList.update nm m reg)))"

definition checkpoint_participants ::
    "host \<Rightarrow> surroundings \<Rightarrow> store_name list \<Rightarrow> registry \<Rightarrow> registry store_result" where
  "checkpoint_participants h env ps reg =
     bindE (foldE (on_participant env (\<lambda>m. Inr (journal_synch_start m))) ps reg) (\<lambda>reg1.
     bindE (foldE (\<lambda>nm. on_participant env (\<lambda>m. if valid_directory env nm then escape (journal_commit h m) else Inr m) nm) ps reg1)
       (foldE (on_participant env (\<lambda>m. escape (journal_synch_end h m))) ps))"

text \<open>
  \<^verbatim>\<open>synch(force)\<close>; \<open>due\<close> says that 3 seconds have passed since the last check, \<open>lower_max\<close> is the size above
  which the journal is worth removing.
\<close>

definition synch ::
    "host \<Rightarrow> surroundings \<Rightarrow> bool \<Rightarrow> bool \<Rightarrow> nat \<Rightarrow> journal_state \<times> registry \<Rightarrow> (journal_state \<times> registry) store_result" where
  "synch h env force due lower_max = (\<lambda>(j, reg).
     let j1 = mark_commit j in
     if last_synch j \<noteq> sequence j \<and> (force \<or> due) \<and> (force \<or> lower_max < length (journal_file j1)) then
       bindE (foldE (count_singular h env) (participants j1) (0, reg)) (\<lambda>(singles, reg1).
         if singles = length (participants j1) then
           bindE (checkpoint_participants h env (participants j1) reg1) (\<lambda>reg2.
             Inr ((flush_buffer j1)\<lparr>journal_ostr := [], journal_file := [], sequence := 0, last_synch := 0\<rparr>, reg2))
         else Inr (j1, reg1))
     else Inr (j1, reg))"

section \<open>The registry\<close>

definition get_abstracted_storage ::
    "host \<Rightarrow> surroundings \<Rightarrow> store_name \<Rightarrow> journal_state \<times> registry \<Rightarrow> (journal_state \<times> registry) store_result" where
  "get_abstracted_storage h env nm = (\<lambda>(j, reg).
     bindE (if reg = [] then recover h env j reg else Inr (j, reg)) (\<lambda>(j1, reg1).
       let m = get_storage env nm reg1 in
       Inr (j1, AList.update nm (mvcc_engage (m\<lparr>recovery := False\<rparr>)) reg1)))"

text \<open>
  Deleting a coordinator releases its place in the journal and the store it was made around, which
  leaves its file.
\<close>

definition delete_coordinator :: "host \<Rightarrow> mvcc \<Rightarrow> rows option" where
  "delete_coordinator h m =
     (case get_allocator initial_id (heap m) of Inl e \<Rightarrow> None | Inr a \<Rightarrow> file_rows (release h a))"

definition erase_abstracted_storage ::
    "host \<Rightarrow> store_name \<Rightarrow> surroundings \<times> journal_state \<times> registry \<Rightarrow> bool \<times> surroundings \<times> journal_state \<times> registry" where
  "erase_abstracted_storage h nm = (\<lambda>(env, j, reg).
     (case map_of reg nm of
        None \<Rightarrow> (True, env, j, reg)
      | Some m \<Rightarrow>
          if is_idle m then
            (True, env\<lparr>disk := (disk env)(nm := delete_coordinator h m)\<rparr>, release_participant nm j, AList.delete nm reg)
          else (False, env, j, reg)))"

definition reduce_all :: "host \<Rightarrow> registry \<Rightarrow> registry store_result" where
  "reduce_all h reg =
     foldE (\<lambda>(nm, m) reg. if near_depleted h then bindE (escape (mvcc_reduce h m)) (\<lambda>m'. Inr (AList.update nm m' reg)) else Inr reg)
       reg reg"

text \<open>A writing transaction is begun, and committed to the journal.\<close>

definition begin_writer ::
    "surroundings \<Rightarrow> store_name \<Rightarrow> version \<Rightarrow> journal_state \<times> registry \<Rightarrow> (store_id \<times> journal_state \<times> registry) store_result" where
  "begin_writer env nm v = (\<lambda>(j, reg).
     let m = get_storage env nm reg; j1 = (if mv_local_writes m then engage_participant nm j else j) in
     bindE (escape (mvcc_begin True v m)) (\<lambda>(t, m'). Inr (t, j1, AList.update nm m' reg)))"

definition add_pages :: "store_name \<Rightarrow> (address \<times> buffer) list \<Rightarrow> journal_state \<Rightarrow> journal_state" where
  "add_pages nm pages = fold (\<lambda>(w, b). journal_add_entry JOURNAL_PAGE nm w b) pages"

definition commit_writer ::
    "host \<Rightarrow> surroundings \<Rightarrow> store_name \<Rightarrow> store_id \<Rightarrow> journal_state \<times> registry \<Rightarrow> (journal_state \<times> registry) store_result" where
  "commit_writer h env nm t = (\<lambda>(j, reg).
     bindE (escape (mvcc_commit h t (get_storage env nm reg))) (\<lambda>(pages, m').
       Inr (add_pages nm pages j, AList.update nm m' reg)))"

end
