(* ===== verification/MvccTheorems.thy ===== *)
theory MvccTheorems
  imports MvccSystem
begin

text \<open>What the coordinator of versioned stores guarantees.\<close>

section \<open>A new coordinator\<close>

lemma new_mvcc_ok:
  assumes a: "usable a" and v: "0 < v"
  shows "mvcc_inv (new_mvcc v a)" "db (new_mvcc v a) = \<lparr>committed = view a, txns = Map.empty\<rparr>" "actives (new_mvcc v a) = []"
proof -
  define m where "m = new_mvcc v a"
  define b where "b = a\<lparr>alloc_version := v\<rparr>"
  have h: "heap m initial_id = Some (set_allocator (Some a) (new_version_store (next_address a) 1 v))"
    "i \<noteq> initial_id \<Longrightarrow> heap m i = None" for i
    by (simp_all add: m_def new_mvcc_def)
  have al: "alloc_of (heap m) initial_id = Some b"
    by (simp add: alloc_of_def h(1) set_allocator_def new_version_store_def b_def)
  have vw: "vview (heap m) initial_id = view a" by (simp add: vview_def al b_def)
  have u: "usable b" using a by (simp add: b_def usable_def)
  have f: "storages m = [initial_id]" "recycler m = []" "storage_versions m = []" "next_id m = 1" "last_address m = next_address a"
    "active_transactions m = 0" "writing_transactions m = 0" "\<not> recovery m" "mv_local_writes m"
    by (simp_all add: m_def new_mvcc_def)
  have ac: "actives m = []" by (simp add: actives_def f)
  have s: "vs_version (the (heap m initial_id)) = v" "based (the (heap m initial_id)) = None" "readers (the (heap m initial_id)) = 0"
    by (simp_all add: h(1) set_allocator_def new_version_store_def)
  have "stores_inv m"
    unfolding stores_inv_def f ac using u al h s v
    by (auto simp: store_ok_def usable_at_def b_def initial_id_def)
  moreover have "names_inv m" unfolding names_inv_def f by simp
  moreover have "w \<le> next_address a" if "view a w = Some x" for w x using view_dom [of a w] a that by (simp add: usable_def)
  then have "txns_inv m" unfolding txns_inv_def f ac using s vw f(8,9) by auto
  ultimately show "mvcc_inv (new_mvcc v a)" by (simp add: mvcc_inv_def m_def)
  show "actives (new_mvcc v a) = []" using ac by (simp add: m_def)
  show "db (new_mvcc v a) = \<lparr>committed = view a, txns = Map.empty\<rparr>"
    using vw ac f by (simp add: db_def m_def)
qed

abbreviation reachable :: "host \<Rightarrow> version \<Rightarrow> sqlite_allocator \<Rightarrow> (mvcc_op \<times> mvcc_out) list \<Rightarrow> mvcc \<Rightarrow> bool" where
  "reachable h v a \<equiv> execution can_step (mvcc_step h) (new_mvcc v a)"

lemma reachable_inv: "reachable h v a tr m \<Longrightarrow> usable a \<Longrightarrow> 0 < v \<Longrightarrow> mvcc_inv m"
  using coordinator.execution_ok new_mvcc_ok(1) by blast

text \<open>What a client knows from the database is enough to perform the operations of a transaction.\<close>

lemma can_step_db:
  assumes "txns (db m) t = Some x"
  shows "w \<noteq> 0 \<Longrightarrow> can_step (Txn_read t w) m" "writing x \<Longrightarrow> w \<noteq> 0 \<Longrightarrow> can_step (Txn_write t w b) m"
    "writing x \<Longrightarrow> can_step (Txn_new t b) m" "writing x \<Longrightarrow> can_step (Txn_commit t) m" "can_step (Txn_discard t) m"
  using assms by (auto simp: db_def txn_of_def split: if_splits)

section \<open>A run for the witnesses\<close>

text \<open>Transaction 1 reads, transaction 2 writes; the store had one block, at 40.\<close>

definition demo_trace :: "(mvcc_op \<times> mvcc_out) list" where
  "demo_trace = [(Txn_begin False 8, Started 1), (Txn_begin True 9, Started 2)]"

definition demo_snapshot :: "address \<rightharpoonup> buffer" where
  "demo_snapshot = [40 \<mapsto> [1, 2]]"

definition demo_txn :: "bool \<Rightarrow> txn" where
  "demo_txn b = \<lparr>snap = demo_snapshot, own = Map.empty, writing = b\<rparr>"

definition demo_checks :: "mvcc \<Rightarrow> bool" where
  "demo_checks m \<longleftrightarrow> fresh_version 10 m \<and> active_transactions m + 1 \<noteq> 0 \<and> storages m = [0] \<and> notifiers m = [] \<and>
     writing_transaction m = Some 2 \<and> \<not> journal_synching m"

lemma demo_runs:
  "map_option (\<lambda>(tr, m). (tr, demo_checks m)) (attempt can_step (mvcc_step tight) (map fst demo_trace) (new_mvcc 7 demo_store)) =
   Some (demo_trace, True)"
  by code_simp

lemma behaves_begin2:
  assumes "behaves db_step d [(Txn_begin b v, Started t), (Txn_begin c w, Started u)] d'"
  shows "d' = d\<lparr>txns := (txns d)(t \<mapsto> \<lparr>snap = committed d, own = Map.empty, writing = b\<rparr>,
    u \<mapsto> \<lparr>snap = committed d, own = Map.empty, writing = c\<rparr>)\<rparr>"
  using assms by auto

lemma demo_reached:
  obtains m where "reachable tight 7 demo_store demo_trace m" "mvcc_inv m" "demo_checks m"
    "committed (db m) = demo_snapshot" "txns (db m) = [1 \<mapsto> demo_txn False, 2 \<mapsto> demo_txn True]"
proof -
  obtain m where m: "attempt can_step (mvcc_step tight) (map fst demo_trace) (new_mvcc 7 demo_store) = Some (demo_trace, m)"
    "demo_checks m" using demo_runs by (auto simp: map_option_eq_Some)
  have r: "reachable tight 7 demo_store demo_trace m" by (rule attempt_execution [OF m(1)])
  have "mvcc_inv m \<and> behaves db_step (db (new_mvcc 7 demo_store)) demo_trace (db m)"
    by (rule coordinator.execution_ok [OF r new_mvcc_ok(1)]) (simp_all add: demo_store_ok)
  then have i: "mvcc_inv m" and b: "behaves db_step \<lparr>committed = demo_snapshot, txns = Map.empty\<rparr> demo_trace (db m)"
    using new_mvcc_ok(2) [OF demo_store_ok(1), of 7] by (simp_all add: demo_store_ok(2) demo_snapshot_def)
  have "committed (db m) = demo_snapshot" "txns (db m) = [1 \<mapsto> demo_txn False, 2 \<mapsto> demo_txn True]"
    using behaves_begin2 [OF b [unfolded demo_trace_def]] by (simp_all add: demo_txn_def)
  with r i m(2) show ?thesis by (rule that)
qed

text \<open>The run goes on: the writer writes and commits, and the reader is discarded.\<close>

lemma step_on:
  assumes "execution can_step (mvcc_step h) s tr m" "mvcc_inv m" "can_step op m"
  obtains r m' where "mvcc_step h op m = Inr (r, m')" "execution can_step (mvcc_step h) s (tr @ [(op, r)]) m'" "mvcc_inv m'"
    "db_step op (db m) r (db m')"
  using mvcc_step_ok [OF assms(2,3), of h] execution_step [where valid = can_step and step = "mvcc_step h", OF assms(1,3)] by blast

lemma demo_written:
  assumes m: "mvcc_inv m" "committed (db m) = demo_snapshot" "txns (db m) = [1 \<mapsto> demo_txn False, 2 \<mapsto> demo_txn True]"
  obtains r pages m1 m2 where "mvcc_step tight (Txn_commit 2) m1 = Inr (Journaled pages, m2)" "map_of pages = [40 \<mapsto> [6]]"
    "execution can_step (mvcc_step tight) m [(Txn_write 2 40 [6], r), (Txn_commit 2, Journaled pages)] m2" "mvcc_inv m2"
    "committed (db m2) = [40 \<mapsto> [6]]" "txns (db m2) = [1 \<mapsto> demo_txn False]"
proof -
  have t: "txns (db m) 2 = Some (demo_txn True)" "writing (demo_txn True)" by (simp_all add: m(3) demo_txn_def)
  have s: "sees (demo_txn b) 40 = Some [1, 2]" for b by (simp add: demo_txn_def sees_def demo_snapshot_def)
  have c1: "can_step (Txn_write 2 40 [6]) m" by (rule can_step_db(2) [OF t]) simp
  obtain r m1 where 1: "mvcc_step tight (Txn_write 2 40 [6]) m = Inr (r, m1)"
    "execution can_step (mvcc_step tight) m ([] @ [(Txn_write 2 40 [6], r)]) m1" "mvcc_inv m1" "db_step (Txn_write 2 40 [6]) (db m) r (db m1)"
    by (rule step_on [OF execution_start m(1) c1])
  have d1: "db m1 = write_own 2 40 [6] (db m)" using 1(4) t(1) s by auto
  define x where "x = (demo_txn True)\<lparr>own := [40 \<mapsto> [6]]\<rparr>"
  have t1: "txns (db m1) 2 = Some x" "writing x" "own x = [40 \<mapsto> [6]]" by (simp_all add: d1 write_own_def t x_def demo_txn_def)
  have cd: "committed (db m1) = demo_snapshot" "(txns (db m1))(2 := None) = [1 \<mapsto> demo_txn False]"
    by (simp_all add: d1 write_own_def m(2,3) fun_upd_twist)
  obtain r2 m2 where 2: "mvcc_step tight (Txn_commit 2) m1 = Inr (r2, m2)"
    "execution can_step (mvcc_step tight) m (([] @ [(Txn_write 2 40 [6], r)]) @ [(Txn_commit 2, r2)]) m2" "mvcc_inv m2"
    "db_step (Txn_commit 2) (db m1) r2 (db m2)"
    by (rule step_on [OF 1(2,3) can_step_db(4) [OF t1(1,2)]])
  obtain pages where p: "r2 = Journaled pages" "map_of pages = [40 \<mapsto> [6]]" "committed (db m2) = demo_snapshot ++ [40 \<mapsto> [6]]"
    "txns (db m2) = [1 \<mapsto> demo_txn False]" using 2(4) t1 cd by auto
  show ?thesis by (rule that [of m1 pages m2 r]) (use 2 p in \<open>simp_all add: demo_snapshot_def\<close>)
qed

section \<open>Snapshot isolation\<close>






section \<open>Writers and readers\<close>

lemma no_writer:
  assumes inv: "mvcc_inv m"
  shows "writing_transactions m = 0 \<longleftrightarrow> (\<forall>t x. txns (db m) t = Some x \<longrightarrow> \<not> writing x)"
proof -
  let ?f = "filter (\<lambda>t. \<not> read_only (the (heap m t))) (actives m)"
  have w: "writing_transactions m = of_nat (length ?f)" "length ?f \<le> 1" using inv by (simp_all add: mvcc_inv_def txns_inv_def)
  then have "writing_transactions m = 0 \<longleftrightarrow> ?f = []" by (cases "length ?f") auto
  also have "\<dots> \<longleftrightarrow> (\<forall>t x. txns (db m) t = Some x \<longrightarrow> \<not> writing x)"
    by (auto simp: filter_empty_conv db_def txn_of_def)
  finally show ?thesis .
qed

text \<open>
  C30.  There is one writer.  A new writing transaction is refused with \<^verbatim>\<open>InvalidWriterOrder\<close>, leaving the
  coordinator as it is, exactly when another writing transaction has neither committed nor been discarded.
\<close>

theorem single_writer:
  assumes "usable a" "0 < v" "reachable h v a tr m" "fresh_version v' m" "active_transactions m + 1 \<noteq> 0"
  shows "mvcc_begin True v' m = Inl (Invalid_writer_order, m) \<longleftrightarrow> (\<exists>t x. txns (db m) t = Some x \<and> writing x)"
proof -
  have inv: "mvcc_inv m" by (rule reachable_inv [OF assms(3,1,2)])
  show ?thesis
  proof (cases "writing_transactions m = 0")
    case True
    then show ?thesis using begin_ok [OF inv assms(4) _ actives_below [OF inv assms(5)], of True] no_writer [OF inv] by auto
  next
    case False
    then show ?thesis using no_writer [OF inv] by (auto simp: mvcc_begin_def throw_def)
  qed
qed

theorem single_writer_witness: "\<exists>m. mvcc_begin True 10 m = Inl (Invalid_writer_order, m) \<and> storages m = [0]"
proof -
  obtain m where m: "reachable tight 7 demo_store demo_trace m" "demo_checks m"
    "txns (db m) = [1 \<mapsto> demo_txn False, 2 \<mapsto> demo_txn True]" by (rule demo_reached)
  have c: "fresh_version 10 m" "active_transactions m + 1 \<noteq> 0" "storages m = [0]" using m(2) by (simp_all add: demo_checks_def)
  have "txns (db m) 2 = Some (demo_txn True)" "writing (demo_txn True)" by (simp_all add: m(3) demo_txn_def)
  then show ?thesis using single_writer [OF demo_store_ok(1) _ m(1) c(1,2)] c(3) by auto
qed

text \<open>
  C28.  Readers are counted exactly: every committed version counts the transactions under way whose walk
  along the previous versions comes through it, and each of these walks ends at the oldest version.
\<close>

theorem reader_counts:
  assumes "usable a" "0 < v" "reachable h v a tr m" "c \<in> set (storages m)"
  shows "readers (the (heap m c)) = length (filter (\<lambda>t. c \<in> set (based_chain (next_id m) (heap m) t)) (actives m)) \<and>
    (\<forall>t \<in> set (actives m). last (based_chain (next_id m) (heap m) t) = hd (storages m))"
proof -
  have inv: "mvcc_inv m" by (rule reachable_inv [OF assms(3,1,2)])
  have "filter (\<lambda>t. c \<in> set (based_chain (next_id m) (heap m) t)) (actives m) =
      filter (\<lambda>t. c \<in> set (reach (storages m) (base (heap m) t))) (actives m)"
    by (rule filter_cong) (simp_all add: active_chain [OF inv])
  moreover have "last (based_chain (next_id m) (heap m) t) = hd (storages m)" if t: "t \<in> set (actives m)" for t
  proof -
    obtain ys where "storages m = reach (storages m) (base (heap m) t) @ ys" using reach_prefix [OF active_based(2) [OF inv t]] by blast
    moreover have "reach (storages m) (base (heap m) t) \<noteq> []" by (simp add: reach_def)
    ultimately show ?thesis by (metis active_chain [OF inv t] hd_append last_rev)
  qed
  ultimately show ?thesis using readers_eq [OF inv assms(4)] by simp
qed

theorem reader_counts_witness:
  "\<exists>m. readers (the (heap m 0)) = length (filter (\<lambda>t. 0 \<in> set (based_chain (next_id m) (heap m) t)) (actives m)) \<and>
    (\<forall>t \<in> set (actives m). last (based_chain (next_id m) (heap m) t) = hd (storages m))"
proof -
  obtain m where m: "reachable tight 7 demo_store demo_trace m" "demo_checks m" by (rule demo_reached)
  have "0 \<in> set (storages m)" using m(2) by (simp add: demo_checks_def)
  from reader_counts [OF demo_store_ok(1) _ m(1) this] show ?thesis by auto
qed

text \<open>
  C39.  A missing block is not recognised.  The reference a read of a missing block returns is not an end
  for \<^verbatim>\<open>is_end\<close> of the transaction, although \<^verbatim>\<open>allocate\<close> is documented to return \<^verbatim>\<open>end()\<close>: it is the
  empty block of the store, which no allocator on the way recognises.
\<close>

theorem missing_not_end:
  assumes "usable a" "0 < v" "reachable h v a tr m" "txns (db m) t = Some x" "w \<noteq> 0" "sees x w = None"
  shows "\<exists>r hp. vs_allocate h (next_id m) t w Read (heap m) = Inr (r, w, hp) \<and> vs_read r hp = [] \<and> \<not> vs_is_end (next_id m) t r hp"
proof -
  have inv: "mvcc_inv m" by (rule reachable_inv [OF assms(3,1,2)])
  have t: "t \<in> set (actives m)" "x = txn_of m t" using assms(4) by (auto simp: db_def split: if_splits)
  obtain r hp1 where r: "vs_allocate h (next_id m) t w Read (heap m) = Inr (r, w, hp1)"
    "reads_as t r hp1 ((snap (txn_of m t) ++ own (txn_of m t)) w)"
    using txn_read_ok [OF inv t(1) assms(5), of h] by blast
  moreover have "(snap (txn_of m t) ++ own (txn_of m t)) w = None" using assms(6) t(2) by (simp add: sees_def)
  ultimately have "r = Empty_block t" by (simp only: reads_as_def option.case)
  then show ?thesis using r(1) by (auto simp: vs_read_def vs_is_end_def)
qed

theorem missing_not_end_witness:
  "\<exists>(m :: mvcc) r hp. vs_allocate tight (next_id m) 1 41 Read (heap m) = Inr (r, 41, hp) \<and> vs_read r hp = [] \<and>
    \<not> vs_is_end (next_id m) 1 r hp"
proof -
  obtain m where m: "reachable tight 7 demo_store demo_trace m" "txns (db m) = [1 \<mapsto> demo_txn False, 2 \<mapsto> demo_txn True]"
    by (rule demo_reached)
  have t: "txns (db m) 1 = Some (demo_txn False)" "sees (demo_txn False) 41 = None" "(0 :: version) < 7" "(41 :: address) \<noteq> 0"
    by (simp_all add: m(2) demo_txn_def sees_def demo_snapshot_def)
  show ?thesis using missing_not_end [OF demo_store_ok(1) t(3) m(1) t(1,4,2)] by blast
qed

section \<open>Idle coordinators and durability\<close>

lemma no_actives: "txns (db m) = Map.empty \<longleftrightarrow> actives m = []"
  by (auto simp: db_def fun_eq_iff)

lemma idle_singular:
  assumes inv: "mvcc_inv m" and i: "txns (db m) = Map.empty" "\<not> journal_synching m"
  shows "\<exists>m' c. make_singular h m = Inr (True, m') \<and> mvcc_inv m' \<and> db m' = db m \<and> storages m' = [c]"
proof -
  obtain m' where m': "merge_down h m = Inr m'" "mvcc_inv m'" "db m' = db m" "actives m' = actives m"
    "\<forall>c \<in> set (butlast (storages m')). 0 < readers (the (heap m' c))"
    using merge_down_ok [OF inv, of h] i(2) by blast
  have "actives m' = []" using i(1) m'(4) by (simp add: no_actives)
  then have "readers (the (heap m' c)) = 0" if "c \<in> set (storages m')" for c using readers_eq [OF m'(2) that] by simp
  then have "butlast (storages m') = []" using m'(5) by (metis in_set_butlastD less_irrefl list.set_intros(1) neq_Nil_conv)
  moreover have "storages m' \<noteq> []" by (rule mvcc_invD(1) [OF m'(2)])
  ultimately obtain c where "storages m' = [c]" by (metis append_butlast_last_id append_Nil)
  then show ?thesis using m' by (auto simp: make_singular_def)
qed

text \<open>
  C27.  An idle coordinator becomes singular.  When no transaction is under way and the journal is not
  synchronising, \<^verbatim>\<open>make_singular\<close> succeeds: every version is merged into one, and that one alone shows
  the committed blocks.
\<close>

theorem singular_when_idle:
  assumes "usable a" "0 < v" "reachable h v a tr m" "txns (db m) = Map.empty" "\<not> journal_synching m"
  shows "\<exists>m' c. make_singular h m = Inr (True, m') \<and> storages m' = [c] \<and> vview (heap m') c = committed (db m)"
proof -
  obtain m' c where m': "make_singular h m = Inr (True, m')" "db m' = db m" "storages m' = [c]"
    using idle_singular [OF reachable_inv [OF assms(3,1,2)] assms(4,5), of h] by blast
  then have "vview (heap m') c = committed (db m')" by (simp add: db_def)
  then show ?thesis using m' by auto
qed

text \<open>The run after both transactions have ended.\<close>

lemma synch_end_ends: "mvcc_step h Synch_end m = Inr (r, m') \<Longrightarrow> \<not> journal_synching m'"
  by (auto simp: journal_synch_end_def mvcc_reduce_def bindE_Inr_iff)

lemma execution_append: "execution valid step s1 tr' s2 \<Longrightarrow> execution valid step s tr s1 \<Longrightarrow> execution valid step s (tr @ tr') s2"
  by (induction rule: execution.induct) (auto intro: execution_step simp flip: append_assoc)

lemma demo_idle:
  obtains tr m where "reachable tight 7 demo_store tr m" "txns (db m) = Map.empty" "\<not> journal_synching m"
    "committed (db m) = [40 \<mapsto> [6]]"
proof -
  obtain m where m: "reachable tight 7 demo_store demo_trace m" "mvcc_inv m" "committed (db m) = demo_snapshot"
    "txns (db m) = [1 \<mapsto> demo_txn False, 2 \<mapsto> demo_txn True]" by (rule demo_reached)
  obtain r pages m1 m2 where w: "execution can_step (mvcc_step tight) m [(Txn_write 2 40 [6], r), (Txn_commit 2, Journaled pages)] m2"
    "mvcc_inv m2" "committed (db m2) = [40 \<mapsto> [6]]" "txns (db m2) = [1 \<mapsto> demo_txn False]"
    by (rule demo_written [OF m(2,3,4)]) (rule that)
  have c: "can_step (Txn_discard 1) m2" by (rule can_step_db(5)) (simp add: w(4))
  obtain r3 m3 where 3: "mvcc_step tight (Txn_discard 1) m2 = Inr (r3, m3)"
    "reachable tight 7 demo_store ((demo_trace @ [(Txn_write 2 40 [6], r), (Txn_commit 2, Journaled pages)]) @ [(Txn_discard 1, r3)]) m3"
    "mvcc_inv m3" "db_step (Txn_discard 1) (db m2) r3 (db m3)"
    by (rule step_on [OF execution_append [OF w(1) m(1)] w(2) c])
  have d3: "committed (db m3) = [40 \<mapsto> [6]]" "txns (db m3) = Map.empty" using 3(4) w(3,4) by auto
  obtain r4 m4 where 4: "mvcc_step tight Synch_end m3 = Inr (r4, m4)" "reachable tight 7 demo_store
    (((demo_trace @ [(Txn_write 2 40 [6], r), (Txn_commit 2, Journaled pages)]) @ [(Txn_discard 1, r3)]) @ [(Synch_end, r4)]) m4"
    "mvcc_inv m4" "db_step Synch_end (db m3) r4 (db m4)"
    by (rule step_on [OF 3(2,3), where op = Synch_end]) (simp, rule that)
  show ?thesis by (rule that [OF 4(2)]) (use 4(4) d3 synch_end_ends [OF 4(1)] in auto)
qed

text \<open>
  C26.  A checkpoint is durable.  When an idle coordinator has become singular, the checkpoint of the
  journal leaves a file that, opened again, shows exactly the committed blocks; the coordinator goes on
  showing them too.
\<close>

theorem checkpoint_durable:
  assumes "usable a" "0 < v" "reachable h v a tr m" "txns (db m) = Map.empty" "\<not> journal_synching m"
  shows "\<exists>m1 m2 c b. make_singular h m = Inr (True, m1) \<and> journal_commit h m1 = Inr m2 \<and> storages m2 = [c] \<and> db m2 = db m \<and>
    alloc_of (heap m2) c = Some b \<and> view (new_allocator False (file_rows b)) = committed (db m)"
proof -
  obtain m1 c where m1: "make_singular h m = Inr (True, m1)" "mvcc_inv m1" "db m1 = db m" "storages m1 = [c]"
    using idle_singular [OF reachable_inv [OF assms(3,1,2)] assms(4,5), of h] by blast
  have "store_ok (next_id m1) (heap m1) c" using mvcc_invD(5) [OF m1(2), of c] m1(4) by simp
  then obtain d where d: "alloc_of (heap m1) c = Some d" "usable d" by (auto simp: store_ok_def usable_at_def)
  obtain hp where hp: "each_storage (with_allocator (checkpoint h)) (storages m1) (heap m1) = Inr hp" "db (m1\<lparr>heap := hp\<rparr>) = db m1"
    "alloc_of hp c = Some (checkpoint h d)"
    using maintain_ok [OF m1(2) maintains_checkpoint, of h] d(1) m1(4) by auto
  define e where "e = begin_new (d\<lparr>transient := False\<rparr>)"
  have "usable (d\<lparr>transient := False\<rparr>)" using d(2) by (simp add: usable_def)
  then have e: "usable e" "transacted e" "view e = view d"
    using quiet_begin(2) [of "d\<lparr>transient := False\<rparr>"] by (simp_all add: e_def quiet_def begin_new_def begin_transaction_ok(6) usable_def)
  have "view (new_allocator False (file_rows (checkpoint h d))) = view d"
    using commit_reopens(1) [OF e(1,2), of h] by (simp add: checkpoint_def e_def [symmetric] e(3))
  moreover have "view d = committed (db m1)" using d(1) m1(4) by (simp add: db_def vview_def)
  ultimately show ?thesis
    using m1 hp by (intro exI [of _ m1] exI [of _ "m1\<lparr>heap := hp\<rparr>"] exI [of _ c] exI [of _ "checkpoint h d"])
      (simp add: journal_commit_eq lift_result_def)
qed

theorem checkpoint_durable_witness:
  "\<exists>m m1 m2 c b. make_singular tight m = Inr (True, m1) \<and> journal_commit tight m1 = Inr m2 \<and> storages m2 = [c] \<and>
    alloc_of (heap m2) c = Some b \<and> view (new_allocator False (file_rows b)) = [40 \<mapsto> [6]]"
proof -
  obtain tr m where m: "reachable tight 7 demo_store tr m" "txns (db m) = Map.empty" "\<not> journal_synching m"
    "committed (db m) = [40 \<mapsto> [6]]" by (rule demo_idle)
  from checkpoint_durable [OF demo_store_ok(1) _ m(1,2,3)] m(4) show ?thesis by (metis zero_less_numeral)
qed

theorem singular_when_idle_witness:
  "\<exists>m m' c. make_singular tight m = Inr (True, m') \<and> storages m' = [c] \<and> vview (heap m') c = [40 \<mapsto> [6]]"
proof -
  obtain tr m where m: "reachable tight 7 demo_store tr m" "txns (db m) = Map.empty" "\<not> journal_synching m"
    "committed (db m) = [40 \<mapsto> [6]]" by (rule demo_idle)
  from singular_when_idle [OF demo_store_ok(1) _ m(1,2,3)] m(4) show ?thesis by (metis zero_less_numeral)
qed

section \<open>Merging a transaction\<close>

lemma merge_moves:
  assumes inv: "mvcc_inv m" and t: "t \<in> set (actives m)" "\<not> read_only (the (heap m t))"
    and w: "writing_transaction m = Some t" and n: "notifiers m = []"
  obtains hp a b a' b' m' where "quiet_heap (heap m) hp" "alloc_of hp t = Some a" "alloc_of hp (last (storages m)) = Some b"
    "view b' = view b ++ view a" "view a' = Map.empty" "mvcc_merge h v t m = Inr (pages_of m t, m')" "storages m' = storages m"
    "heap m' = on_store (\<lambda>s. set_version v (s\<lparr>vs_order := Suc (mv_order m)\<rparr>)) t
       (put_allocator (last (storages m)) b' (put_allocator t a' hp))"
proof -
  obtain hp where hp: "(if \<not> recovery m \<and> mv_local_writes m then vs_journal h t (heap m) else Inr ([], heap m)) = Inr (pages_of m t, hp)"
    "quiet_heap (heap m) hp" using commit_journal_ok [OF inv t] by blast
  have f: "same_frames (heap m) hp" using hp(2) by (simp add: quiet_except_def)
  have i0: "mvcc_inv (m\<lparr>heap := hp\<rparr>)" by (rule mvcc_inv_quiet [OF inv hp(2)])
  note wf = writer_facts [OF inv t]
  have x: "txns_inv m" using inv by (simp add: mvcc_inv_def)
  obtain s where s: "heap m t = Some s" using active_based(4) [OF inv t(1)] by auto
  have l_in: "last (storages m) \<in> set (storages m)" using mvcc_invD(1) [OF inv] by simp
  have ua: "usable_at hp i" if "i \<in> set (storages m) \<union> set (actives m)" for i
    using mvcc_invD(5) [OF i0, of i] that by (auto simp: store_ok_def)
  obtain a where a: "alloc_of hp t = Some a" "usable a" using ua [of t] t(1) by (auto simp: usable_at_def)
  obtain b where b: "alloc_of hp (last (storages m)) = Some b" "usable b"
    using ua [of "last (storages m)"] l_in by (auto simp: usable_at_def)
  obtain s0 where s0: "hp t = Some s0" "vs_allocator s0 = Some a" using alloc_of_heap [OF a(1)] by blast
  have w0: "\<forall>b \<in> set (storages m). older hp b t" "opened a"
    using writer_facts(2,3) [OF i0, of t] t a(1) by (simp_all add: frames_the [OF f])
  have ne_t: "t \<noteq> last (storages m)" using l_in active_based(3) [OF inv t(1)] by auto
  obtain a' b' where mv: "vs_move h t (last (storages m)) hp = Inr (put_allocator (last (storages m)) b' (put_allocator t a' hp))"
    "view b' = view b ++ view a" "view a' = Map.empty"
    using vs_move_ok [OF a w0(2) b ne_t, of h] w0(1) l_in by blast
  have act: "active_transactions m \<noteq> 0"
  proof -
    have "active_transactions m = of_nat (length (actives m))" "length (actives m) < 2 ^ 32" using x by (simp_all add: txns_inv_def)
    moreover have "length (actives m) \<noteq> 0" using t(1) by auto
    ultimately show ?thesis using dvd_imp_le [of "2 ^ 32" "length (actives m)"] by (auto simp: word_of_nat_eq_0_iff)
  qed
  have g: "\<not> read_only s" "\<not> vs_version s \<le> last_comitted_version m" "\<not> vs_order s0 < mv_order m" "vs_version s0 = vs_version s"
    "based s0 = Some (last (storages m))"
    using t(2) wf(1,4,6) s s0 active_based(1) [OF inv t(1)] frames_the [OF f, of t] by simp_all
  have l: "lookup_version (vs_version s) m = Inr t" using active_version [OF inv t(1)] s by (simp add: lookup_version_def)
  have ga: "get_allocator t hp = Inr a" "deref t hp = Inr s0" using s0 by (simp_all add: get_allocator_def deref_def)
  have ne: "storages m \<noteq> []" by (rule mvcc_invD(1) [OF inv])
  have nc: "notify_change [] rs" for rs by (simp add: notify_change_def)
  define hp1 where "hp1 = put_allocator (last (storages m)) b' (put_allocator t a' hp)"
  have h1: "\<exists>s1. hp1 t = Some s1" using s0 ne_t by (simp add: hp1_def)
  have "\<exists>m'. mvcc_merge h v t m = Inr (pages_of m t, m') \<and> storages m' = storages m \<and>
      heap m' = on_store (\<lambda>s. set_version v (s\<lparr>vs_order := Suc (mv_order m)\<rparr>)) t hp1"
    using s g w l hp(1) ga a(1) s0 act n ne nc mv(1) [folded hp1_def] h1
    by (auto simp: mvcc_merge_def deref_def lift_result_def Let_def on_store_def)
  then show ?thesis using that [OF hp(2) a(1) b(1) mv(2,3)] unfolding hp1_def by blast
qed

text \<open>
  C29.  A merge publishes the transaction at once.  It hands the writes of the transaction to the journal
  and moves them into the last version, so they are committed; the transaction goes on with no writes of
  its own.  A reading transaction that began since that version sees them too: its snapshot has changed.
\<close>

theorem merge_publishes:
  assumes "usable a" "0 < v0" "reachable h v0 a tr m" "txns (db m) t = Some x" "writing x"
    and w: "writing_transaction m = Some t" and n: "notifiers m = []"
  shows "\<exists>pages m'. mvcc_merge h v t m = Inr (pages, m') \<and> map_of pages = own x \<and> storages m' = storages m \<and>
    committed (db m') = committed (db m) ++ own x \<and> own (txn_of m' t) = Map.empty \<and>
    (\<forall>u y. txns (db m) u = Some y \<longrightarrow> u \<noteq> t \<longrightarrow>
       own (txn_of m' u) = own y \<and>
       snap (txn_of m' u) = (if based (the (heap m u)) = Some (last (storages m)) then snap y ++ own x else snap y))"
proof -
  have inv: "mvcc_inv m" by (rule reachable_inv [OF assms(3,1,2)])
  have t: "t \<in> set (actives m)" "\<not> read_only (the (heap m t))" "own x = vview (heap m) t" "x = txn_of m t"
    using assms(4,5) by (auto simp: db_def txn_of_def split: if_splits)
  define l where "l = last (storages m)"
  obtain hp c b c' b' m' where r: "quiet_heap (heap m) hp" "alloc_of hp t = Some c" "alloc_of hp l = Some b" "view b' = view b ++ view c"
    "view c' = Map.empty" "mvcc_merge h v t m = Inr (pages_of m t, m')" "storages m' = storages m"
    "heap m' = on_store (\<lambda>s. set_version v (s\<lparr>vs_order := Suc (mv_order m)\<rparr>)) t (put_allocator l b' (put_allocator t c' hp))"
    unfolding l_def by (rule merge_moves [OF inv t(1,2) w n, of h v])
  have lt: "l \<in> set (storages m)" "t \<notin> set (storages m)" using mvcc_invD(1) [OF inv] active_based(3) [OF inv t(1)] by (simp_all add: l_def)
  have q: "vview hp i = vview (heap m) i" for i by (rule quiet_vview [OF r(1)]) simp
  have f: "same_frames (heap m) hp" using r(1) by (simp add: quiet_except_def)
  have hn: "hp t \<noteq> None" "hp l \<noteq> None" using alloc_exists r(2,3) by blast+
  have al: "alloc_of (heap m') i = (if i = t then Some (c'\<lparr>alloc_version := v\<rparr>) else if i = l then Some b' else alloc_of hp i)" for i
    using hn lt by (cases "hp i") (auto simp: alloc_of_def r(8) on_store_def set_version_def)
  have vw: "vview (heap m') i = (if i = t then Map.empty else if i = l then vview (heap m) l ++ own x else vview (heap m) i)" for i
    using q [of i] q [of t] r(2,3,4,5) t(3) by (auto simp: vview_def al)
  have bs: "base (heap m') i = base (heap m) i" for i
    using frames_the(1) [OF f, of i] hn lt by (cases "hp i") (auto simp: base_def r(8) on_store_def set_version_def)
  obtain xs where xs: "storages m = xs @ [l]" using mvcc_invD(1) [OF inv] unfolding l_def by (metis append_butlast_last_id)
  have lx: "l \<notin> set xs" "t \<notin> set xs" using mvcc_invD(2) [OF inv] lt xs by auto
  have cx: "cview (heap m') (rev ys) = cview (heap m) (rev ys)" if "set ys \<subseteq> set xs" for ys
    by (rule cview_cong) (use that lx vw in auto)
  have com: "cview (heap m') (rev (storages m)) = cview (heap m) (rev (storages m)) ++ own x"
    using cx [of xs] vw [of l] lt by (auto simp: xs)
  have others: "own (txn_of m' u) = own y \<and>
      snap (txn_of m' u) = (if based (the (heap m u)) = Some l then snap y ++ own x else snap y)"
    if u: "txns (db m) u = Some y" "u \<noteq> t" for u y
  proof -
    have a: "u \<in> set (actives m)" "y = txn_of m u" using u(1) by (auto simp: db_def split: if_splits)
    have nu: "u \<noteq> l" using active_based(3) [OF inv a(1)] lt by auto
    note bu = active_based(1,2) [OF inv a(1)]
    show ?thesis
    proof (cases "base (heap m) u = l")
      case True
      then have "reach (storages m) (base (heap m) u) = storages m" unfolding l_def by (simp add: reach_all [OF mvcc_invD(1,2) [OF inv]])
      then show ?thesis using True bu(1) com vw [of u] u(2) nu by (simp add: a(2) txn_of_def bs r(7))
    next
      case False
      then have "base (heap m) u \<in> set xs" using bu(2) xs by simp
      then have rx: "reach (storages m) (base (heap m) u) = reach xs (base (heap m) u)" "set (reach xs (base (heap m) u)) \<subseteq> set xs"
        by (simp_all add: xs set_reach)
      then show ?thesis using False bu(1) cx [OF rx(2)] vw [of u] u(2) nu by (simp add: a(2) txn_of_def bs r(7))
    qed
  qed
  show ?thesis
    using r(6,7) pages_own [OF inv t(1,2)] com vw [of t] others t(4)
    by (intro exI [of _ "pages_of m t"] exI [of _ m']) (auto simp: db_def txn_of_def l_def)
qed

lemma in_store_fields:
  "in_store m res f = Inr (r, m') \<Longrightarrow> writing_transaction m' = writing_transaction m \<and> notifiers m' = notifiers m \<and> storages m' = storages m"
  by (auto simp: in_store_def bindE_Inr_iff split_beta)

text \<open>The writer of the run writes and merges: the block the reader finds at 40 changes under it.\<close>

theorem merge_publishes_witness:
  "\<exists>(m :: mvcc) pages m'. sees (txn_of m 1) 40 = Some [1, 2] \<and> mvcc_merge tight 11 2 m = Inr (pages, m') \<and>
    map_of pages = [40 \<mapsto> [6]] \<and> snap (txn_of m' 1) 40 = Some [6]"
proof -
  obtain m where m: "reachable tight 7 demo_store demo_trace m" "mvcc_inv m" "demo_checks m" "committed (db m) = demo_snapshot"
    "txns (db m) = [1 \<mapsto> demo_txn False, 2 \<mapsto> demo_txn True]" by (rule demo_reached)
  have t: "txns (db m) 2 = Some (demo_txn True)" "writing (demo_txn True)" by (simp_all add: m(5) demo_txn_def)
  have s: "sees (demo_txn b) 40 = Some [1, 2]" for b by (simp add: demo_txn_def sees_def demo_snapshot_def)
  have c1: "can_step (Txn_write 2 40 [6]) m" by (rule can_step_db(2) [OF t]) simp
  obtain r m1 where 1: "mvcc_step tight (Txn_write 2 40 [6]) m = Inr (r, m1)"
    "reachable tight 7 demo_store (demo_trace @ [(Txn_write 2 40 [6], r)]) m1" "mvcc_inv m1"
    "db_step (Txn_write 2 40 [6]) (db m) r (db m1)"
    by (rule step_on [OF m(1,2) c1])
  have d1: "db m1 = write_own 2 40 [6] (db m)" using 1(4) t(1) s by auto
  have f: "writing_transaction m1 = Some 2" "notifiers m1 = []" "storages m1 = [0]"
    using in_store_fields [OF 1(1) [unfolded mvcc_step.simps]] m(3) by (simp_all add: demo_checks_def)
  define x where "x = (demo_txn True)\<lparr>own := [40 \<mapsto> [6]]\<rparr>"
  have x: "txns (db m1) 2 = Some x" "writing x" "own x = [40 \<mapsto> [6]]" by (simp_all add: d1 write_own_def t x_def demo_txn_def)
  have y: "txns (db m1) 1 = Some (demo_txn False)" by (simp add: d1 write_own_def m(5))
  then have a: "1 \<in> set (actives m1)" "txn_of m1 1 = demo_txn False" by (auto simp: db_def split: if_splits)
  have b: "based (the (heap m1 1)) = Some (last (storages m1))" using active_based(1,2) [OF 1(3) a(1)] f(3) by simp
  obtain pages m' where "mvcc_merge tight 11 2 m1 = Inr (pages, m')" "map_of pages = own x"
    "\<forall>u y. txns (db m1) u = Some y \<longrightarrow> u \<noteq> 2 \<longrightarrow> own (txn_of m' u) = own y \<and>
       snap (txn_of m' u) = (if based (the (heap m1 u)) = Some (last (storages m1)) then snap y ++ own x else snap y)"
    using merge_publishes [OF demo_store_ok(1) _ 1(2) x(1,2) f(1,2), of 11] by auto
  note g = this
  from g(3) y b have "snap (txn_of m' 1) = demo_snapshot ++ [40 \<mapsto> [6]]" by (simp add: x(3) demo_txn_def)
  then have "snap (txn_of m' 1) 40 = Some [6]" by simp
  moreover have "sees (txn_of m1 1) 40 = Some [1, 2]" unfolding a(2) by (rule s)
  ultimately show ?thesis
    by (intro exI [of _ m1] exI [of _ pages] exI [of _ m'] conjI g(1) g(2) [unfolded x(3)])
qed

end
