(* ===== verification/MvccRecover.thy ===== *)
theory MvccRecover
  imports StorageRegistry MvccTheorems
begin

text \<open>
  The coordinator during recovery: transactions are begun and written as at other times, and a commit
  writes the merged versions to their file.  The invariant is that of the coordinator with its flag
  \<^verbatim>\<open>recovery\<close> cleared.
\<close>

section \<open>Transactions\<close>

lemma begin_recovering:
  "mvcc_begin w v m = Inr (t, m') \<Longrightarrow> mvcc_begin w v (m\<lparr>recovery := b\<rparr>) = Inr (t, m'\<lparr>recovery := b\<rparr>)"
  by (auto simp: mvcc_begin_def Let_def lift_result_def throw_def begin_allocator_def deref_def bindE_def
      split: if_splits option.splits sum.splits)

lemma replay_page_ok:
  assumes inv: "mvcc_inv m" and t: "t \<in> set (actives m)" "\<not> read_only (the (heap m t))" and w: "w \<noteq> 0"
  shows "\<exists>hp. replay_page h t w b (m\<lparr>recovery := r\<rparr>) = Inr (m\<lparr>heap := hp, recovery := r\<rparr>) \<and> mvcc_inv (m\<lparr>heap := hp\<rparr>) \<and>
    db (m\<lparr>heap := hp\<rparr>) = write_own t w b (db m)"
proof -
  obtain s where s: "heap m t = Some s" "\<not> read_only s" using active_based(4) [OF inv t(1)] t(2) by auto
  have u: "usable_at (heap m) t" using mvcc_invD(5) [OF inv] t(1) by (auto simp: store_ok_def)
  obtain hp1 x where c: "vs_allocate h (next_id m) t w Create (heap m) = Inr (Block_ref t (Cached w), w, hp1)"
    "own_block t w (Block_ref t (Cached w)) (heap m) hp1 x"
    using vs_allocate_create [OF u w s, of h "next_id m"] by blast
  obtain hp2 where hp2: "vs_complete h t (vs_write (Block_ref t (Cached w)) b hp1) = Inr hp2"
    "own_block t w (Block_ref t (Cached w)) (heap m) hp2 b"
    using own_block_write [OF c(2), of h b] by blast
  have "replay_page h t w b (m\<lparr>recovery := r\<rparr>) = Inr (m\<lparr>heap := hp2, recovery := r\<rparr>)"
    using c(1) hp2(1) by (simp add: replay_page_def)
  then show ?thesis
    using mvcc_inv_own [OF inv t hp2(2)] db_own [OF inv t(1) hp2(2)] by (auto simp: write_own_db [OF t(1)])
qed

section \<open>A merge that commits\<close>

definition each_of :: "(version_store \<Rightarrow> version_store) \<Rightarrow> store_id list \<Rightarrow> store_heap \<Rightarrow> store_heap" where
  "each_of f ss hp = (\<lambda>i. if i \<in> set ss then map_option f (hp i) else hp i)"

lemma each_of_Nil [simp]: "each_of f [] hp = hp"
  by (simp add: each_of_def)

lemma drop_merged_off:
  "c \<notin> set cs \<Longrightarrow> drop_merged h False cs (on_store f c hp, sv) =
   bindE (drop_merged h False cs (hp, sv)) (\<lambda>(ks, hp1, sv1). Inr (ks, on_store f c hp1, sv1))"
proof (induction cs arbitrary: hp sv)
  case (Cons d cs)
  have d: "on_store f c hp d = hp d" using Cons.prems by (simp add: on_store_def)
  have g: "get_allocator d (on_store f c hp) = get_allocator d hp" using d by (simp add: get_allocator_def deref_def)
  have sw: "on_store g d (on_store f c hp) = on_store f c (on_store g d hp)" for g
    using Cons.prems by (auto simp: on_store_def fun_eq_iff)
  show ?case
    using Cons by (auto simp: deref_def d g sw bindE_assoc split_beta split: option.splits intro!: bindE_cong)
qed simp

lemma drop_merged_kept: "drop_merged h b cs (hp, sv) = Inr (ks, hp1, sv1) \<Longrightarrow> set ks \<subseteq> set cs"
proof (induction cs arbitrary: hp sv ks hp1 sv1)
  case (Cons c cs)
  then show ?case by (fastforce simp: bindE_Inr_iff split: if_splits)
qed simp

lemma drop_merged_recovering:
  "distinct cs \<Longrightarrow> drop_merged h True cs (hp, sv) =
   bindE (drop_merged h False cs (hp, sv)) (\<lambda>(ks, hp1, sv1). Inr (ks, each_of (\<lambda>s. vs_commit h (vs_begin_new s)) ks hp1, sv1))"
proof (induction cs arbitrary: hp sv)
  case (Cons c cs)
  define f where "f = (\<lambda>s. vs_commit h (vs_begin_new s))"
  have IH: "drop_merged h True cs (hp', sv') =
     bindE (drop_merged h False cs (hp', sv')) (\<lambda>(ks, hp1, sv1). Inr (ks, each_of f ks hp1, sv1))" for hp' sv'
    using Cons by (simp add: f_def)
  have off: "drop_merged h False cs (on_store f c hp, sv) =
      bindE (drop_merged h False cs (hp, sv)) (\<lambda>(ks, hp1, sv1). Inr (ks, on_store f c hp1, sv1))"
    by (rule drop_merged_off) (use Cons.prems in simp)
  have e: "each_of f ks (on_store f c hp1) = each_of f (c # ks) hp1" if "drop_merged h False cs (hp, sv) = Inr (ks, hp1, sv1)" for ks hp1 sv1
    using drop_merged_kept [OF that] Cons.prems by (auto simp: each_of_def on_store_def fun_eq_iff)
  show ?case
    unfolding f_def [symmetric]
    by (auto simp: IH off bindE_assoc split_beta f_def [symmetric] deref_def e split: option.splits intro!: bindE_cong)
qed simp

text \<open>Linking the versions does not look at their blocks.\<close>

lemma relink_alloc:
  assumes "\<And>s. vs_version (f s) = vs_version s" "\<And>s p. f (s\<lparr>based := p\<rparr>) = (f s)\<lparr>based := p\<rparr>"
  shows "relink prev seen ss (each_of f cs hp) = bindE (relink prev seen ss hp) (\<lambda>hp1. Inr (each_of f cs hp1))"
proof (induction ss arbitrary: prev seen hp)
  case (Cons c ss)
  have v: "deref d (each_of f cs hp) = bindE (deref d hp) (\<lambda>s. Inr (if d \<in> set cs then f s else s))" for d hp
    by (simp add: deref_def each_of_def split: option.splits)
  have sw: "on_store (\<lambda>s. s\<lparr>based := prev\<rparr>) c (each_of f cs hp) = each_of f cs (on_store (\<lambda>s. s\<lparr>based := prev\<rparr>) c hp)"
    using assms(2) by (auto simp: on_store_def each_of_def fun_eq_iff option.map_comp comp_def)
  show ?case
    using assms(1)
    by (auto simp: v sw Cons bindE_assoc Let_def split: option.splits intro!: bindE_cong)
qed simp

lemma merge_down_recovering:
  assumes inv: "mvcc_inv m" and js: "\<not> journal_synching m" and m1: "merge_down h m = Inr m1"
  shows "merge_down h (m\<lparr>recovery := True\<rparr>) =
    Inr (m1\<lparr>heap := each_of (\<lambda>s. vs_commit h (vs_begin_new s)) (storages m1) (heap m1), recovery := True\<rparr>)"
proof -
  define f where "f = (\<lambda>s. vs_commit h (vs_begin_new s))"
  have f: "vs_version (f s) = vs_version s" "f (s\<lparr>based := p\<rparr>) = (f s)\<lparr>based := p\<rparr>" for s p
    by (simp_all add: f_def vs_commit_def vs_begin_new_def with_allocator_def)
  have ne: "storages m \<noteq> []" "distinct (storages m)" and r: "\<not> recovery m"
    using mvcc_invD(1,2) [OF inv] inv by (simp_all add: mvcc_inv_def txns_inv_def)
  obtain hp1 hp2 where 1: "clear_all_merged 0 (storages m) (heap m) = Inr hp1" "merge_idle h [] (rev (storages m)) hp1 = Inr hp2"
    using m1 js ne by (auto simp: merge_down_def lift_result_def bindE_def split: sum.splits)
  obtain ss hp3 sv hp4 where 2: "drop_merged h False (storages m) (hp2, storage_versions m) = Inr (ss, hp3, sv)"
    "relink None [] ss hp3 = Inr hp4" "ss \<noteq> []" "m1 = m\<lparr>storages := ss, heap := hp4, storage_versions := sv\<rparr>"
    using m1 js ne 1 r by (auto simp: merge_down_def lift_result_def bindE_def split: sum.splits if_splits)
  have "drop_merged h True (storages m) (hp2, storage_versions m) = Inr (ss, each_of f ss hp3, sv)"
    using drop_merged_recovering [OF ne(2), of h hp2 "storage_versions m"] 2(1) by (simp add: f_def)
  moreover have "relink None [] ss (each_of f ss hp3) = Inr (each_of f ss hp4)" using relink_alloc [OF f] 2(2) by simp
  ultimately show ?thesis using 1 2(3,4) js ne by (simp add: merge_down_def lift_result_def f_def)
qed

section \<open>The end of a recovery\<close>

text \<open>A coordinator whose blocks are in its file.\<close>

definition on_file :: "mvcc \<Rightarrow> bool" where
  "on_file m \<longleftrightarrow> (\<exists>c a. storages m = [c] \<and> alloc_of (heap m) c = Some a \<and> view (new_allocator False (file_rows a)) = committed (db m))"

lemma commit_new_maintains: "maintains (\<lambda>a. commit h (begin_new a))"
  by (rule maintains_quiet) (metis quiet_begin(2) quiet_commit quiet_trans quiet_usable)

lemma idle_single:
  assumes inv: "mvcc_inv m" and "actives m = []" "\<forall>c \<in> set (butlast (storages m)). 0 < readers (the (heap m c))"
  obtains c where "storages m = [c]"
proof -
  have "readers (the (heap m c)) = 0" if "c \<in> set (storages m)" for c using readers_eq [OF inv that] assms(2) by simp
  then have "butlast (storages m) = []" using assms(3) by (metis in_set_butlastD less_irrefl list.set_intros(1) neq_Nil_conv)
  then show ?thesis using that mvcc_invD(1) [OF inv] by (metis append_butlast_last_id append_Nil)
qed

lemma recovering_commit_ok:
  assumes inv: "mvcc_inv m" and t: "actives m = [t]" "\<not> read_only (the (heap m t))" and js: "\<not> journal_synching m"
  shows "\<exists>m'. mvcc_commit h t (m\<lparr>recovery := True\<rparr>) = Inr ([], m'\<lparr>recovery := True\<rparr>) \<and> mvcc_inv m' \<and> on_file m' \<and>
    db m' = \<lparr>committed = committed (db m) ++ own (txn_of m t), txns = Map.empty\<rparr>"
proof -
  have ta: "t \<in> set (actives m)" by (simp add: t(1))
  define k where "k = committed_by t m"
  have "mvcc_commit h t (m\<lparr>recovery := True\<rparr>) =
      bindE (merge_down h ((committed_by t (m\<lparr>heap := heap m\<rparr>))\<lparr>recovery := True\<rparr>)) (\<lambda>m'. Inr ([], m'))"
    "mvcc_inv (committed_by t (m\<lparr>heap := heap m\<rparr>))" "actives (committed_by t (m\<lparr>heap := heap m\<rparr>)) = filter (\<lambda>u. u \<noteq> t) (actives m)"
    "db (committed_by t (m\<lparr>heap := heap m\<rparr>)) = \<lparr>committed = committed (db m) ++ own (txn_of m t), txns = (txns (db m))(t := None)\<rparr>"
    "journal_synching (committed_by t (m\<lparr>heap := heap m\<rparr>)) = journal_synching m"
    by (intro commit_reaches [OF inv ta t(2), of True]; simp)+
  then have k: "mvcc_commit h t (m\<lparr>recovery := True\<rparr>) = bindE (merge_down h (k\<lparr>recovery := True\<rparr>)) (\<lambda>m'. Inr ([], m'))"
    "mvcc_inv k" "actives k = []" "db k = \<lparr>committed = committed (db m) ++ own (txn_of m t), txns = (txns (db m))(t := None)\<rparr>"
    "\<not> journal_synching k" using t(1) js by (simp_all add: k_def)
  have e: "(txns (db m))(t := None) = Map.empty" using t(1) by (auto simp: db_def)
  obtain m1 where m1: "merge_down h k = Inr m1" "mvcc_inv m1" "db m1 = db k" "actives m1 = []"
    "\<forall>c \<in> set (butlast (storages m1)). 0 < readers (the (heap m1 c))"
    using merge_down_ok [OF k(2), of h] k(3,5) by auto
  obtain c where c: "storages m1 = [c]" by (rule idle_single [OF m1(2,4,5)])
  define g where "g = (\<lambda>a. commit h (begin_new a))"
  have f: "(\<lambda>s. vs_commit h (vs_begin_new s)) = with_allocator g"
    by (simp add: vs_commit_def vs_begin_new_def with_allocator_comp g_def comp_def)
  have u: "usable_at (heap m1) c" using mvcc_invD(5) [OF m1(2), of c] c by (simp add: store_ok_def)
  then obtain a where a: "alloc_of (heap m1) c = Some a" "usable a" by (auto simp: usable_at_def)
  obtain hp where hp: "each_storage (with_allocator g) (storages m1) (heap m1) = Inr hp" "mvcc_inv (m1\<lparr>heap := hp\<rparr>)"
    "db (m1\<lparr>heap := hp\<rparr>) = db m1" "\<forall>c \<in> set (storages m1). alloc_of hp c = map_option g (alloc_of (heap m1) c)"
    using maintain_ok [OF m1(2) commit_new_maintains [of h, folded g_def]] by blast
  have "each_storage (with_allocator g) (storages m1) (heap m1) = Inr (each_of (with_allocator g) (storages m1) (heap m1))"
    unfolding each_of_def by (rule each_storage_ok) (use a c in simp_all)
  then have he: "each_of (with_allocator g) (storages m1) (heap m1) = hp" using hp(1) by simp
  have "merge_down h (k\<lparr>recovery := True\<rparr>) = Inr (m1\<lparr>heap := hp, recovery := True\<rparr>)"
    using merge_down_recovering [OF k(2,5) m1(1)] unfolding f he by simp
  moreover have "view (new_allocator False (file_rows (g a))) = view a"
  proof -
    have "usable (begin_new a)" "view (begin_new a) = view a" using quiet_begin(2) [OF a(2)] a(2) by (simp_all add: quiet_def)
    moreover have "transacted (begin_new a)" using a(2) by (simp add: begin_new_def begin_transaction_ok(6) usable_def)
    ultimately show ?thesis using commit_reopens(1) [of "begin_new a" h] by (simp add: g_def)
  qed
  moreover have "view a = committed (db m1)" using a(1) c by (simp add: db_def vview_def)
  ultimately have "on_file (m1\<lparr>heap := hp\<rparr>)" using hp(3,4) a(1) c by (auto simp: on_file_def)
  then show ?thesis
    using k(1) \<open>merge_down h (k\<lparr>recovery := True\<rparr>) = Inr (m1\<lparr>heap := hp, recovery := True\<rparr>)\<close> hp(2,3) m1(3) k(4) e
    by (intro exI [of _ "m1\<lparr>heap := hp\<rparr>"]) simp
qed

text \<open>Giving the transaction of a recovery up.\<close>

lemma discard_recovering:
  "mvcc_discard t m = Inr m' \<Longrightarrow> mvcc_discard t (m\<lparr>recovery := b\<rparr>) = Inr (m'\<lparr>recovery := b\<rparr>)"
  by (auto simp: mvcc_discard_def Let_def lift_result_def throw_def lookup_version_def bindE_def
      split: if_splits option.splits sum.splits)

end
