(* ===== verification/JournalLog.thy ===== *)
theory JournalLog
  imports Journal
begin

text \<open>
  The bytes of a journal as a list of entries: writing appends an entry, reading gives it back, and what is
  left of an entry that was cut off is read as a command that ends the stream.
\<close>

section \<open>One entry\<close>

definition record_bytes :: "u64 \<Rightarrow> u32 \<Rightarrow> store_name \<Rightarrow> address \<Rightarrow> buffer \<Rightarrow> buffer" where
  "record_bytes s c nm w b =
     entry_bytes \<lparr>le_sequence = s, le_command = ucast c, le_name_size = of_nat (length nm), le_address = of_nat w,
       le_buffer_size = of_nat (length b)\<rparr> @ nm @ b"

definition fits :: "store_name \<Rightarrow> address \<Rightarrow> buffer \<Rightarrow> bool" where
  "fits nm w b \<longleftrightarrow> length nm < 2 ^ 64 \<and> w < 2 ^ 64 \<and> length b < 2 ^ 64"

lemma read_raw_append: "length xs = n \<Longrightarrow> read_raw n (xs @ ys, True) = (xs, ys, True)"
  by (simp add: read_raw_def)

lemma read_raw_bad [simp]: "read_raw n (xs, False) = ([], xs, False)"
  by (simp add: read_raw_def)

lemma unat_size: "n < 2 ^ 64 \<Longrightarrow> unat (of_nat n :: u64) = n"
  by (simp add: unat_of_nat take_bit_nat_eq_self)

lemma size_zero: "n < 2 ^ 64 \<Longrightarrow> (of_nat n :: u64) = 0 \<longleftrightarrow> n = 0"
  using unat_size [of n] by auto

lemma pad_exact [simp]: "pad (length bs) bs = bs" "pad 0 bs = bs"
  by (simp_all add: pad_def)

lemma load_record:
  assumes "fits nm w b"
  shows "load_command (record_bytes s c nm w b @ rest, True) =
    (\<lparr>cmd_sequence = s, cmd_command = c, cmd_name = nm, cmd_address = w, cmd_buffer = b\<rparr>, rest, True)"
proof -
  define e where "e = \<lparr>le_sequence = s, le_command = ucast c, le_name_size = of_nat (length nm), le_address = of_nat w,
    le_buffer_size = of_nat (length b) :: u64\<rparr>"
  have "read_raw entry_size (record_bytes s c nm w b @ rest, True) = (entry_bytes e, nm @ b @ rest, True)"
    unfolding record_bytes_def e_def append_assoc by (rule read_raw_append) simp
  moreover have "read_raw (length nm) (nm @ b @ rest, True) = (nm, b @ rest, True)"
    "read_raw (length b) (b @ rest, True) = (b, rest, True)" by (simp_all add: read_raw_append)
  moreover have "(ucast (ucast c :: u64) :: u32) = c" by (rule bit_word_eqI) (auto simp: bit_simps)
  ultimately show ?thesis
    using assms size_zero [of "length b"] unat_size
    by (simp add: load_command_def e_def fits_def)
qed

text \<open>What is read of an entry that was cut off after \<open>k\<close> bytes.\<close>

lemma load_torn:
  assumes "fits nm w b" and k: "k < length (record_bytes s c nm w b)"
  shows "\<exists>cmd r. load_command (take k (record_bytes s c nm w b), True) = (cmd, r, False) \<and>
    cmd_sequence cmd = take_bit (8 * min k 8) s \<and> cmd_command cmd = ucast (take_bit (8 * min (k - 8) 8) (ucast c :: u64))"
proof -
  define e where "e = \<lparr>le_sequence = s, le_command = ucast c, le_name_size = of_nat (length nm), le_address = of_nat w,
    le_buffer_size = of_nat (length b) :: u64\<rparr>"
  have rb: "record_bytes s c nm w b = entry_bytes e @ nm @ b" by (simp add: record_bytes_def e_def)
  show ?thesis
  proof (cases "k < entry_size")
    case True
    then have "read_raw entry_size (take k (record_bytes s c nm w b), True) = (take k (entry_bytes e), [], False)"
      by (simp add: read_raw_def rb)
    then show ?thesis by (simp add: load_command_def Let_def entry_of_bytes) (simp add: e_def)
  next
    case False
    then have k40: "entry_size \<le> k" by simp
    define i where "i = k - entry_size"
    have 1: "read_raw entry_size (take k (record_bytes s c nm w b), True) = (entry_bytes e, take i (nm @ b), True)"
      using k40 by (simp add: read_raw_def rb i_def)
    have i: "i < length nm + length b" using k k40 by (simp add: rb i_def)
    have full: "take_bit (8 * min k 8) s = s" "take_bit (8 * min (k - 8) 8) (ucast c :: u64) = ucast c"
      using k40 by (simp_all add: entry_size_def take_bit_word_eq_self)
    have u: "unat (le_name_size e) = length nm" "unat (le_buffer_size e) = length b" "le_buffer_size e = 0 \<longleftrightarrow> b = []"
      using assms(1) size_zero [of "length b"] unat_size by (simp_all add: e_def fits_def)
    show ?thesis
    proof (cases "i < length nm")
      case True
      then have "read_raw (length nm) (take i (nm @ b), True) = (take i nm, [], False)" by (simp add: read_raw_def)
      then show ?thesis unfolding full using 1 u by (simp add: load_command_def e_def)
    next
      case False
      then have 2: "read_raw (length nm) (take i (nm @ b), True) = (nm, take (i - length nm) b, True)" by (simp add: read_raw_def)
      have "b \<noteq> []" using i False by auto
      moreover have "read_raw (length b) (take (i - length nm) b, True) = (take (i - length nm) b, [], False)"
        using i False by (simp add: read_raw_def)
      ultimately show ?thesis unfolding full using 1 2 u by (simp add: load_command_def e_def)
    qed
  qed
qed

section \<open>The journal as a list of entries\<close>

datatype journal_entry = Page store_name address buffer | Commit_mark

fun parts :: "journal_entry \<Rightarrow> u32 \<times> store_name \<times> address \<times> buffer" where
  "parts (Page nm w b) = (JOURNAL_PAGE, nm, w, b)"
| "parts Commit_mark = (JOURNAL_COMMIT, commit_name, 0, [])"

definition bytes_of :: "nat \<Rightarrow> journal_entry \<Rightarrow> buffer" where
  "bytes_of n e = (case parts e of (c, nm, w, b) \<Rightarrow> record_bytes (of_nat n) c nm w b)"

definition entry_ok :: "journal_entry \<Rightarrow> bool" where
  "entry_ok e \<longleftrightarrow> (case parts e of (c, nm, w, b) \<Rightarrow> fits nm w b)"

text \<open>Entries are numbered from the one behind \<open>n\<close>.\<close>

primrec log_bytes :: "nat \<Rightarrow> journal_entry list \<Rightarrow> buffer" where
  "log_bytes n [] = []"
| "log_bytes n (e # es) = bytes_of (Suc n) e @ log_bytes (Suc n) es"

lemma log_bytes_append: "log_bytes n (xs @ ys) = log_bytes n xs @ log_bytes (n + length xs) ys"
  by (induction xs arbitrary: n) simp_all

lemma bytes_of_positive: "entry_size \<le> length (bytes_of n e)"
  by (cases e) (simp_all add: bytes_of_def record_bytes_def)

definition written :: "journal_state \<Rightarrow> buffer" where
  "written j = journal_file j @ journal_ostr j @ journal_buffer j"

text \<open>Writing an entry numbers it and appends its bytes.\<close>

definition add_entry :: "journal_entry \<Rightarrow> journal_state \<Rightarrow> journal_state" where
  "add_entry e j = (case parts e of (c, nm, w, b) \<Rightarrow> journal_add_entry c nm w b j)"

lemma written_add_entry:
  assumes "sequence j = of_nat n"
  shows "written (add_entry e j) = written j @ bytes_of (Suc n) e" "sequence (add_entry e j) = of_nat (Suc n)"
    "last_synch (add_entry e j) = last_synch j" "participants (add_entry e j) = participants j"
proof -
  obtain c nm w b where p: "parts e = (c, nm, w, b)" by (metis prod_cases4)
  show "written (add_entry e j) = written j @ bytes_of (Suc n) e"
    using assms by (simp add: add_entry_def journal_add_entry_def p written_def write_raw_def bytes_of_def record_bytes_def Let_def add.commute)
  show "sequence (add_entry e j) = of_nat (Suc n)" "last_synch (add_entry e j) = last_synch j"
    "participants (add_entry e j) = participants j"
    using assms by (simp_all add: add_entry_def journal_add_entry_def p write_raw_def Let_def)
qed

lemma written_fold:
  "sequence j = of_nat n \<Longrightarrow>
   written (fold add_entry es j) = written j @ log_bytes n es \<and> sequence (fold add_entry es j) = of_nat (n + length es) \<and>
   last_synch (fold add_entry es j) = last_synch j \<and> participants (fold add_entry es j) = participants j"
proof (induction es arbitrary: j n)
  case (Cons e es)
  show ?case using Cons.IH [OF written_add_entry(2) [OF Cons.prems]] written_add_entry [OF Cons.prems] by simp
qed simp

lemma written_mark_commit:
  assumes "sequence j = of_nat n" "last_synch j \<noteq> sequence j"
  shows "journal_file (mark_commit j) = written j @ bytes_of (Suc n) Commit_mark" "sequence (mark_commit j) = of_nat (Suc n)"
    "journal_ostr (mark_commit j) = []" "journal_buffer (mark_commit j) = []" "last_synch (mark_commit j) = last_synch j"
    "participants (mark_commit j) = participants j"
proof -
  define k where "k = journal_add_entry JOURNAL_COMMIT commit_name 0 [] j"
  have "k = add_entry Commit_mark j" by (simp add: k_def add_entry_def)
  then have k: "written k = written j @ bytes_of (Suc n) Commit_mark" "sequence k = of_nat (Suc n)" "last_synch k = last_synch j"
    "participants k = participants j"
    using written_add_entry [OF assms(1)] by simp_all
  have "mark_commit j = flush_stream (flush_buffer k)" using assms(2) by (simp add: mark_commit_def k_def)
  then show "journal_file (mark_commit j) = written j @ bytes_of (Suc n) Commit_mark" "sequence (mark_commit j) = of_nat (Suc n)"
    "journal_ostr (mark_commit j) = []" "journal_buffer (mark_commit j) = []" "last_synch (mark_commit j) = last_synch j"
    "participants (mark_commit j) = participants j"
    unfolding k(1) [symmetric] using k(2,3,4) by (simp_all add: flush_stream_def flush_buffer_def write_raw_def written_def)
qed

section \<open>A journal that was cut off\<close>

text \<open>
  Cutting a journal leaves some entries and a part of the next.
\<close>

lemma cut_log:
  assumes "k \<le> length (log_bytes n es)"
  obtains xs e ys i where "es = xs @ e # ys" "take k (log_bytes n es) = log_bytes n xs @ take i (bytes_of (Suc (n + length xs)) e)"
    "i < length (bytes_of (Suc (n + length xs)) e)"
  | "take k (log_bytes n es) = log_bytes n es"
  using assms
proof (induction es arbitrary: n k thesis)
  case Nil
  then show ?case by simp
next
  case (Cons e es)
  define l where "l = length (bytes_of (Suc n) e)"
  show ?case
  proof (cases "k < l")
    case True
    then show ?thesis using Cons.prems(1) [of "[]" e es k] by (simp add: l_def)
  next
    case False
    have k: "k - l \<le> length (log_bytes (Suc n) es)" using Cons.prems(3) False by (simp add: l_def)
    have t: "take k (log_bytes n (e # es)) = bytes_of (Suc n) e @ take (k - l) (log_bytes (Suc n) es)" using False by (simp add: l_def)
    show ?thesis
    proof (rule Cons.IH [OF _ _ k])
      fix xs f ys i
      assume "es = xs @ f # ys" "take (k - l) (log_bytes (Suc n) es) = log_bytes (Suc n) xs @ take i (bytes_of (Suc (Suc n + length xs)) f)"
        "i < length (bytes_of (Suc (Suc n + length xs)) f)"
      then show thesis using Cons.prems(1) [of "e # xs" f ys i] unfolding t by simp
    next
      assume "take (k - l) (log_bytes (Suc n) es) = log_bytes (Suc n) es"
      then show thesis using Cons.prems(2) unfolding t by simp
    qed
  qed
qed

end
