(* ===== verification/Recovery.thy ===== *)
theory Recovery
  imports MvccRecover JournalLog
begin

text \<open>
  Recovery replays a journal: every storage shows the blocks of its file overlaid with the pages written
  before the last commit mark, and has them in its file.
\<close>

section \<open>What a journal says\<close>

text \<open>The pages that a commit mark follows, and those that wait for one.\<close>

fun replayed :: "journal_entry list \<times> journal_entry list \<Rightarrow> journal_entry list \<Rightarrow> journal_entry list \<times> journal_entry list" where
  "replayed p [] = p"
| "replayed (ds, ps) (Page nm w b # es) = replayed (ds, ps @ [Page nm w b]) es"
| "replayed (ds, ps) (Commit_mark # es) = replayed (ds @ ps, []) es"

definition committed_pages :: "journal_entry list \<Rightarrow> journal_entry list" where
  "committed_pages es = fst (replayed ([], []) es)"

fun page_of :: "store_name \<Rightarrow> journal_entry \<Rightarrow> (address \<times> buffer) list" where
  "page_of nm (Page n w b) = (if n = nm then [(w, b)] else [])"
| "page_of nm Commit_mark = []"

text \<open>The last page of an address counts.\<close>

definition blocks_of :: "store_name \<Rightarrow> journal_entry list \<Rightarrow> address \<rightharpoonup> buffer" where
  "blocks_of nm es = map_of (rev (concat (map (page_of nm) es)))"

definition names_of :: "journal_entry list \<Rightarrow> store_name set" where
  "names_of es = {nm. \<exists>w b. Page nm w b \<in> set es}"

fun page_ok :: "journal_entry \<Rightarrow> bool" where
  "page_ok (Page nm w b) = (fits nm w b \<and> w \<noteq> 0)"
| "page_ok Commit_mark = True"

lemma replayed_append: "replayed p (xs @ ys) = replayed (replayed p xs) ys"
  by (induction p xs rule: replayed.induct) simp_all

lemma replayed_pages:
  "Commit_mark \<notin> set (fst p) \<union> set (snd p) \<Longrightarrow> Commit_mark \<notin> set (fst (replayed p es)) \<union> set (snd (replayed p es))"
  by (induction p es rule: replayed.induct) auto

lemma blocks_of_snoc [simp]:
  "blocks_of nm (es @ [Page nm' w b]) = (if nm = nm' then (blocks_of nm es)(w \<mapsto> b) else blocks_of nm es)"
  by (simp add: blocks_of_def)

lemma blocks_of_Nil [simp]: "blocks_of nm [] = Map.empty"
  by (simp add: blocks_of_def)

lemma names_of_snoc [simp]: "names_of (es @ [Page nm w b]) = insert nm (names_of es)" "names_of [] = {}"
  by (auto simp: names_of_def)

lemma blocks_of_names: "nm \<notin> names_of es \<Longrightarrow> blocks_of nm es = Map.empty"
proof (induction es rule: rev_induct)
  case (snoc e es)
  then show ?case by (cases e) (auto simp: names_of_def blocks_of_def)
qed simp

section \<open>The state of a recovery\<close>

definition disk_view :: "surroundings \<Rightarrow> store_name \<Rightarrow> address \<rightharpoonup> buffer" where
  "disk_view env nm = view (new_allocator False (disk env nm))"

definition sound_disk :: "surroundings \<Rightarrow> store_name \<Rightarrow> bool" where
  "sound_disk env nm \<longleftrightarrow> usable (new_allocator False (disk env nm)) \<and> 0 < first_version env nm \<and>
     fresh_version (begin_version env nm) (new_storage env nm)"

definition recovering :: "surroundings \<Rightarrow> journal_entry list \<Rightarrow> store_name \<Rightarrow> mvcc \<Rightarrow> store_id option \<Rightarrow> bool" where
  "recovering env ds nm m t \<longleftrightarrow> mvcc_inv m \<and> \<not> journal_synching m \<and>
     (if valid_directory env nm then
        \<exists>i. t = Some i \<and> actives m = [i] \<and> \<not> read_only (the (heap m i)) \<and> committed (db m) = disk_view env nm \<and>
          own (txn_of m i) = blocks_of nm ds
      else t = None \<and> actives m = [] \<and> db m = \<lparr>committed = disk_view env nm, txns = Map.empty\<rparr>)"

definition recovery_inv :: "surroundings \<Rightarrow> journal_entry list \<Rightarrow> recovery_state \<Rightarrow> bool" where
  "recovery_inv env ds st \<longleftrightarrow> distinct (map fst (pending st)) \<and>
     (\<forall>nm. if nm \<in> names_of ds
        then \<exists>m t. map_of (instances st) nm = Some (m\<lparr>recovery := True\<rparr>) \<and> map_of (pending st) nm = Some t \<and> recovering env ds nm m t
        else map_of (instances st) nm = None \<and> map_of (pending st) nm = None)"

lemma recovery_invD:
  assumes "recovery_inv env ds st"
  shows "nm \<in> names_of ds \<Longrightarrow> \<exists>m t. map_of (instances st) nm = Some (m\<lparr>recovery := True\<rparr>) \<and> map_of (pending st) nm = Some t \<and>
      recovering env ds nm m t"
    "nm \<notin> names_of ds \<Longrightarrow> map_of (instances st) nm = None \<and> map_of (pending st) nm = None"
    "distinct (map fst (pending st))"
proof -
  have i: "if nm \<in> names_of ds
        then \<exists>m t. map_of (instances st) nm = Some (m\<lparr>recovery := True\<rparr>) \<and> map_of (pending st) nm = Some t \<and> recovering env ds nm m t
        else map_of (instances st) nm = None \<and> map_of (pending st) nm = None"
    using assms unfolding recovery_inv_def by blast
  show "\<exists>m t. map_of (instances st) nm = Some (m\<lparr>recovery := True\<rparr>) \<and> map_of (pending st) nm = Some t \<and>
      recovering env ds nm m t" if "nm \<in> names_of ds" using i unfolding if_P [OF that] .
  show "map_of (instances st) nm = None \<and> map_of (pending st) nm = None" if "nm \<notin> names_of ds"
    using i unfolding if_not_P [OF that] .
  show "distinct (map fst (pending st))" using assms by (simp add: recovery_inv_def)
qed

lemma new_storage_ok:
  assumes "sound_disk env nm"
  shows "mvcc_inv (new_storage env nm)" "db (new_storage env nm) = \<lparr>committed = disk_view env nm, txns = Map.empty\<rparr>"
    "actives (new_storage env nm) = []" "\<not> journal_synching (new_storage env nm)"
    "fresh_version (begin_version env nm) (new_storage env nm)" "writing_transactions (new_storage env nm) = 0"
  using assms new_mvcc_ok [of "new_allocator False (disk env nm)" "first_version env nm"]
  by (simp_all add: sound_disk_def new_storage_def disk_view_def) (simp_all add: new_mvcc_def)

lemma begin_synching: "mvcc_begin w v m = Inr (t, m') \<Longrightarrow> journal_synching m' = journal_synching m"
  by (auto simp: mvcc_begin_def Let_def lift_result_def throw_def bindE_def split: if_splits option.splits sum.splits)

lemma idle_active: "mvcc_inv m \<Longrightarrow> active_transactions m = of_nat (length (actives m))"
  by (simp add: mvcc_inv_def txns_inv_def)

text \<open>The first page of a storage begins its transaction.\<close>

lemma first_page_ok:
  assumes d: "sound_disk env nm" and w: "w \<noteq> 0" and st: "map_of (instances st) nm = None" "map_of (pending st) nm = None"
    and c: "cmd_name c = nm" "cmd_address c = w" "cmd_buffer c = b" and nb: "blocks_of nm ds = Map.empty"
  shows "\<exists>m t. replay_command h env c st = Inr (put_storage nm (m\<lparr>recovery := True\<rparr>) (st\<lparr>pending := AList.update nm t (pending st)\<rparr>)) \<and>
    recovering env (ds @ [Page nm w b]) nm m t"
proof -
  define m where "m = new_storage env nm"
  note m = new_storage_ok [OF d, folded m_def]
  have g: "get_storage env nm (instances st) = m" using st(1) by (simp add: get_storage_def m_def)
  have p: "pending_transaction nm st = None" using st(2) by (simp add: pending_transaction_def)
  show ?thesis
  proof (cases "valid_directory env nm")
    case False
    have "active_transactions m = 0" using idle_active [OF m(1)] m(3) by simp
    then have "replay_command h env c st =
        Inr (put_storage nm (m\<lparr>recovery := True\<rparr>) (st\<lparr>pending := AList.update nm None (pending st)\<rparr>))"
      using False by (simp add: replay_command_def begin_recovery_def g p c Let_def)
    moreover have "recovering env (ds @ [Page nm w b]) nm m None" using m False by (simp add: recovering_def)
    ultimately show ?thesis by blast
  next
    case True
    obtain t m1 where 1: "mvcc_begin True (begin_version env nm) m = Inr (t, m1)" "mvcc_inv m1" "actives m1 = [t]"
      "db m1 = \<lparr>committed = disk_view env nm, txns = [t \<mapsto> \<lparr>snap = disk_view env nm, own = Map.empty, writing = True\<rparr>]\<rparr>"
      using begin_ok [OF m(1,5), of True] m(2,3,6) by auto
    have t1: "t \<in> set (actives m1)" by (simp add: 1(3))
    have "txn_of m1 t = \<lparr>snap = disk_view env nm, own = Map.empty, writing = True\<rparr>" using db_txn(1) [OF t1] 1(4) by simp
    then have tx: "own (txn_of m1 t) = Map.empty" "writing (txn_of m1 t)" by simp_all
    then have ro: "\<not> read_only (the (heap m1 t))" by (simp add: txn_of_def)
    obtain hp where hp: "replay_page h t w b (m1\<lparr>recovery := True\<rparr>) = Inr (m1\<lparr>heap := hp, recovery := True\<rparr>)"
      "mvcc_inv (m1\<lparr>heap := hp\<rparr>)" "db (m1\<lparr>heap := hp\<rparr>) = write_own t w b (db m1)"
      using replay_page_ok [OF 1(2) t1 ro w] by blast
    define m2 where "m2 = m1\<lparr>heap := hp\<rparr>"
    have a2: "actives m2 = [t]" by (simp add: m2_def 1(3))
    then have t2: "t \<in> set (actives m2)" by simp
    have tx2: "txn_of m2 t = \<lparr>snap = disk_view env nm, own = [w \<mapsto> b], writing = True\<rparr>"
      using db_txn(1) [OF t2] hp(3) 1(4) by (simp add: m2_def write_own_def)
    have r: "recovering env (ds @ [Page nm w b]) nm m2 (Some t)"
    proof -
      have "\<not> read_only (the (heap m2 t))" using tx2 by (simp add: txn_of_def)
      moreover have "\<not> journal_synching m2" using begin_synching [OF 1(1)] m(4) by (simp add: m2_def)
      moreover have "committed (db m2) = disk_view env nm" using hp(3) 1(4) by (simp add: m2_def write_own_def)
      ultimately show ?thesis using hp(2) True a2 tx2 nb by (simp add: recovering_def m2_def [symmetric])
    qed
    have "active_transactions m1 \<noteq> 0" using idle_active [OF 1(2)] by (simp add: 1(3))
    then have "replay_command h env c st =
        Inr (put_storage nm (m2\<lparr>recovery := True\<rparr>) (st\<lparr>pending := AList.update nm (Some t) (pending st)\<rparr>))"
      using True begin_recovering [OF 1(1), of True] hp(1)
      by (simp add: replay_command_def begin_recovery_def g p c Let_def escape_def m2_def)
    then show ?thesis using r by blast
  qed
qed

text \<open>Every other page is written in it.\<close>

lemma next_page_ok:
  assumes w: "w \<noteq> 0" and st: "map_of (instances st) nm = Some (m\<lparr>recovery := True\<rparr>)" "map_of (pending st) nm = Some t"
    and r: "recovering env ds nm m t" and c: "cmd_name c = nm" "cmd_address c = w" "cmd_buffer c = b"
  shows "\<exists>m' t'. replay_command h env c st = Inr (put_storage nm (m'\<lparr>recovery := True\<rparr>) (st\<lparr>pending := AList.update nm t' (pending st)\<rparr>)) \<and>
    recovering env (ds @ [Page nm w b]) nm m' t'"
proof -
  have g: "get_storage env nm (instances st) = m\<lparr>recovery := True\<rparr>" using st(1) by (simp add: get_storage_def)
  have p: "pending_transaction nm st = t" using st(2) by (simp add: pending_transaction_def)
  have inv: "mvcc_inv m" using r by (simp add: recovering_def)
  show ?thesis
  proof (cases "valid_directory env nm")
    case False
    then have "t = None" "actives m = []" using r by (simp_all add: recovering_def)
    moreover from this have "active_transactions m = 0" using idle_active [OF inv] by simp
    ultimately have "replay_command h env c st =
        Inr (put_storage nm (m\<lparr>recovery := True\<rparr>) (st\<lparr>pending := AList.update nm None (pending st)\<rparr>))"
      using False by (simp add: replay_command_def begin_recovery_def g p c Let_def)
    moreover have "recovering env (ds @ [Page nm w b]) nm m None" using r False by (simp add: recovering_def)
    ultimately show ?thesis by blast
  next
    case True
    then obtain i where i: "t = Some i" "actives m = [i]" "\<not> read_only (the (heap m i))" "committed (db m) = disk_view env nm"
      "own (txn_of m i) = blocks_of nm ds" "\<not> journal_synching m" using r by (auto simp: recovering_def)
    have a: "i \<in> set (actives m)" by (simp add: i(2))
    obtain hp where hp: "replay_page h i w b (m\<lparr>recovery := True\<rparr>) = Inr (m\<lparr>heap := hp, recovery := True\<rparr>)"
      "mvcc_inv (m\<lparr>heap := hp\<rparr>)" "db (m\<lparr>heap := hp\<rparr>) = write_own i w b (db m)"
      using replay_page_ok [OF inv a i(3) w] by blast
    define m2 where "m2 = m\<lparr>heap := hp\<rparr>"
    have a2: "actives m2 = [i]" by (simp add: m2_def i(2))
    then have t2: "i \<in> set (actives m2)" by simp
    have "txns (db m2) i = Some ((txn_of m i)\<lparr>own := (own (txn_of m i))(w \<mapsto> b)\<rparr>)"
      using hp(3) db_txn(1) [OF a] by (simp add: m2_def write_own_def)
    then have tx2: "txn_of m2 i = (txn_of m i)\<lparr>own := (blocks_of nm ds)(w \<mapsto> b)\<rparr>" using db_txn(1) [OF t2] i(5) by simp
    have "writing (txn_of m i)" using i(3) by (simp add: txn_of_def)
    then have ro: "\<not> read_only (the (heap m2 i))" using arg_cong [OF tx2, of writing] by (simp add: txn_of_def)
    moreover have "committed (db m2) = disk_view env nm" using hp(3) i(4) by (simp add: m2_def write_own_def)
    ultimately have r2: "recovering env (ds @ [Page nm w b]) nm m2 (Some i)"
      using hp(2) True a2 tx2 i(6) by (simp add: recovering_def m2_def)
    have "active_transactions m \<noteq> 0" using idle_active [OF inv] by (simp add: i(2))
    then have "replay_command h env c st =
        Inr (put_storage nm (m2\<lparr>recovery := True\<rparr>) (st\<lparr>pending := AList.update nm (Some i) (pending st)\<rparr>))"
      using True hp(1) by (simp add: replay_command_def begin_recovery_def g p c i(1) Let_def m2_def)
    then show ?thesis using r2 by blast
  qed
qed

lemma recovering_other: "nm \<noteq> nm' \<Longrightarrow> recovering env (ds @ [Page nm' w b]) nm m t = recovering env ds nm m t"
  by (simp add: recovering_def)

lemma replay_command_ok:
  assumes inv: "recovery_inv env ds st" and e: "page_ok (Page nm w b)" and d: "sound_disk env nm"
    and c: "cmd_name c = nm" "cmd_address c = w" "cmd_buffer c = b"
  shows "\<exists>st'. replay_command h env c st = Inr st' \<and> recovery_inv env (ds @ [Page nm w b]) st'"
proof -
  have w: "w \<noteq> 0" using e by simp
  obtain m t where r: "replay_command h env c st =
      Inr (put_storage nm (m\<lparr>recovery := True\<rparr>) (st\<lparr>pending := AList.update nm t (pending st)\<rparr>))"
    "recovering env (ds @ [Page nm w b]) nm m t"
  proof (cases "nm \<in> names_of ds")
    case True
    then obtain m t where "map_of (instances st) nm = Some (m\<lparr>recovery := True\<rparr>)" "map_of (pending st) nm = Some t"
      "recovering env ds nm m t" using recovery_invD(1) [OF inv] by blast
    from next_page_ok [OF w this c] that show ?thesis by blast
  next
    case False
    then have "map_of (instances st) nm = None" "map_of (pending st) nm = None"
      using recovery_invD(2) [OF inv] by simp_all
    from first_page_ok [OF d w this c blocks_of_names [OF False]] that show ?thesis by blast
  qed
  define st' where "st' = put_storage nm (m\<lparr>recovery := True\<rparr>) (st\<lparr>pending := AList.update nm t (pending st)\<rparr>)"
  have "recovery_inv env (ds @ [Page nm w b]) st'"
    unfolding recovery_inv_def
  proof (intro conjI allI)
    show "distinct (map fst (pending st'))"
      using inv by (simp add: st'_def put_storage_def recovery_inv_def distinct_update)
    fix nm'
    show "if nm' \<in> names_of (ds @ [Page nm w b])
        then \<exists>m t. map_of (instances st') nm' = Some (m\<lparr>recovery := True\<rparr>) \<and> map_of (pending st') nm' = Some t \<and>
          recovering env (ds @ [Page nm w b]) nm' m t
        else map_of (instances st') nm' = None \<and> map_of (pending st') nm' = None"
    proof (cases "nm' = nm")
      case True
      then show ?thesis using r(2) by (auto simp: st'_def put_storage_def AList.update_conv')
    next
      case False
      then show ?thesis
        using recovery_invD(1,2) [OF inv, of nm'] by (simp add: st'_def put_storage_def AList.update_conv' recovering_other)
    qed
  qed
  then show ?thesis using r(1) by (auto simp: st'_def)
qed

end
