(* ===== verification/RecoveryTheorems.thy ===== *)
theory RecoveryTheorems
  imports Recovery
begin

text \<open>The loop of a recovery, its end, and what it leaves of the storages.\<close>

section \<open>The loop over a journal\<close>

definition reads_page :: "command \<Rightarrow> journal_entry \<Rightarrow> bool" where
  "reads_page c e \<longleftrightarrow> e = Page (cmd_name c) (cmd_address c) (cmd_buffer c)"

lemma replay_commands_ok:
  "\<lbrakk>list_all2 reads_page cmds ps; list_all page_ok ps; \<forall>nm \<in> names_of ps. sound_disk env nm; recovery_inv env ds st\<rbrakk> \<Longrightarrow>
   \<exists>st'. foldE (replay_command h env) cmds st = Inr st' \<and> recovery_inv env (ds @ ps) st'"
proof (induction cmds ps arbitrary: ds st rule: list_all2_induct)
  case (Cons c cmds e ps)
  obtain nm w b where e: "e = Page nm w b" "cmd_name c = nm" "cmd_address c = w" "cmd_buffer c = b"
    using Cons.hyps(1) by (auto simp: reads_page_def)
  have "sound_disk env nm" using Cons.prems(2) by (auto simp: names_of_def e(1))
  then obtain st1 where st1: "replay_command h env c st = Inr st1" "recovery_inv env (ds @ [Page nm w b]) st1"
    using replay_command_ok [OF Cons.prems(3), of nm w b c h] Cons.prems(1) e by auto
  have "\<forall>nm \<in> names_of ps. sound_disk env nm" using Cons.prems(2) by (auto simp: names_of_def)
  then obtain st' where "foldE (replay_command h env) cmds st1 = Inr st'" "recovery_inv env ((ds @ [Page nm w b]) @ ps) st'"
    using Cons.IH [OF _ _ st1(2)] Cons.prems(1) by auto
  then show ?case using st1(1) e(1) by simp
qed simp

lemma page_ok_parts: "page_ok e \<Longrightarrow> parts e = (c, nm, w, b) \<Longrightarrow> fits nm w b"
  by (cases e) (auto simp: fits_def commit_name_def)

lemma load_entry:
  assumes "page_ok e" "parts e = (c, nm, w, b)"
  shows "load_command (bytes_of n e @ rest, True) =
    (\<lparr>cmd_sequence = of_nat n, cmd_command = c, cmd_name = nm, cmd_address = w, cmd_buffer = b\<rparr>, rest, True)"
  using load_record [OF page_ok_parts [OF assms]] assms(2) by (simp add: bytes_of_def)

lemma commands [simp]:
  "JOURNAL_COMMIT \<noteq> JOURNAL_PAGE" "JOURNAL_PAGE \<noteq> JOURNAL_COMMIT" "JOURNAL_PAGE \<noteq> JOURNAL_ROLLBACK" "JOURNAL_COMMIT \<noteq> JOURNAL_ROLLBACK"
  by (simp_all add: JOURNAL_PAGE_def JOURNAL_COMMIT_def JOURNAL_ROLLBACK_def)

lemma loop_page:
  assumes "page_ok (Page nm w b)"
  shows "recover_loop h env (of_nat n) cmds (bytes_of (Suc n) (Page nm w b) @ rest, True) st =
    recover_loop h env (of_nat (Suc n)) (cmds @ [\<lparr>cmd_sequence = of_nat (Suc n), cmd_command = JOURNAL_PAGE, cmd_name = nm,
      cmd_address = w, cmd_buffer = b\<rparr>]) (rest, True) st"
  by (subst recover_loop.simps) (simp add: load_entry [OF assms parts.simps(1)] add.commute Let_def)

lemma loop_commit:
  "recover_loop h env (of_nat n) cmds (bytes_of (Suc n) Commit_mark @ rest, True) st =
   bindE (foldE (replay_command h env) cmds st) (\<lambda>st1. recover_loop h env (of_nat (Suc n)) [] (rest, True) st1)"
  by (subst recover_loop.simps) (simp add: load_entry [OF page_ok.simps(2) [THEN iffD2] parts.simps(2)] add.commute Let_def)

lemma names_append: "names_of (xs @ ys) = names_of xs \<union> names_of ys"
  by (auto simp: names_of_def)

lemma names_single [simp]: "names_of [Page nm w b] = {nm}" "names_of [Commit_mark] = {}"
  by (auto simp: names_of_def)

lemma names_Cons: "names_of (e # es) = names_of [e] \<union> names_of es"
  using names_append [of "[e]" es] by simp

lemma loop_entries:
  "\<lbrakk>recovery_inv env ds st; list_all2 reads_page cmds ps; list_all page_ok ps; list_all page_ok es;
    \<forall>nm \<in> names_of ps \<union> names_of es. sound_disk env nm; replayed (ds, ps) es = (ds', ps')\<rbrakk> \<Longrightarrow>
   \<exists>st' cmds'. recover_loop h env (of_nat n) cmds (log_bytes n es @ rest, True) st =
     recover_loop h env (of_nat (n + length es)) cmds' (rest, True) st' \<and> recovery_inv env ds' st' \<and> list_all2 reads_page cmds' ps' \<and>
     list_all page_ok ps' \<and> (\<forall>nm \<in> names_of ps'. sound_disk env nm)"
proof (induction es arbitrary: n ds ps cmds st)
  case Nil
  then show ?case by auto
next
  case (Cons e es)
  show ?case
  proof (cases e)
    case (Page nm w b)
    define c where "c = \<lparr>cmd_sequence = of_nat (Suc n), cmd_command = JOURNAL_PAGE, cmd_name = nm, cmd_address = w, cmd_buffer = b\<rparr>"
    have l: "recover_loop h env (of_nat n) cmds (log_bytes n (e # es) @ rest, True) st =
        recover_loop h env (of_nat (Suc n)) (cmds @ [c]) (log_bytes (Suc n) es @ rest, True) st"
      using loop_page [of nm w b h env n cmds "log_bytes (Suc n) es @ rest" st] Cons.prems(4) by (simp add: Page c_def)
    have "\<exists>st' cmds'. recover_loop h env (of_nat (Suc n)) (cmds @ [c]) (log_bytes (Suc n) es @ rest, True) st =
        recover_loop h env (of_nat (Suc n + length es)) cmds' (rest, True) st' \<and> recovery_inv env ds' st' \<and> list_all2 reads_page cmds' ps' \<and>
        list_all page_ok ps' \<and> (\<forall>nm \<in> names_of ps'. sound_disk env nm)"
    proof (rule Cons.IH [OF Cons.prems(1)])
      show "list_all2 reads_page (cmds @ [c]) (ps @ [Page nm w b])"
        by (rule list_all2_appendI [OF Cons.prems(2)]) (simp add: reads_page_def c_def)
      show "\<forall>nm \<in> names_of (ps @ [Page nm w b]) \<union> names_of es. sound_disk env nm"
        using Cons.prems(5) names_Cons [of e es] by (auto simp: Page)
    qed (use Cons.prems Page in auto)
    then show ?thesis unfolding l by simp
  next
    case Commit_mark
    have "\<forall>nm \<in> names_of ps. sound_disk env nm" using Cons.prems(5) by simp
    then obtain st1 where st1: "foldE (replay_command h env) cmds st = Inr st1" "recovery_inv env (ds @ ps) st1"
      using replay_commands_ok [OF Cons.prems(2,3) _ Cons.prems(1)] by blast
    have l: "recover_loop h env (of_nat n) cmds (log_bytes n (e # es) @ rest, True) st =
        recover_loop h env (of_nat (Suc n)) [] (log_bytes (Suc n) es @ rest, True) st1"
      using loop_commit [of h env n cmds "log_bytes (Suc n) es @ rest" st] st1(1) by (simp add: Commit_mark)
    have "\<exists>st' cmds'. recover_loop h env (of_nat (Suc n)) [] (log_bytes (Suc n) es @ rest, True) st1 =
        recover_loop h env (of_nat (Suc n + length es)) cmds' (rest, True) st' \<and> recovery_inv env ds' st' \<and> list_all2 reads_page cmds' ps' \<and>
        list_all page_ok ps' \<and> (\<forall>nm \<in> names_of ps'. sound_disk env nm)"
      by (rule Cons.IH [OF st1(2)]) (use Cons.prems Commit_mark names_Cons [of e es] in auto)
    then show ?thesis unfolding l by simp
  qed
qed

lemma loop_bad: "recover_loop h env seq cmds (r, False) = (\<lambda>st. Inr (False, st))"
  by (rule ext, subst recover_loop.simps) simp

text \<open>The number of an entry that was cut off, when it is neither zero nor the one expected.\<close>

definition torn_number :: "nat \<Rightarrow> nat \<Rightarrow> bool" where
  "torn_number n i \<longleftrightarrow> n \<noteq> 0 \<and> i < 8 \<and> Suc n mod 256 ^ i \<noteq> 0 \<and> Suc n mod 256 ^ i \<noteq> Suc n"

lemma take_number: "take_bit (8 * i) (of_nat n :: u64) = of_nat (n mod 256 ^ i)"
proof -
  have "take_bit (8 * i) (of_nat n :: u64) = of_nat (take_bit (8 * i) n)" by (simp only: take_bit_of_nat)
  then show ?thesis by (simp add: take_bit_nat_def power_mult)
qed

lemma loop_torn:
  assumes e: "page_ok e" and i: "i < length (bytes_of (Suc n) e)" and n: "Suc n < 2 ^ 64"
  shows "recover_loop h env (of_nat n) cmds (take i (bytes_of (Suc n) e), True) st =
    (if torn_number n i then Inr (True, st)
     else if e = Commit_mark \<and> 9 \<le> i then bindE (foldE (replay_command h env) cmds st) (\<lambda>st1. Inr (False, st1))
     else Inr (False, st))"
proof -
  obtain c nm w b where p: "parts e = (c, nm, w, b)" by (metis prod_cases4)
  obtain cmd r where l: "load_command (take i (bytes_of (Suc n) e), True) = (cmd, r, False)"
    "cmd_sequence cmd = take_bit (8 * min i 8) (of_nat (Suc n))" "cmd_command cmd = ucast (take_bit (8 * min (i - 8) 8) (ucast c :: u64))"
    using load_torn [OF page_ok_parts [OF e p], of i "of_nat (Suc n)" c] i p by (auto simp: bytes_of_def)
  have n0: "(of_nat n :: u64) = 0 \<longleftrightarrow> n = 0" using size_zero [of n] n by simp
  have sn: "(1 + of_nat n :: u64) \<noteq> 0" using size_zero [of "Suc n"] n by simp
  have eq: "(of_nat a :: u64) = of_nat c \<longleftrightarrow> a = c" if "a < 2 ^ 64" "c < 2 ^ 64" for a c
    using that unat_size [of a] unat_size [of c] by metis
  have le: "Suc n mod 256 ^ i \<le> Suc n" for i by simp
  have sq: "cmd_sequence cmd = of_nat (if i < 8 then Suc n mod 256 ^ i else Suc n)"
    using l(2) take_number [of i "Suc n"] by (cases "i < 8") (simp_all add: min_def take_bit_word_eq_self)
  have seq: "cmd_sequence cmd = of_nat (Suc n) \<longleftrightarrow> i < 8 \<longrightarrow> Suc n mod 256 ^ i = Suc n"
    unfolding sq using eq [of "Suc n mod 256 ^ i" "Suc n"] n le [of i] by (auto simp del: of_nat_Suc)
  have zer: "cmd_sequence cmd = 0 \<longleftrightarrow> i < 8 \<and> Suc n mod 256 ^ i = 0"
    unfolding sq using size_zero [OF le_less_trans [OF le n], of i] size_zero [OF n] by (auto simp del: of_nat_Suc)
  have cm: "cmd_command cmd = (if 9 \<le> i then c else 0)"
  proof (cases "9 \<le> i")
    case True
    have "c = 0 \<or> c = 1" using p by (cases e) (auto simp: JOURNAL_PAGE_def JOURNAL_COMMIT_def)
    moreover have "take_bit (8 * min (i - 8) 8) (1 :: u64) = 1" using True by (simp add: take_bit_of_1)
    ultimately show ?thesis using l(3) True by auto
  next
    case False
    then show ?thesis using l(3) by simp
  qed
  have cc: "c = (if e = Commit_mark then JOURNAL_COMMIT else JOURNAL_PAGE)" using p by (cases e) auto
  have ok: "recover_loop h env (of_nat n) cmds (take i (bytes_of (Suc n) e), True) st =
      (if e = Commit_mark \<and> 9 \<le> i then bindE (foldE (replay_command h env) cmds st) (\<lambda>st1. Inr (False, st1)) else Inr (False, st))"
    if "n = 0 \<or> cmd_sequence cmd = of_nat (Suc n)"
    using that l(1) n0 cm cc
    by (subst recover_loop.simps) (auto simp: loop_bad JOURNAL_PAGE_def JOURNAL_COMMIT_def JOURNAL_ROLLBACK_def add.commute)
  show ?thesis
  proof (cases "n = 0 \<or> cmd_sequence cmd = of_nat (Suc n)")
    case True
    moreover from this have "\<not> torn_number n i" using seq by (auto simp: torn_number_def)
    ultimately show ?thesis using ok by simp
  next
    case False
    then have "recover_loop h env (of_nat n) cmds (take i (bytes_of (Suc n) e), True) st = Inr (cmd_sequence cmd \<noteq> 0, st)"
      using l(1) n0 by (subst recover_loop.simps) (simp add: add.commute)
    moreover have "i < 8" "Suc n mod 256 ^ i \<noteq> Suc n" using False seq by auto
    moreover from this have "torn_number n i \<longleftrightarrow> cmd_sequence cmd \<noteq> 0" using zer False by (simp add: torn_number_def)
    ultimately show ?thesis by auto
  qed
qed

section \<open>The end of a recovery\<close>

definition finished :: "surroundings \<Rightarrow> journal_entry list \<Rightarrow> bool \<Rightarrow> store_name \<Rightarrow> mvcc \<Rightarrow> bool" where
  "finished env ds failed nm m \<longleftrightarrow> mvcc_inv m \<and> txns (db m) = Map.empty \<and>
     (if valid_directory env nm \<and> \<not> failed then committed (db m) = disk_view env nm ++ blocks_of nm ds \<and> on_file m
      else committed (db m) = disk_view env nm)"

lemma finish_storage_ok:
  assumes st: "map_of (instances st) nm = Some (m\<lparr>recovery := True\<rparr>)" and r: "recovering env ds nm m t"
  shows "\<exists>m'. finish_storage h env failed (nm, t) st = Inr (put_storage nm m' st) \<and> finished env ds failed nm m'"
proof -
  have g: "get_storage env nm (instances st) = m\<lparr>recovery := True\<rparr>" using st by (simp add: get_storage_def)
  have inv: "mvcc_inv m" using r by (simp add: recovering_def)
  show ?thesis
  proof (cases "valid_directory env nm")
    case False
    then have i: "actives m = []" "db m = \<lparr>committed = disk_view env nm, txns = Map.empty\<rparr>" using r by (simp_all add: recovering_def)
    then have "active_transactions m = 0" using idle_active [OF inv] by simp
    then have "finish_storage h env failed (nm, t) st = Inr (put_storage nm m st)"
      using same_recovery [OF inv] by (simp add: finish_storage_def g)
    then show ?thesis using inv i False by (auto simp: finished_def)
  next
    case True
    then obtain i where i: "t = Some i" "actives m = [i]" "\<not> read_only (the (heap m i))" "committed (db m) = disk_view env nm"
      "own (txn_of m i) = blocks_of nm ds" "\<not> journal_synching m" using r by (auto simp: recovering_def)
    have a: "active_transactions m \<noteq> 0" using idle_active [OF inv] by (simp add: i(2))
    have ia: "i \<in> set (actives m)" by (simp add: i(2))
    show ?thesis
    proof (cases failed)
      case False
      obtain m' where m': "mvcc_commit h i (m\<lparr>recovery := True\<rparr>) = Inr ([], m'\<lparr>recovery := True\<rparr>)" "mvcc_inv m'" "on_file m'"
        "db m' = \<lparr>committed = committed (db m) ++ own (txn_of m i), txns = Map.empty\<rparr>"
        using recovering_commit_ok [OF inv i(2,3,6)] by blast
      have "finish_storage h env failed (nm, t) st = Inr (put_storage nm m' st)"
        using m'(1) a False same_recovery [OF m'(2)] by (simp add: finish_storage_def g i(1) escape_def)
      then show ?thesis using m' i True False by (auto simp: finished_def)
    next
      case f: True
      obtain m' where m': "mvcc_discard i m = Inr m'" "mvcc_inv m'" "db m' = (db m)\<lparr>txns := (txns (db m))(i := None)\<rparr>"
        using discard_ok [OF inv ia] by blast
      have "finish_storage h env failed (nm, t) st = Inr (put_storage nm m' st)"
        using discard_recovering [OF m'(1), of True] a f same_recovery [OF m'(2)] by (simp add: finish_storage_def g i(1) escape_def)
      moreover have "(txns (db m))(i := None) = Map.empty" using i(2) by (auto simp: db_def)
      ultimately show ?thesis using m' i(4) f by (auto simp: finished_def)
    qed
  qed
qed

lemma finish_ok:
  "\<lbrakk>distinct (map fst ps); \<And>nm t. (nm, t) \<in> set ps \<Longrightarrow> \<exists>m. map_of (instances st) nm = Some (m\<lparr>recovery := True\<rparr>) \<and> recovering env ds nm m t\<rbrakk> \<Longrightarrow>
   \<exists>st'. foldE (finish_storage h env failed) ps st = Inr st' \<and>
     (\<forall>nm. if nm \<in> fst ` set ps then \<exists>m. map_of (instances st') nm = Some m \<and> finished env ds failed nm m
        else map_of (instances st') nm = map_of (instances st) nm)"
proof (induction ps arbitrary: st)
  case (Cons p ps)
  obtain nm t where p: "p = (nm, t)" by force
  obtain m where m: "map_of (instances st) nm = Some (m\<lparr>recovery := True\<rparr>)" "recovering env ds nm m t"
    using Cons.prems(2) [of nm t] p by auto
  obtain m' where m': "finish_storage h env failed (nm, t) st = Inr (put_storage nm m' st)" "finished env ds failed nm m'"
    using finish_storage_ok [OF m] by blast
  define st1 where "st1 = put_storage nm m' st"
  have i1: "map_of (instances st1) = (map_of (instances st))(nm \<mapsto> m')" by (simp add: st1_def put_storage_def AList.update_conv')
  have n: "nm \<notin> fst ` set ps" using Cons.prems(1) p by simp
  have "\<exists>m. map_of (instances st1) nm' = Some (m\<lparr>recovery := True\<rparr>) \<and> recovering env ds nm' m t'" if t': "(nm', t') \<in> set ps" for nm' t'
  proof -
    have "nm' \<noteq> nm" using n image_eqI [OF _ t', of nm' fst] by auto
    then show ?thesis using Cons.prems(2) [of nm' t'] t' by (simp add: i1)
  qed
  then obtain st' where "foldE (finish_storage h env failed) ps st1 = Inr st'"
    "\<forall>nm. if nm \<in> fst ` set ps then \<exists>m. map_of (instances st') nm = Some m \<and> finished env ds failed nm m
        else map_of (instances st') nm = map_of (instances st1) nm"
    using Cons.IH [of st1] Cons.prems(1) by auto
  note st' = this
  have "if nm' \<in> fst ` set (p # ps) then \<exists>m. map_of (instances st') nm' = Some m \<and> finished env ds failed nm' m
        else map_of (instances st') nm' = map_of (instances st) nm'" for nm'
    using st'(2) [rule_format, of nm'] m'(2) n by (cases "nm' = nm") (auto simp: i1 p split: if_splits)
  then show ?case using st'(1) m'(1) by (auto simp: p st1_def)
qed simp

text \<open>What a recovery leaves of the storages.\<close>

definition recovered :: "surroundings \<Rightarrow> journal_entry list \<Rightarrow> bool \<Rightarrow> registry \<Rightarrow> bool" where
  "recovered env ds failed reg \<longleftrightarrow>
     (\<forall>nm. case map_of reg nm of None \<Rightarrow> nm \<notin> names_of ds | Some m \<Rightarrow> nm \<in> names_of ds \<and> finished env ds failed nm m)"

lemma committed_names: "names_of (fst (replayed (ds, ps) es)) \<union> names_of (snd (replayed (ds, ps) es)) \<subseteq> names_of ds \<union> names_of ps \<union> names_of es"
proof (induction "(ds, ps)" es arbitrary: ds ps rule: replayed.induct)
  case (2 ds ps nm w b es)
  then show ?case using names_Cons [of "Page nm w b" es] by fastforce
next
  case (3 ds ps es)
  then show ?case using names_Cons [of Commit_mark es] by (simp add: names_append)
qed simp

lemma recover_storages:
  assumes inv: "recovery_inv env ds st"
    and l: "recover_loop h env 0 [] (journal_file j, True) \<lparr>instances = [], pending = []\<rparr> = Inr (failed, st)"
  shows "\<exists>reg. recover h env j [] = Inr (reset_journal j, reg) \<and> recovered env ds failed reg"
proof -
  have d: "distinct (map fst (pending st))" by (rule recovery_invD(3) [OF inv])
  have dom: "nm \<in> fst ` set (pending st) \<longleftrightarrow> nm \<in> names_of ds" for nm
    using recovery_invD(1,2) [OF inv, of nm] by (cases "nm \<in> names_of ds") (auto simp: map_of_eq_None_iff dest: map_of_SomeD intro: image_eqI [rotated])
  have "\<exists>m. map_of (instances st) nm = Some (m\<lparr>recovery := True\<rparr>) \<and> recovering env ds nm m t" if t: "(nm, t) \<in> set (pending st)" for nm t
  proof -
    have "nm \<in> names_of ds" using dom image_eqI [OF _ t, of nm fst] by simp
    moreover have "map_of (pending st) nm = Some t" by (rule map_of_is_SomeI [OF d t])
    ultimately show ?thesis using recovery_invD(1) [OF inv, of nm] by auto
  qed
  then obtain st' where st': "foldE (finish_storage h env failed) (pending st) st = Inr st'"
    "\<forall>nm. if nm \<in> fst ` set (pending st) then \<exists>m. map_of (instances st') nm = Some m \<and> finished env ds failed nm m
        else map_of (instances st') nm = map_of (instances st) nm"
    using finish_ok [OF d] by blast
  have "case map_of (instances st') nm of None \<Rightarrow> nm \<notin> names_of ds | Some m \<Rightarrow> nm \<in> names_of ds \<and> finished env ds failed nm m" for nm
    using st'(2) [rule_format, of nm] recovery_invD(2) [OF inv, of nm] unfolding dom by (cases "nm \<in> names_of ds") auto
  then show ?thesis using l st'(1) by (auto simp: recover_def recovered_def)
qed

lemma recovery_start: "recovery_inv env [] \<lparr>instances = [], pending = []\<rparr>"
  by (simp add: recovery_inv_def)

text \<open>A journal that was cut \<open>i\<close> bytes into the entry \<open>e\<close>.\<close>

lemma recover_torn:
  assumes f: "journal_file j = log_bytes 0 xs @ take i (bytes_of (Suc (length xs)) e)" "i < length (bytes_of (Suc (length xs)) e)"
    and ok: "list_all page_ok (xs @ [e])" "Suc (length xs) < 2 ^ 64" "\<forall>nm \<in> names_of xs. sound_disk env nm"
  shows "\<exists>reg. recover h env j [] = Inr (reset_journal j, reg) \<and>
    (if torn_number (length xs) i then recovered env (committed_pages xs) True reg
     else recovered env (committed_pages (if e = Commit_mark \<and> 9 \<le> i then xs @ [e] else xs)) False reg)"
proof -
  define st0 where "st0 = \<lparr>instances = [] :: registry, pending = [] :: (store_name \<times> store_id option) list\<rparr>"
  obtain ds ps where p: "replayed ([], []) xs = (ds, ps)" by force
  obtain st cmds where l: "recover_loop h env (of_nat 0) [] (log_bytes 0 xs @ take i (bytes_of (Suc (length xs)) e), True) st0 =
      recover_loop h env (of_nat (0 + length xs)) cmds (take i (bytes_of (Suc (length xs)) e), True) st"
    "recovery_inv env ds st" "list_all2 reads_page cmds ps" "list_all page_ok ps" "\<forall>nm \<in> names_of ps. sound_disk env nm"
    using loop_entries [of env "[]" st0 "[]" "[]" xs ds ps h 0 "take i (bytes_of (Suc (length xs)) e)"] recovery_start p ok by (auto simp: st0_def)
  have t: "recover_loop h env (of_nat (length xs)) cmds (take i (bytes_of (Suc (length xs)) e), True) st =
    (if torn_number (length xs) i then Inr (True, st)
     else if e = Commit_mark \<and> 9 \<le> i then bindE (foldE (replay_command h env) cmds st) (\<lambda>st1. Inr (False, st1))
     else Inr (False, st))"
    by (rule loop_torn) (use ok f(2) in simp_all)
  have r: "recover_loop h env 0 [] (journal_file j, True) \<lparr>instances = [], pending = []\<rparr> =
      recover_loop h env (of_nat (length xs)) cmds (take i (bytes_of (Suc (length xs)) e), True) st"
    using l(1) by (simp add: f(1) st0_def)
  show ?thesis
  proof (cases "torn_number (length xs) i")
    case True
    then show ?thesis using recover_storages [OF l(2)] r t p by (simp add: committed_pages_def)
  next
    case n: False
    show ?thesis
    proof (cases "e = Commit_mark \<and> 9 \<le> i")
      case True
      obtain st1 where st1: "foldE (replay_command h env) cmds st = Inr st1" "recovery_inv env (ds @ ps) st1"
        using replay_commands_ok [OF l(3,4,5,2)] by blast
      have "committed_pages (xs @ [e]) = ds @ ps" using True p by (simp add: committed_pages_def replayed_append)
      then show ?thesis using recover_storages [OF st1(2)] r t n True st1(1) by simp
    next
      case False
      have "recover_loop h env 0 [] (journal_file j, True) \<lparr>instances = [], pending = []\<rparr> = Inr (False, st)"
        unfolding r t if_not_P [OF n] if_not_P [OF False] ..
      from recover_storages [OF l(2) this] show ?thesis
        unfolding if_not_P [OF n] if_not_P [OF False] by (simp add: committed_pages_def p)
    qed
  qed
qed

end
