(* ===== verification/MvccFile.thy ===== *)
theory MvccFile
  imports RecoveryTheorems BlockStable
begin

text \<open>
  Only a checkpoint writes the file of a coordinator: whatever transactions do, and whatever versions
  are merged, the file of the oldest version keeps its rows.
\<close>

section \<open>The files of a heap\<close>

definition rows_at :: "store_heap \<Rightarrow> store_id \<Rightarrow> rows option" where
  "rows_at hp i = map_option (\<lambda>a. the_rows (file_rows a)) (alloc_of hp i)"

definition same_files :: "store_id set \<Rightarrow> store_heap \<Rightarrow> store_heap \<Rightarrow> bool" where
  "same_files X hp hp' \<longleftrightarrow> (\<forall>i. i \<notin> X \<longrightarrow> rows_at hp' i = rows_at hp i)"

lemma files_refl [simp]: "same_files X hp hp"
  by (simp add: same_files_def)

lemma files_trans: "same_files X a b \<Longrightarrow> same_files X b c \<Longrightarrow> same_files X a c"
  by (simp add: same_files_def)

lemma files_mono: "same_files X a b \<Longrightarrow> X \<subseteq> Y \<Longrightarrow> same_files Y a b"
  by (auto simp: same_files_def)

lemma files_put:
  "alloc_of hp i = Some a \<Longrightarrow> leaves_file a a' \<Longrightarrow> same_files X hp (put_allocator i a' hp)"
  by (auto simp: same_files_def rows_at_def leaves_file_def dest: alloc_exists)

lemma files_stamp [simp]: "same_files X hp (on_store (\<lambda>s. s\<lparr>vs_allocated_version := v\<rparr>) i hp)"
  by (simp add: same_files_def rows_at_def)

lemma files_on_store:
  "(\<And>s. map_option (\<lambda>a. the_rows (file_rows a)) (vs_allocator (f s)) = map_option (\<lambda>a. the_rows (file_rows a)) (vs_allocator s)) \<Longrightarrow>
   same_files X hp (on_store f i hp)"
proof -
  assume f: "\<And>s. map_option (\<lambda>a. the_rows (file_rows a)) (vs_allocator (f s)) = map_option (\<lambda>a. the_rows (file_rows a)) (vs_allocator s)"
  have "rows_at (on_store f i hp) j = rows_at hp j" for j
    using f by (cases "hp j"; cases "j = i") (simp_all add: rows_at_def alloc_of_def on_store_def)
  then show ?thesis by (simp add: same_files_def)
qed

lemma get_alloc: "get_allocator i hp = Inr a \<longleftrightarrow> alloc_of hp i = Some a"
  by (simp add: get_allocator_eq split: option.splits)

lemma leaves_complete: "leaves_file a (complete h a)"
  by (rule leaves_file.core_ok [OF core_complete])

lemma leaves_write: "leaves_file a (write_ref r b a)"
  by (rule leaves_file.core_ok [OF core_write])

section \<open>Reading and writing in a transaction\<close>

lemma files_local:
  assumes "local_allocate h i w how hp = Inr (r, w', hp')" shows "same_files X hp hp'"
proof -
  obtain a q a1 where "alloc_of hp i = Some a" "allocate h w how a = Inr (q, w', a1)"
    "hp' = on_store (\<lambda>s. s\<lparr>vs_allocated_version := allocated_version a1\<rparr>) i (put_allocator i a1 hp)"
    using assms by (auto simp: local_allocate_def bindE_Inr_iff get_alloc)
  then show ?thesis using files_trans [OF files_put [OF _ leaves_file.stable_allocate] files_stamp] by blast
qed

lemma files_search: "search_based h i w how bs hp = Inr (r, w', hp') \<Longrightarrow> same_files X hp hp'"
proof (induction bs arbitrary: w hp)
  case (Cons b bs)
  obtain a q w1 a1 where a: "alloc_of hp b = Some a" "allocate h w Read a = Inr (q, w1, a1)"
    using Cons.prems by (auto simp: bindE_Inr_iff get_alloc)
  have la: "leaves_file a (complete h a1)" by (rule leaves_file.trans_ok [OF leaves_file.stable_allocate [OF a(2)] leaves_complete])
  have fb: "same_files X hp (put_allocator b (complete h a1) hp)" by (rule files_put [OF a(1) la])
  have "alloc_of hp b = Some a" by (rule a(1))
  show ?case
  proof (cases "is_end q")
    case True
    then have "search_based h i w1 how bs (put_allocator b (complete h a1) hp) = Inr (r, w', hp')"
      using Cons.prems a by (simp add: get_alloc [THEN iffD2])
    from files_trans [OF fb Cons.IH [OF this]] show ?thesis .
  next
    case False
    show ?thesis
    proof (cases "how = Write \<and> (case hp i of None \<Rightarrow> False | Some s \<Rightarrow> vs_allocator s \<noteq> None)")
      case True
      then obtain c u w2 c1 where c: "alloc_of hp i = Some c" "allocate h w1 Create c = Inr (u, w2, c1)"
        "hp' = put_allocator b (complete h a1) (on_store (\<lambda>s. s\<lparr>vs_allocated_version := allocated_version c1\<rparr>) i
          (put_allocator i (write_ref u (read_ref q a1) c1) hp))"
        using Cons.prems a False by (auto simp: bindE_Inr_iff get_alloc)
      have lc: "leaves_file c (write_ref u (read_ref q a1) c1)"
        by (rule leaves_file.trans_ok [OF leaves_file.stable_allocate [OF c(2)] leaves_write])
      have "rows_at hp' j = rows_at hp j" for j
        using a(1) c(1) la lc alloc_exists [OF a(1)] alloc_exists [OF c(1)]
        by (auto simp: c(3) rows_at_def leaves_file_def) (simp_all add: on_store_def)
      then show ?thesis by (simp add: same_files_def)
    next
      case False
      then have "hp' = on_store (\<lambda>s. s\<lparr>vs_allocated_version := allocated_version a1\<rparr>) i (put_allocator b (complete h a1) hp)"
        using Cons.prems a \<open>\<not> is_end q\<close> by (auto simp: bindE_Inr_iff get_alloc [THEN iffD2])
      then show ?thesis using files_trans [OF fb files_stamp] by simp
    qed
  qed
qed simp

lemma files_allocate:
  assumes "vs_allocate h n i w how hp = Inr (r, w', hp')" shows "same_files X hp hp'"
proof -
  obtain s where s: "hp i = Some s" using assms by (auto simp: vs_allocate_def deref_def split: option.splits)
  define k where "k = on_store (\<lambda>s. s\<lparr>vs_allocated_version := 0\<rparr>) i hp"
  have k: "same_files X hp k" by (simp add: k_def)
  have "same_files X k hp'"
  proof (cases "\<not> (read_only s \<and> how \<noteq> Read) \<and> \<not> (w = 0 \<and> how = Create) \<and> vs_allocator s \<noteq> None \<and> how \<noteq> Create")
    case False
    then show ?thesis using assms s files_local files_search
      by (auto simp: vs_allocate_def deref_def k_def [symmetric] Let_def split: if_splits)
  next
    case True
    then obtain a q w1 a1 where a: "alloc_of k i = Some a" "allocate h w how a = Inr (q, w1, a1)"
      using assms s by (auto simp: vs_allocate_def deref_def k_def [symmetric] Let_def bindE_Inr_iff get_alloc)
    have "same_files X k (put_allocator i (complete h a1) k)"
      by (rule files_put [OF a(1) leaves_file.trans_ok [OF leaves_file.stable_allocate [OF a(2)] leaves_complete]])
    moreover have "same_files X k (put_allocator i a1 k)" by (rule files_put [OF a(1) leaves_file.stable_allocate [OF a(2)]])
    ultimately show ?thesis
      using True assms s a files_trans [OF _ files_search] files_trans [OF _ files_stamp]
      by (auto simp: vs_allocate_def deref_def k_def [symmetric] Let_def get_alloc [THEN iffD2] split: if_splits)
  qed
  with k show ?thesis by (rule files_trans)
qed

lemma files_complete: "vs_complete h i hp = Inr hp' \<Longrightarrow> same_files X hp hp'"
  by (auto simp: vs_complete_def bindE_Inr_iff get_alloc intro: files_put leaves_complete)

lemma files_write: "same_files X hp (vs_write r b hp)"
  by (auto simp: vs_write_def get_allocator_eq split: version_ref.splits option.splits intro: files_put leaves_write)

lemma files_journal: "vs_journal h i hp = Inr (pages, hp') \<Longrightarrow> same_files X hp hp'"
  by (auto simp: vs_journal_def bindE_Inr_iff deref_def alloc_of_def journal_def split: option.splits
      intro!: files_put leaves_file.stable_journal)

text \<open>What a client does with a block.\<close>

lemma files_read_step:
  "vs_allocate h n i w how hp = Inr (r, w', hp1) \<Longrightarrow> vs_complete h i hp1 = Inr hp2 \<Longrightarrow> same_files X hp hp2"
  by (rule files_trans [OF files_allocate files_complete])

lemma files_write_step:
  "vs_allocate h n i w how hp = Inr (r, w', hp1) \<Longrightarrow> vs_complete h i (vs_write r b hp1) = Inr hp2 \<Longrightarrow> same_files X hp hp2"
  by (rule files_trans [OF files_trans [OF files_allocate files_write] files_complete])

section \<open>Merging\<close>

text \<open>Merging moves a version into the one before it; only the version that is moved loses its file.\<close>

lemma files_move:
  assumes "vs_move h i j hp = Inr hp'" "i \<in> X" shows "same_files X hp hp'"
proof -
  obtain a b a1 b1 where a: "alloc_of hp i = Some a" "alloc_of hp j = Some b" "move h a b = Inr (a1, b1)"
    "hp' = put_allocator j b1 (put_allocator i a1 hp)"
    using assms(1) by (auto simp: vs_move_def bindE_Inr_iff get_alloc)
  have "leaves_file b b1" by (rule leaves_file.stable_move [OF a(3)])
  then show ?thesis using a assms(2) alloc_exists [OF a(2)] by (auto simp: same_files_def rows_at_def leaves_file_def)
qed

lemma files_merged: "same_files X hp (on_store (\<lambda>s. s\<lparr>merged := b\<rparr>) i hp)"
  by (rule files_on_store) simp

lemma files_merge_run:
  "merge_run h l is hp = Inr hp' \<Longrightarrow> same_files (set (butlast (l # is))) hp hp'"
proof (induction h l "is" hp rule: merge_run.induct)
  case (1 h l hp)
  then show ?case using files_merged by auto
next
  case (2 h l i idle hp)
  obtain sl si hp1 where s: "deref l hp = Inr sl" "deref i hp = Inr si" "\<not> vs_version sl \<le> vs_version si" "is_unused si"
    "vs_move h l i hp = Inr hp1" "merge_run h i idle (on_store (\<lambda>s. s\<lparr>merged := True\<rparr>) l hp1) = Inr hp'"
    using "2.prems" by (auto simp: bindE_Inr_iff split: if_splits)
  have "same_files (set (butlast (l # i # idle))) hp hp1" by (rule files_move [OF s(5)]) simp
  moreover have "same_files (set (butlast (l # i # idle))) (on_store (\<lambda>s. s\<lparr>merged := True\<rparr>) l hp1) hp'"
    by (rule files_mono [OF "2.IH" [OF s(1,2) s(3) _ s(5,6)]]) (use s(4) in auto)
  ultimately show ?case using files_trans [OF files_trans [OF _ files_merged]] by blast
qed

lemma files_merge_idle_run: "merge_idle_run h is hp = Inr hp' \<Longrightarrow> same_files (set (butlast is)) hp hp'"
  by (cases "is") (auto simp: merge_idle_run_def dest: files_merge_run)

lemma files_merge_idle:
  "merge_idle h idle cs hp = Inr hp' \<Longrightarrow> distinct (idle @ cs) \<Longrightarrow> same_files (- {last (idle @ cs)}) hp hp'"
proof (induction h idle cs hp rule: merge_idle.induct)
  case (1 h idle hp)
  have "set (butlast idle) \<subseteq> - {last idle}"
  proof (cases idle rule: rev_cases)
    case (snoc ys y)
    then show ?thesis using "1.prems"(2) by auto
  qed simp
  then show ?case using files_mono [OF files_merge_idle_run] "1.prems" by simp
next
  case (2 h idle c cs hp)
  obtain s where s: "deref c hp = Inr s" using "2.prems"(1) by (auto simp: bindE_Inr_iff)
  show ?case
  proof (cases "is_unused s")
    case True
    then show ?thesis using "2.IH"(1) [OF s True] "2.prems" s by simp
  next
    case False
    then obtain hp1 where hp1: "merge_idle_run h idle hp = Inr hp1" "merge_idle h [] cs hp1 = Inr hp'"
      using "2.prems"(1) s by (auto simp: bindE_Inr_iff)
    have l: "last (idle @ c # cs) = last (c # cs)" by simp
    have "last (c # cs) \<in> set (c # cs)" by (rule last_in_set) simp
    then have "last (c # cs) \<notin> set (butlast idle)" using "2.prems"(2) by (auto dest: in_set_butlastD)
    then have f1: "same_files (- {last (c # cs)}) hp hp1" by (intro files_mono [OF files_merge_idle_run [OF hp1(1)]]) auto
    have "same_files (- {last (c # cs)}) hp1 hp'"
    proof (cases cs)
      case Nil
      then show ?thesis using hp1(2) by (simp add: merge_idle_run_def)
    next
      case (Cons d ds)
      then show ?thesis using "2.IH"(2) [OF s False hp1] "2.prems"(2) by simp
    qed
    then show ?thesis unfolding l by (rule files_trans [OF f1])
  qed
qed

lemma files_clear: "clear_all_merged v cs hp = Inr hp' \<Longrightarrow> same_files X hp hp'"
proof (induction cs arbitrary: v hp)
  case (Cons c cs)
  then show ?case by (auto simp: bindE_Inr_iff split: if_splits intro: files_trans [OF files_merged])
qed simp

lemma files_drop: "drop_merged h False cs (hp, sv) = Inr (ks, hp', sv') \<Longrightarrow> same_files X hp hp'"
proof (induction cs arbitrary: hp sv ks)
  case (Cons c cs)
  have "same_files X hp (on_store (\<lambda>s. (vs_set_transient True s)\<lparr>based := None\<rparr>) c hp)"
    by (rule files_on_store) (simp add: vs_set_transient_def with_allocator_def option.map_comp comp_def)
  from files_trans [OF this] Cons show ?case by (fastforce simp: bindE_Inr_iff split: if_splits)
qed simp

lemma files_relink: "relink p seen cs hp = Inr hp' \<Longrightarrow> same_files X hp hp'"
proof (induction cs arbitrary: p seen hp)
  case (Cons c cs)
  have "same_files X hp (on_store (\<lambda>s. s\<lparr>based := p\<rparr>) c hp)" by (rule files_on_store) simp
  from files_trans [OF this] Cons show ?case by (auto simp: bindE_Inr_iff Let_def split: if_splits)
qed simp

lemma files_merge_down:
  assumes "merge_down h m = Inr m'" "\<not> recovery m" "distinct (storages m)" "storages m \<noteq> []"
  shows "same_files (- {hd (storages m)}) (heap m) (heap m')"
proof (cases "journal_synching m")
  case False
  obtain hp1 hp2 ss hp3 sv hp4 where 1: "clear_all_merged 0 (storages m) (heap m) = Inr hp1"
    "merge_idle h [] (rev (storages m)) hp1 = Inr hp2"
    "drop_merged h False (storages m) (hp2, storage_versions m) = Inr (ss, hp3, sv)" "relink None [] ss hp3 = Inr hp4"
    "heap m' = hp4"
    using assms False by (auto simp: merge_down_def lift_result_def bindE_def split: sum.splits if_splits)
  have "same_files (- {last (rev (storages m))}) hp1 hp2"
    using files_merge_idle [OF 1(2)] assms(3) by simp
  then have "same_files (- {hd (storages m)}) hp1 hp2" using assms(4) by (simp add: last_rev)
  with files_clear [OF 1(1)] have "same_files (- {hd (storages m)}) (heap m) hp2" by (rule files_trans)
  from files_trans [OF files_trans [OF this files_drop [OF 1(3)]] files_relink [OF 1(4)]] show ?thesis by (simp add: 1(5))
qed (use assms(1) in \<open>simp add: merge_down_def\<close>)

section \<open>Steps\<close>

lemma files_begin:
  assumes "mvcc_begin w v m = Inr (t, m')" shows "same_files {next_id m} (heap m) (heap m')" "storages m' = storages m"
proof -
  define b where "b = (if w \<or> recycler m = [] then next_id m else last (recycler m))"
  define hp where "hp = (if w \<or> recycler m = [] then (heap m)(next_id m \<mapsto>
      set_allocator (Some (begin_allocator m)) (new_version_store (last_address m) (mv_order m) v)) else heap m)"
  have f0: "same_files {next_id m} (heap m) hp" by (simp add: hp_def same_files_def rows_at_def alloc_of_def)
  have f1: "same_files X k (on_store (\<lambda>s. s\<lparr>read_only := c\<rparr>) i k)" "same_files X k (on_store (\<lambda>s. s\<lparr>based := p\<rparr>) i k)"
    "same_files X k (on_store add_reader i k)" for X k c i p
    by (rule files_on_store; simp add: add_reader_def)+
  have f2: "same_files X k (fold (on_store add_reader) cs k)" for X k cs
    by (induction cs arbitrary: k) (auto intro: files_trans [OF f1(3)])
  have "heap m' = fold (on_store add_reader) (storages m) (on_store (\<lambda>s. s\<lparr>based := Some (last (storages m))\<rparr>) b
      (on_store (\<lambda>s. s\<lparr>read_only := \<not> w\<rparr>) b hp)) \<and> storages m' = storages m"
    using assms by (auto simp: mvcc_begin_def Let_def lift_result_def throw_def bindE_def b_def hp_def split: if_splits sum.splits)
  then show "same_files {next_id m} (heap m) (heap m')" "storages m' = storages m"
    using files_trans [OF files_trans [OF files_trans [OF f0 f1(1)] f1(2)] f2] by simp_all
qed

lemma files_remove_readers: "remove_readers bs hp = Inr hp' \<Longrightarrow> same_files X hp hp'"
proof (induction bs arbitrary: hp)
  case (Cons b bs)
  obtain s s' where s: "hp b = Some s" "remove_reader s = Inr s'" "remove_readers bs (hp(b \<mapsto> s')) = Inr hp'"
    using Cons.prems by (auto simp: bindE_Inr_iff deref_def split: option.splits)
  have "vs_allocator s' = vs_allocator s" using s(2) by (auto simp: remove_reader_def split: if_splits)
  then have "same_files X hp (hp(b \<mapsto> s'))" using s(1) by (auto simp: same_files_def rows_at_def alloc_of_def)
  from files_trans [OF this Cons.IH [OF s(3)]] show ?case .
qed simp

lemma files_discard:
  assumes "mvcc_discard t m = Inr m'" shows "same_files X (heap m) (heap m')" "storages m' = storages m"
proof -
  define k where "k = on_store (\<lambda>s. vs_set_transient True (s\<lparr>read_only := True, discard_on_end := True\<rparr>)) t (heap m)"
  have f: "same_files X (heap m) k"
    unfolding k_def by (rule files_on_store) (simp add: vs_set_transient_def with_allocator_def option.map_comp comp_def)
  obtain n v hp where "remove_readers (based_chain n k v) k = Inr hp" "heap m' = hp" "storages m' = storages m"
    using assms
    by (auto simp: mvcc_discard_def Let_def lift_result_def throw_def bindE_def k_def split: if_splits sum.splits)
  then show "same_files X (heap m) (heap m')" "storages m' = storages m"
    using files_trans [OF f files_remove_readers] by simp_all
qed

lemma files_leave: "same_files X hp (leave bs hp)"
proof -
  have "rows_at (leave bs hp) j = rows_at hp j" for j
    by (cases "hp j") (auto simp: rows_at_def alloc_of_def leave_def)
  then show ?thesis by (simp add: same_files_def)
qed

lemma files_commit:
  assumes inv: "mvcc_inv m" and c: "mvcc_commit h t m = Inr (pages, m')" and t: "t \<in> set (actives m)" "\<not> read_only (the (heap m t))"
  shows "same_files (- {hd (storages m)}) (heap m) (heap m')"
proof -
  obtain hp where hp: "(if \<not> recovery m \<and> mv_local_writes m then vs_journal h t (heap m) else Inr ([], heap m)) = Inr (pages_of m t, hp)"
    "quiet_heap (heap m) hp" using commit_journal_ok [OF inv t] by blast
  have r: "\<not> recovery m" "mv_local_writes m" using inv by (simp_all add: mvcc_inv_def txns_inv_def)
  define k where "k = committed_by t (m\<lparr>heap := hp\<rparr>)"
  have "mvcc_commit h t (m\<lparr>recovery := False\<rparr>) = bindE (merge_down h (k\<lparr>recovery := False\<rparr>)) (\<lambda>m'. Inr (pages_of m t, m'))"
    "mvcc_inv k" "hd (storages k) = hd (storages m)"
    unfolding k_def by (intro commit_reaches [OF inv t, of False]; use hp r in simp)+
  note k = this [unfolded same_recovery [OF inv]]
  have "bindE (merge_down h k) (\<lambda>m'. Inr (pages_of m t, m')) = Inr (pages, m')" using k(1) c unfolding same_recovery [OF k(2)] by simp
  then have md: "merge_down h k = Inr m'" by (simp add: bindE_Inr_iff)
  have kr: "\<not> recovery k" "distinct (storages k)" "storages k \<noteq> []"
    using k(2) mvcc_invD(1,2) [OF k(2)] by (simp_all add: mvcc_inv_def txns_inv_def)
  have "same_files {} hp (heap k)"
  proof -
    have f1: "same_files {} hp (on_store (\<lambda>s. s\<lparr>read_only := True\<rparr>) t hp)" by (rule files_on_store) simp
    have f2: "same_files {} (on_store (\<lambda>s. s\<lparr>read_only := True\<rparr>) t hp) (commit_heap t (m\<lparr>heap := hp\<rparr>))"
      unfolding commit_heap_def by (simp add: files_leave)
    show ?thesis using files_trans [OF f1 f2] by (simp add: k_def committed_by_simps)
  qed
  moreover have "same_files {} (heap m) hp" using hp(1) r files_journal by auto
  ultimately have "same_files (- {hd (storages m)}) (heap m) (heap k)" by (metis files_mono files_trans empty_subsetI)
  from files_trans [OF this files_merge_down [OF md kr, unfolded k(3)]] show ?thesis .
qed

lemma files_each:
  "each_storage (with_allocator g) cs hp = Inr hp' \<Longrightarrow> (\<And>a. leaves_file a (g a)) \<Longrightarrow> same_files X hp hp'"
proof (induction cs arbitrary: hp)
  case (Cons c cs)
  have "map_option (\<lambda>a. the_rows (file_rows a)) (vs_allocator (with_allocator g s)) = map_option (\<lambda>a. the_rows (file_rows a)) (vs_allocator s)" for s
    using Cons.prems(2) by (simp add: with_allocator_def option.map_comp comp_def leaves_file_def)
  then have f: "same_files X hp (on_store (with_allocator g) c hp)" by (rule files_on_store)
  show ?case using Cons by (auto simp: bindE_Inr_iff intro: files_trans [OF f])
qed simp

text \<open>The file of the oldest version, and that it stays the oldest.\<close>

definition first_rows :: "mvcc \<Rightarrow> rows option" where
  "first_rows m = rows_at (heap m) (hd (storages m))"

lemma first_rows_step:
  assumes inv: "mvcc_inv m" and can: "can_step op m" and step: "mvcc_step h op m = Inr (r, m')" and op: "op \<noteq> Checkpoint"
  shows "hd (storages m') = hd (storages m) \<and> first_rows m' = first_rows m"
proof -
  have ne: "storages m \<noteq> []" "distinct (storages m)" "\<not> recovery m"
    using mvcc_invD(1,2) [OF inv] inv by (simp_all add: mvcc_inv_def txns_inv_def)
  have n: "hd (storages m) \<noteq> next_id m" using mvcc_invD(5) [OF inv, of "hd (storages m)"] ne(1) by (auto simp: store_ok_def)
  have "hd (storages m') = hd (storages m) \<and> rows_at (heap m') (hd (storages m)) = rows_at (heap m) (hd (storages m))"
  proof (cases op)
    case (Txn_begin w v)
    then show ?thesis using step files_begin n by (auto simp: bindE_Inr_iff same_files_def)
  next
    case (Txn_read t w)
    then obtain q w' hp1 hp2 where "vs_allocate h (next_id m) t w Read (heap m) = Inr (q, w', hp1)" "vs_complete h t hp1 = Inr hp2"
      "m' = m\<lparr>heap := hp2\<rparr>"
      using step by (auto simp: in_store_def lift_result_def bindE_def split: sum.splits)
    then show ?thesis using files_read_step [where X = "{}"] by (simp add: same_files_def)
  next
    case (Txn_write t w b)
    then obtain q w' hp1 hp2 where "vs_allocate h (next_id m) t w Write (heap m) = Inr (q, w', hp1)"
      "vs_complete h t (vs_write q b hp1) = Inr hp2" "m' = m\<lparr>heap := hp2\<rparr>"
      using step by (auto simp: in_store_def lift_result_def bindE_def split: sum.splits)
    then show ?thesis using files_write_step [where X = "{}"] by (simp add: same_files_def)
  next
    case (Txn_new t b)
    then obtain q w' hp1 hp2 where "vs_allocate h (next_id m) t 0 Create (heap m) = Inr (q, w', hp1)"
      "vs_complete h t (vs_write q b hp1) = Inr hp2" "m' = m\<lparr>heap := hp2\<rparr>"
      using step by (auto simp: in_store_def lift_result_def bindE_def split: sum.splits)
    then show ?thesis using files_write_step [where X = "{}"] by (simp add: same_files_def)
  next
    case (Txn_commit t)
    then have t: "t \<in> set (actives m)" "\<not> read_only (the (heap m t))" using can by simp_all
    obtain pages where c: "mvcc_commit h t m = Inr (pages, m')" using step Txn_commit by (auto simp: bindE_Inr_iff)
    have "hd (storages m') = hd (storages m)" using txn_commit_ok [OF inv t, of h] c by auto
    then show ?thesis using files_commit [OF inv c t] by (simp add: same_files_def)
  next
    case (Txn_discard t)
    then show ?thesis using step files_discard(1) [of t m m' "{}"] files_discard(2) [of t m m'] by (auto simp: bindE_Inr_iff same_files_def)
  next
    case Make_singular
    then have md: "merge_down h m = Inr m'" using step by (auto simp: make_singular_def bindE_Inr_iff)
    then have "hd (storages m') = hd (storages m)" using merge_down_ok [OF inv, of h] by auto
    then show ?thesis using files_merge_down [OF md ne(3,2,1)] by (simp add: same_files_def)
  next
    case Synch_start
    then show ?thesis using step by (auto simp: journal_synch_start_def)
  next
    case Synch_end
    then obtain hp where "each_storage (with_allocator (reduce_perm h)) (storages m) (heap m) = Inr hp" "heap m' = hp" "storages m' = storages m"
      using step by (auto simp: journal_synch_end_def mvcc_reduce_def lift_result_def bindE_def split: sum.splits)
    then show ?thesis using files_each [of "reduce_perm h" "storages m" "heap m" hp "{}"] leaves_file.stable_reduce_perm by (simp add: same_files_def)
  qed (use op in simp)
  then show ?thesis by (simp add: first_rows_def)
qed

lemma first_rows_run:
  "execution can_step (mvcc_step h) m tr m' \<Longrightarrow> mvcc_inv m \<Longrightarrow> Checkpoint \<notin> fst ` set tr \<Longrightarrow>
   hd (storages m') = hd (storages m) \<and> first_rows m' = first_rows m"
proof (induction rule: execution.induct)
  case (execution_step tr s1 op r s2)
  have "mvcc_inv s1" using coordinator.execution_ok [OF execution_step.hyps(1) execution_step.prems(1)] by blast
  from first_rows_step [OF this execution_step.hyps(2,3)] execution_step show ?case by auto
qed simp

end
