(* ===== verification/CrashRecovery.thy ===== *)
theory CrashRecovery
  imports MvccFile
begin

text \<open>
  The journal, the coordinator and its file together: what a crash leaves of the file and of the journal
  recovers to what was committed at the last mark.
\<close>

section \<open>What the journal holds of an execution\<close>

definition page_log :: "store_name \<Rightarrow> (mvcc_op \<times> mvcc_out) list \<Rightarrow> journal_entry list" where
  "page_log nm tr = concat (map (\<lambda>(op, r). case r of Journaled pages \<Rightarrow> map (\<lambda>(w, b). Page nm w b) pages | _ \<Rightarrow> []) tr)"

lemma page_log_append [simp]: "page_log nm (xs @ ys) = page_log nm xs @ page_log nm ys"
  by (simp add: page_log_def)

lemma page_log_pages: "Commit_mark \<notin> set (page_log nm tr)"
  by (auto simp: page_log_def split: mvcc_out.splits)

lemma blocks_of_append: "blocks_of nm (xs @ ys) = blocks_of nm xs ++ blocks_of nm ys"
  by (simp add: blocks_of_def)

lemma map_of_rev: "distinct (map fst ps) \<Longrightarrow> map_of (rev ps) = map_of ps"
  by (intro map_of_inject_set [THEN iffD2]) (simp_all add: rev_map [symmetric])

lemma blocks_of_pages:
  assumes "distinct (map fst ps)" shows "blocks_of nm (map (\<lambda>(w, b). Page nm w b) ps) = map_of ps"
proof -
  have "concat (map (page_of nm) (map (\<lambda>(w, b). Page nm w b) ps)) = ps" by (induction ps) auto
  then show ?thesis using map_of_rev [OF assms] by (simp add: blocks_of_def)
qed

lemma page_log_committed: "behaves db_step d tr d' \<Longrightarrow> committed d' = committed d ++ blocks_of nm (page_log nm tr)"
proof (induction rule: behaves.induct)
  case (behaves_step tr d1 op r d2)
  then show ?case
    by (cases op) (auto simp: page_log_def blocks_of_append blocks_of_pages write_own_def split: if_splits)
qed (simp add: page_log_def)

text \<open>Marks may stand anywhere in it.\<close>

lemma replayed_filter:
  "fst (replayed p es) @ snd (replayed p es) = fst p @ snd p @ filter (\<lambda>e. e \<noteq> Commit_mark) es"
  by (induction p es rule: replayed.induct) simp_all

lemma committed_marked:
  assumes "es = [] \<or> last es = Commit_mark" "Commit_mark \<notin> set ps"
  shows "committed_pages (es @ ps) = filter (\<lambda>e. e \<noteq> Commit_mark) es"
proof -
  have keep: "fst (replayed q ps) = fst q" for q
    using assms(2) by (induction q ps rule: replayed.induct) auto
  have "snd (replayed ([], []) es) = []"
  proof (cases es rule: rev_cases)
    case (snoc xs x)
    then show ?thesis using assms(1) by (cases "replayed ([], []) xs") (simp add: replayed_append)
  qed simp
  then show ?thesis using replayed_filter [of "([], [])" es] by (simp add: committed_pages_def replayed_append keep)
qed

section \<open>Where a journal was cut\<close>

text \<open>The number of whole entries and the bytes that are left of the next.\<close>

fun cut_at :: "nat \<Rightarrow> nat \<Rightarrow> journal_entry list \<Rightarrow> nat \<times> nat" where
  "cut_at n k [] = (n, 0)"
| "cut_at n k (e # es) =
     (let l = length (bytes_of (Suc n) e) in if k < l then (n, k) else cut_at (Suc n) (k - l) es)"

definition clean_cut :: "nat \<Rightarrow> journal_entry list \<Rightarrow> bool" where
  "clean_cut k es \<longleftrightarrow> \<not> (case cut_at 0 k es of (n, i) \<Rightarrow> torn_number n i)"

lemma cut_at_append:
  "length (log_bytes n xs) \<le> k \<Longrightarrow> cut_at n k (xs @ ys) = cut_at (n + length xs) (k - length (log_bytes n xs)) ys"
  by (induction xs arbitrary: n k) (simp_all add: Let_def)

lemma cut_at_log:
  assumes "cut_at n k es = (N, i)"
  obtains xs e ys where "N = n + length xs" "take k (log_bytes n es) = log_bytes n xs @ take i (bytes_of (Suc N) e)"
    "i < length (bytes_of (Suc N) e)" "es = xs @ e # ys \<or> es = xs \<and> e = Commit_mark \<and> i = 0"
  using assms
proof (induction n k es arbitrary: thesis rule: cut_at.induct)
  case (1 n k)
  have "0 < length (bytes_of (Suc n) Commit_mark)" using bytes_of_positive [of "Suc n" Commit_mark]
    by (simp add: entry_size_def del: length_greater_0_conv)
  then show ?case using "1.prems"(1) [of "[]" Commit_mark] "1.prems"(2) by simp
next
  case (2 n k e es)
  define l where "l = length (bytes_of (Suc n) e)"
  show ?case
  proof (cases "k < l")
    case True
    then show ?thesis using "2.prems"(1) [of "[]" e es] "2.prems"(2) by (simp add: l_def)
  next
    case False
    then have c: "cut_at (Suc n) (k - l) es = (N, i)" using "2.prems"(2) by (simp add: l_def)
    have t: "take k (log_bytes n (e # es)) = bytes_of (Suc n) e @ take (k - l) (log_bytes (Suc n) es)" using False by (simp add: l_def)
    show ?thesis
    proof (rule "2.IH" [OF l_def _ _ c])
      fix xs f ys
      assume "N = Suc n + length xs" "take (k - l) (log_bytes (Suc n) es) = log_bytes (Suc n) xs @ take i (bytes_of (Suc N) f)"
        "i < length (bytes_of (Suc N) f)" "es = xs @ f # ys \<or> es = xs \<and> f = Commit_mark \<and> i = 0"
      then show thesis using "2.prems"(1) [of "e # xs" f ys] unfolding t by auto
    qed (use False in simp)
  qed
qed

text \<open>A clean cut up to 254 entries: the numbers are one byte.\<close>

lemma cut_at_bound: "fst (cut_at n k es) \<le> n + length es"
  by (induction n k es rule: cut_at.induct) (auto simp: Let_def)

lemma short_clean:
  assumes "length es < 255" shows "clean_cut k es"
proof -
  obtain n i where c: "cut_at 0 k es = (n, i)" by force
  have "n < 255" using cut_at_bound [of 0 k es] c assms by simp
  moreover have "(256 :: nat) \<le> 256 ^ i" if "i \<noteq> 0" using that by (cases i) simp_all
  ultimately show ?thesis by (cases "i = 0") (auto simp: clean_cut_def c torn_number_def)
qed

section \<open>Recovery of a journal that was cut\<close>

text \<open>What is read is the log of the first entries; a mark counts as soon as its command byte is there.\<close>

lemma recover_cut:
  assumes f: "journal_file j = take k (log_bytes 0 es)"
    and ok: "list_all page_ok es" "Suc (length es) < 2 ^ 64" "\<forall>nm \<in> names_of es. sound_disk env nm"
  obtains xs ys reg where "es = xs @ ys" "fst (cut_at 0 k es) = length xs"
    "recover h env j [] = Inr (reset_journal j, reg)"
    "if clean_cut k es
     then recovered env (committed_pages xs) False reg \<or>
       (\<exists>zs. ys = Commit_mark # zs \<and> recovered env (committed_pages (xs @ [Commit_mark])) False reg)
     else recovered env (committed_pages xs) True reg"
proof -
  obtain n i where c: "cut_at 0 k es = (n, i)" by force
  obtain xs e ys where x: "n = 0 + length xs" "take k (log_bytes 0 es) = log_bytes 0 xs @ take i (bytes_of (Suc n) e)"
    "i < length (bytes_of (Suc n) e)" "es = xs @ e # ys \<or> es = xs \<and> e = Commit_mark \<and> i = 0"
    by (rule cut_at_log [OF c])
  obtain zs where zs: "es = xs @ zs" "zs = e # ys \<or> zs = [] \<and> e = Commit_mark \<and> i = 0" using x(4) by blast
  have "names_of xs \<subseteq> names_of es" by (auto simp: zs(1) names_append)
  then have ok': "list_all page_ok (xs @ [e])" "Suc (length xs) < 2 ^ 64" "\<forall>nm \<in> names_of xs. sound_disk env nm"
    using ok zs by auto
  have "journal_file j = log_bytes 0 xs @ take i (bytes_of (Suc (length xs)) e)" "i < length (bytes_of (Suc (length xs)) e)"
    using f x by simp_all
  from recover_torn [OF this ok', of h]
  obtain reg where reg: "recover h env j [] = Inr (reset_journal j, reg)"
    "if torn_number (length xs) i then recovered env (committed_pages xs) True reg
     else recovered env (committed_pages (if e = Commit_mark \<and> 9 \<le> i then xs @ [e] else xs)) False reg" by blast
  have "clean_cut k es \<longleftrightarrow> \<not> torn_number (length xs) i" using c x(1) by (simp add: clean_cut_def)
  with reg(2) zs(2) have "if clean_cut k es
     then recovered env (committed_pages xs) False reg \<or>
       (\<exists>ys. zs = Commit_mark # ys \<and> recovered env (committed_pages (xs @ [Commit_mark])) False reg)
     else recovered env (committed_pages xs) True reg"
    by (auto split: if_splits)
  moreover have "fst (cut_at 0 k es) = length xs" using c x(1) by simp
  ultimately show ?thesis using that [OF zs(1) _ reg(1)] by blast
qed

section \<open>A coordinator and its file\<close>

lemma disk_view_rows: "view (new_allocator False x) = (\<lambda>w. map_option snd (map_of (the_rows x) w))"
  by (cases x) (simp_all add: new_allocator_def get_session_def Let_def view_def [abs_def] stored_def [abs_def] stored_rows_def
      cache_def the_rows_def fun_eq_iff map_add_def)

lemma new_storage_on_file:
  assumes "sound_disk env nm" shows "on_file (new_storage env nm)"
proof -
  define a where "a = new_allocator False (disk env nm)"
  have "the_rows (file_rows a) = the_rows (disk env nm)"
    by (cases "disk env nm") (simp_all add: a_def new_allocator_def get_session_def Let_def the_rows_def)
  then have "view (new_allocator False (file_rows a)) = disk_view env nm" by (simp add: disk_view_def disk_view_rows)
  then show ?thesis
    using new_storage_ok(2) [OF assms]
    by (simp add: on_file_def new_storage_def new_mvcc_def a_def alloc_of_def set_allocator_def new_version_store_def)
qed

text \<open>What a coordinator left in its file before a run is still there after it.\<close>

lemma file_after_run:
  assumes inv: "mvcc_inv m" and f: "on_file m" and r: "execution can_step (mvcc_step h) m tr m'" "Checkpoint \<notin> fst ` set tr"
    and d: "first_rows m' = Some (the_rows (disk env nm))"
  shows "disk_view env nm = committed (db m)"
proof -
  obtain c a where c: "storages m = [c]" "alloc_of (heap m) c = Some a" "view (new_allocator False (file_rows a)) = committed (db m)"
    using f by (auto simp: on_file_def)
  have "first_rows m = Some (the_rows (disk env nm))" using first_rows_run [OF r(1) inv r(2)] d by simp
  then have "the_rows (disk env nm) = the_rows (file_rows a)" using c by (simp add: first_rows_def rows_at_def)
  then show ?thesis using c(3) by (simp add: disk_view_def disk_view_rows)
qed

lemma recovered_storage:
  assumes r: "recovered env ds False reg" and s: "sound_disk env nm" "valid_directory env nm"
  shows "db (get_storage env nm reg) = \<lparr>committed = disk_view env nm ++ blocks_of nm ds, txns = Map.empty\<rparr>"
    "on_file (get_storage env nm reg)"
proof -
  have c: "case map_of reg nm of None \<Rightarrow> nm \<notin> names_of ds | Some m \<Rightarrow> nm \<in> names_of ds \<and> finished env ds False nm m"
    using r unfolding recovered_def by blast
  have e: "d = \<lparr>committed = c, txns = Map.empty\<rparr>" if "txns d = Map.empty" "committed d = c" for d c using that by simp
  show "db (get_storage env nm reg) = \<lparr>committed = disk_view env nm ++ blocks_of nm ds, txns = Map.empty\<rparr>"
    using c s new_storage_ok(2) [OF s(1)] by (auto simp: get_storage_def finished_def blocks_of_names intro!: e split: option.splits)
  show "on_file (get_storage env nm reg)"
    using c s new_storage_on_file [OF s(1)] by (auto simp: get_storage_def finished_def split: option.splits)
qed

end
