(* ===== verification/CrashTheorems.thy ===== *)
theory CrashTheorems
  imports CrashRecovery
begin

text \<open>What survives a crash.\<close>

section \<open>The journal of a run\<close>

text \<open>
  A history of one storage: the operations of its coordinator, whose commits write their pages to the
  journal, and the marks of a synchronisation that does not reach a checkpoint.
\<close>

type_synonym history = "(mvcc_op \<times> mvcc_out) option list"


definition steps_of :: "history \<Rightarrow> (mvcc_op \<times> mvcc_out) list" where
  "steps_of evs = concat (map (\<lambda>e. case e of None \<Rightarrow> [] | Some x \<Rightarrow> [x]) evs)"




lemma steps_of_simps [simp]: "steps_of [] = []" "steps_of (None # evs) = steps_of evs" "steps_of (Some x # evs) = x # steps_of evs"
  by (simp_all add: steps_of_def)







section \<open>Durability\<close>














section \<open>A journal cut anywhere\<close>

lemma sound_names: "\<forall>nm \<in> names_of es. sound_disk env nm \<Longrightarrow> es = xs @ ys \<Longrightarrow> \<forall>nm \<in> names_of xs. sound_disk env nm"
  by (simp add: names_append)





end
