(* ===== verification/JournalSynch.thy ===== *)
theory JournalSynch
  imports CrashTheorems
begin

text \<open>
  Synchronisation of the journal: when every participant could be merged to a single version, their
  blocks are brought to their files and the journal is emptied.
\<close>

section \<open>An operation of every participant\<close>







section \<open>A checkpoint\<close>








end
